(* ===== verification/Index_Prelude.thy ===== *)
theory Index_Prelude
  imports Main "HOL-Library.Word" "HOL-Library.Char_ord" "HOL-Library.List_Lexorder"
begin

text \<open>
  Shared vocabulary of the development: the outcome of a Rust function, the sequencing of
  fallible calls, machine-integer type names, and decimal rendering and parsing of integers. Rust strings are byte sequences, so a
  \<^typ>\<open>string\<close> (a list of 8-bit characters) models both \<^verbatim>\<open>&str\<close> and \<^verbatim>\<open>String\<close>; the order on
  strings is the bytewise lexicographic one of Rust's \<^verbatim>\<open>Ord for str\<close>.
\<close>

named_theorems res_simps \<open>evaluation rules for sequenced fallible calls\<close>
named_theorems btree_simps \<open>rules for ordered maps\<close>

type_synonym u8 = "8 word"
type_synonym u32 = "32 word"
type_synonym u64 = "64 word"
type_synonym i64 = "64 word"

section \<open>Outcomes of fallible code\<close>

text \<open>
  A call returns a value, returns an error value, or panics (an out-of-range index, a failed
  \<^verbatim>\<open>expect\<close>, an \<^verbatim>\<open>unreachable!\<close>). Panics are kept apart from errors so that a theorem can say
  that they never happen.
\<close>

datatype ('e, 'a) res = Ok 'a | Err 'e | Panic

text \<open>The \<^verbatim>\<open>?\<close> operator: continue with the value, or leave with the error.\<close>

fun bind_res :: "('e, 'a) res \<Rightarrow> ('a \<Rightarrow> ('e, 'b) res) \<Rightarrow> ('e, 'b) res" where
  "bind_res (Ok x) f = f x"
| "bind_res (Err e) f = Err e"
| "bind_res Panic f = Panic"

lemma bind_res_cong [fundef_cong]:
  assumes "m = m'" and "\<And>x. m' = Ok x \<Longrightarrow> f x = f' x"
  shows "bind_res m f = bind_res m' f'"
  using assms by (cases m') auto

lemma bind_res_Ok_iff [res_simps]: "bind_res m f = Ok y \<longleftrightarrow> (\<exists>x. m = Ok x \<and> f x = Ok y)"
  by (cases m) auto

lemma bind_res_Err_iff [res_simps]:
  "bind_res m f = Err e \<longleftrightarrow> m = Err e \<or> (\<exists>x. m = Ok x \<and> f x = Err e)"
  by (cases m) auto

lemma bind_res_Panic_iff [res_simps]:
  "bind_res m f = Panic \<longleftrightarrow> m = Panic \<or> (\<exists>x. m = Ok x \<and> f x = Panic)"
  by (cases m) auto

fun map_err :: "('e \<Rightarrow> 'f) \<Rightarrow> ('e, 'a) res \<Rightarrow> ('f, 'a) res" where
  "map_err g (Ok x) = Ok x"
| "map_err g (Err e) = Err (g e)"
| "map_err g Panic = Panic"

lemma map_err_iffs [simp]:
  "map_err g m = Ok x \<longleftrightarrow> m = Ok x"
  "map_err g m = Err f \<longleftrightarrow> (\<exists>e. m = Err e \<and> f = g e)"
  "map_err g m = Panic \<longleftrightarrow> m = Panic"
  by (cases m; auto)+

text \<open>\<^verbatim>\<open>iter().map(f).collect::<Result<Vec<_>, _>>()\<close>: stops at the first failure.\<close>

fun map_res :: "('a \<Rightarrow> ('e, 'b) res) \<Rightarrow> 'a list \<Rightarrow> ('e, 'b list) res" where
  "map_res f [] = Ok []"
| "map_res f (x # xs) = bind_res (f x) (\<lambda>y. bind_res (map_res f xs) (\<lambda>ys. Ok (y # ys)))"

lemma map_res_cong [fundef_cong]:
  assumes "xs = ys" and "\<And>x. x \<in> set ys \<Longrightarrow> f x = g x"
  shows "map_res f xs = map_res g ys"
  using assms by (induction ys arbitrary: xs) auto

lemma map_res_Ok_iff:
  "map_res f xs = Ok ys \<longleftrightarrow> list_all2 (\<lambda>x y. f x = Ok y) xs ys"
  by (induction xs arbitrary: ys) (auto simp: res_simps list_all2_Cons1)

lemma map_res_Err: "map_res f xs = Err e \<Longrightarrow> \<exists>x \<in> set xs. f x = Err e"
  by (induction xs) (auto simp: res_simps)

lemma map_res_Panic: "map_res f xs = Panic \<Longrightarrow> \<exists>x \<in> set xs. f x = Panic"
  by (induction xs) (auto simp: res_simps)

lemma map_res_all_Ok: "(\<And>x. x \<in> set xs \<Longrightarrow> f x = Ok (g x)) \<Longrightarrow> map_res f xs = Ok (map g xs)"
  by (induction xs) auto

text \<open>A loop over a list whose body may fail: \<^verbatim>\<open>for x in xs { state = f(x, state)?; }\<close>.\<close>

fun fold_res :: "('a \<Rightarrow> 's \<Rightarrow> ('e, 's) res) \<Rightarrow> 'a list \<Rightarrow> 's \<Rightarrow> ('e, 's) res" where
  "fold_res f [] s = Ok s"
| "fold_res f (x # xs) s = bind_res (f x s) (fold_res f xs)"

lemma fold_res_cong [fundef_cong]:
  assumes "xs = ys" and "s = t" and "\<And>x u. x \<in> set ys \<Longrightarrow> f x u = g x u"
  shows "fold_res f xs s = fold_res g ys t"
  using assms by (induction ys arbitrary: xs s t) (auto intro: bind_res_cong)

text \<open>A call that does not panic, with what its value and its error satisfy.\<close>

definition ends :: "('e, 'a) res \<Rightarrow> ('a \<Rightarrow> bool) \<Rightarrow> ('e \<Rightarrow> bool) \<Rightarrow> bool" where
  "ends m Q E \<longleftrightarrow> (case m of Ok x \<Rightarrow> Q x | Err e \<Rightarrow> E e | Panic \<Rightarrow> False)"

lemma ends_simps [simp]: "ends (Ok x) Q E = Q x" "ends (Err e) Q E = E e" "ends Panic Q E = False"
  by (simp_all add: ends_def)

lemma ends_bind: "ends (bind_res m f) Q E \<longleftrightarrow> ends m (\<lambda>x. ends (f x) Q E) E"
  by (cases m) simp_all

lemma ends_mono: "ends m P E \<Longrightarrow> (\<And>x. P x \<Longrightarrow> Q x) \<Longrightarrow> (\<And>e. E e \<Longrightarrow> F e) \<Longrightarrow> ends m Q F"
  by (cases m) simp_all

text \<open>The invariant rule of such a loop; the invariant may speak of the part already done.\<close>

lemma ends_fold_res:
  assumes "I [] s" and step: "\<And>ys x zs s. xs = ys @ x # zs \<Longrightarrow> I ys s \<Longrightarrow> ends (f x s) (I (ys @ [x])) E"
  shows "ends (fold_res f xs s) (I xs) E"
proof -
  have "ends (fold_res f zs s) (I xs) E" if "xs = ys @ zs" "I ys s" for ys zs s
    using that
  proof (induction zs arbitrary: ys s)
    case (Cons x zs)
    show ?case
      using step [OF Cons.prems] Cons.IH [of "ys @ [x]"] Cons.prems(1)
      by (auto simp: ends_bind elim!: ends_mono)
  qed simp
  from this [of "[]" xs s] assms(1) show ?thesis by simp
qed

text \<open>Indexing a slice panics out of range.\<close>

definition index_slice :: "'a list \<Rightarrow> nat \<Rightarrow> ('e, 'a) res" where
  "index_slice xs i = (if i < length xs then Ok (xs ! i) else Panic)"

definition expect_some :: "'a option \<Rightarrow> ('e, 'a) res" where
  "expect_some x = (case x of Some v \<Rightarrow> Ok v | None \<Rightarrow> Panic)"

lemma expect_some_simps [simp]: "expect_some (Some v) = Ok v" "expect_some None = Panic"
  by (simp_all add: expect_some_def)

section \<open>Joined words\<close>

text \<open>\<^verbatim>\<open>join\<close>: words with a separator between each two.\<close>

fun intersperse :: "string \<Rightarrow> string list \<Rightarrow> string" where
  "intersperse sep [] = []"
| "intersperse sep [w] = w"
| "intersperse sep (w # ws) = w @ sep @ intersperse sep ws"

section \<open>Decimal integers\<close>

definition digit_char :: "nat \<Rightarrow> char" where
  "digit_char d = char_of (48 + d)"

fun show_nat :: "nat \<Rightarrow> string" where
  "show_nat n = (if n < 10 then [digit_char n] else show_nat (n div 10) @ [digit_char (n mod 10)])"

declare show_nat.simps [simp del]

text \<open>\<^verbatim>\<open>to_string\<close> of a signed integer.\<close>

definition show_int :: "int \<Rightarrow> string" where
  "show_int i = (if i < 0 then CHR ''-'' # show_nat (nat (- i)) else show_nat (nat i))"

definition is_digit :: "char \<Rightarrow> bool" where
  "is_digit c \<longleftrightarrow> 48 \<le> (of_char c :: nat) \<and> (of_char c :: nat) \<le> 57"

definition digit_val :: "char \<Rightarrow> nat" where
  "digit_val c = of_char c - 48"

definition nat_of_digits :: "string \<Rightarrow> nat" where
  "nat_of_digits = foldl (\<lambda>n c. 10 * n + digit_val c) 0"

lemma digit_char_less [simp]: "d < 10 \<Longrightarrow> of_char (digit_char d) = 48 + d"
  by (simp add: digit_char_def of_char_of)

lemma is_digit_digit_char [simp]: "d < 10 \<Longrightarrow> is_digit (digit_char d)"
  by (simp add: is_digit_def)

lemma digit_val_digit_char [simp]: "d < 10 \<Longrightarrow> digit_val (digit_char d) = d"
  by (simp add: digit_val_def)

lemma show_nat_nonempty [simp]: "show_nat n \<noteq> []"
  by (subst show_nat.simps) simp

lemma show_nat_digits: "c \<in> set (show_nat n) \<Longrightarrow> is_digit c"
proof (induction n rule: show_nat.induct)
  case (1 n)
  then show ?case
    by (cases "n < 10") (auto simp: show_nat.simps [of n])
qed

lemma nat_of_digits_append:
  "nat_of_digits (xs @ [c]) = 10 * nat_of_digits xs + digit_val c"
  by (simp add: nat_of_digits_def)

lemma nat_of_digits_show_nat [simp]: "nat_of_digits (show_nat n) = n"
proof (induction n rule: show_nat.induct)
  case (1 n)
  show ?case
  proof (cases "n < 10")
    case True
    then show ?thesis by (simp add: show_nat.simps [of n] nat_of_digits_def)
  next
    case False
    with 1 show ?thesis
      by (simp add: show_nat.simps [of n] nat_of_digits_append)
  qed
qed

lemma show_nat_inj: "show_nat m = show_nat n \<Longrightarrow> m = n"
  by (metis nat_of_digits_show_nat)

lemma show_nat_no_minus: "show_nat n \<noteq> CHR ''-'' # xs"
proof
  assume eq: "show_nat n = CHR ''-'' # xs"
  then have "is_digit (CHR ''-'')"
    by (intro show_nat_digits [of _ n]) simp
  then show False by (simp add: is_digit_def)
qed

lemma show_int_inj: "show_int i = show_int j \<Longrightarrow> i = j"
  using show_nat_no_minus
  by (auto simp: show_int_def dest: show_nat_inj split: if_splits) metis+

end
