(* ===== verification/BTree_Map.thy ===== *)
theory BTree_Map
  imports Index_Prelude
begin

text \<open>
  The ordered maps of the standard library (\<^verbatim>\<open>BTreeMap\<close>, and \<^verbatim>\<open>BTreeSet\<close> through its keys), as
  the components use them: insertion overwrites, lookup is by key, iteration is in ascending
  key order. The interface is the locale \<open>ordered_map\<close>; a strictly sorted association list
  implements it.
\<close>

section \<open>The interface\<close>

lemma map_of_rev_distinct: "distinct (map fst kvs) \<Longrightarrow> map_of (rev kvs) k = map_of kvs k"
proof (induction kvs)
  case (Cons kv kvs)
  then have "k = fst kv \<Longrightarrow> map_of kvs k = None"
    by (auto simp: map_of_eq_None_iff)
  with Cons show ?case
    by (cases kv) (auto simp: map_add_def split: option.splits)
qed simp

locale ordered_map =
  fixes empty :: "'m"
    and insert :: "'k::linorder \<Rightarrow> 'v \<Rightarrow> 'm \<Rightarrow> 'm"
    and remove :: "'k \<Rightarrow> 'm \<Rightarrow> 'm"
    and get :: "'m \<Rightarrow> 'k \<Rightarrow> 'v option"
    and entries :: "'m \<Rightarrow> ('k \<times> 'v) list"
    and wf :: "'m \<Rightarrow> bool"
  assumes get_empty: "get empty k = None"
    and get_insert: "wf m \<Longrightarrow> get (insert k v m) k' = (if k' = k then Some v else get m k')"
    and get_remove: "wf m \<Longrightarrow> get (remove k m) k' = (if k' = k then None else get m k')"
    and entries_get: "wf m \<Longrightarrow> map_of (entries m) k = get m k"
    and entries_sorted: "wf m \<Longrightarrow> sorted_wrt (<) (map fst (entries m))"
    and wf_empty: "wf empty"
    and wf_insert: "wf m \<Longrightarrow> wf (insert k v m)"
    and wf_remove: "wf m \<Longrightarrow> wf (remove k m)"
begin

lemma distinct_keys: "wf m \<Longrightarrow> distinct (map fst (entries m))"
  using entries_sorted strict_sorted_iff by blast

lemma in_entries_iff: "wf m \<Longrightarrow> (k, v) \<in> set (entries m) \<longleftrightarrow> get m k = Some v"
  using distinct_keys entries_get by (metis map_of_eq_Some_iff)

lemma keys_iff: "wf m \<Longrightarrow> k \<in> fst ` set (entries m) \<longleftrightarrow> get m k \<noteq> None"
  using entries_get by (metis map_of_eq_None_iff)

text \<open>Two maps with the same contents iterate alike.\<close>

lemma entries_ext:
  assumes "wf a" and "wf b" and "\<And>k. get a k = get b k"
  shows "entries a = entries b"
proof -
  have eq: "set (entries a) = set (entries b)"
    using assms by (auto simp: in_entries_iff)
  have "map fst (entries a) = map fst (entries b)"
    using assms(1,2) eq by (metis entries_sorted list.set_map strict_sorted_equal)
  moreover have "inj_on fst (set (entries a) \<union> set (entries b))"
    using distinct_keys [OF assms(1)] eq by (simp add: distinct_map)
  ultimately show ?thesis
    by (rule map_inj_on)
qed

text \<open>Collecting a sequence of pairs: the last pair with a key wins.\<close>

lemma wf_collect: "wf m \<Longrightarrow> wf (fold (\<lambda>(k, v). insert k v) kvs m)"
  by (induction kvs arbitrary: m) (auto simp: wf_insert)

lemma get_collect:
  "wf m \<Longrightarrow> get (fold (\<lambda>(k, v). insert k v) kvs m) k =
     (case map_of (rev kvs) k of Some v \<Rightarrow> Some v | None \<Rightarrow> get m k)"
proof (induction kvs arbitrary: m)
  case Nil
  then show ?case by simp
next
  case (Cons kv kvs)
  then show ?case
    by (cases kv) (auto simp: wf_insert get_insert map_add_def split: option.splits)
qed

lemma get_collect_distinct:
  assumes "wf m" and "distinct (map fst kvs)"
  shows "get (fold (\<lambda>(k, v). insert k v) kvs m) k =
     (case map_of kvs k of Some v \<Rightarrow> Some v | None \<Rightarrow> get m k)"
proof -
  have "map_of (rev kvs) k = map_of kvs k"
    using assms(2) by (rule map_of_rev_distinct)
  then show ?thesis
    using get_collect [OF assms(1)] by simp
qed

end

section \<open>Sorted association lists\<close>

type_synonym ('k, 'v) btree = "('k \<times> 'v) list"

fun bt_insert :: "'k::linorder \<Rightarrow> 'v \<Rightarrow> ('k, 'v) btree \<Rightarrow> ('k, 'v) btree" where
  "bt_insert k v [] = [(k, v)]"
| "bt_insert k v ((k', v') # m) =
     (if k < k' then (k, v) # (k', v') # m
      else if k = k' then (k, v) # m
      else (k', v') # bt_insert k v m)"

fun bt_remove :: "'k \<Rightarrow> ('k, 'v) btree \<Rightarrow> ('k, 'v) btree" where
  "bt_remove k [] = []"
| "bt_remove k ((k', v') # m) = (if k = k' then m else (k', v') # bt_remove k m)"

fun bt_get :: "('k, 'v) btree \<Rightarrow> 'k \<Rightarrow> 'v option" where
  "bt_get [] k = None"
| "bt_get ((k', v) # m) k = (if k = k' then Some v else bt_get m k)"

definition bt_wf :: "('k::linorder, 'v) btree \<Rightarrow> bool" where
  "bt_wf m \<longleftrightarrow> sorted_wrt (<) (map fst m)"

definition bt_collect :: "('k::linorder \<times> 'v) list \<Rightarrow> ('k, 'v) btree" where
  "bt_collect kvs = fold (\<lambda>(k, v). bt_insert k v) kvs []"

abbreviation bt_values :: "('k, 'v) btree \<Rightarrow> 'v list" where
  "bt_values m \<equiv> map snd m"

lemma bt_get_map_of [btree_simps]: "bt_get m k = map_of m k"
  by (induction m) auto

lemma set_bt_insert: "x \<in> set (bt_insert k v m) \<Longrightarrow> x = (k, v) \<or> x \<in> set m"
  by (induction m) (auto split: if_splits)

lemma set_bt_remove: "x \<in> set (bt_remove k m) \<Longrightarrow> x \<in> set m"
  by (induction m) (auto split: if_splits)

lemma bt_wf_Nil [simp]: "bt_wf []"
  by (simp add: bt_wf_def)

lemma bt_wf_Cons [btree_simps]: "bt_wf ((k, v) # m) \<longleftrightarrow> (\<forall>x \<in> set m. k < fst x) \<and> bt_wf m"
  by (simp add: bt_wf_def)

lemma bt_wf_insert: "bt_wf m \<Longrightarrow> bt_wf (bt_insert k v m)"
  by (induction k v m rule: bt_insert.induct)
    (auto simp: bt_wf_Cons dest: set_bt_insert order_less_trans)

lemma bt_wf_remove: "bt_wf m \<Longrightarrow> bt_wf (bt_remove k m)"
  by (induction k m rule: bt_remove.induct) (auto simp: bt_wf_Cons dest: set_bt_remove)

lemma bt_get_insert: "bt_get (bt_insert k v m) k' = (if k' = k then Some v else bt_get m k')"
  by (induction k v m rule: bt_insert.induct) auto

lemma bt_get_below: "\<forall>x \<in> set m. k < fst x \<Longrightarrow> bt_get m (k::'k::linorder) = None"
  by (induction m) (auto simp: order_less_imp_not_eq)

lemma bt_get_remove: "bt_wf m \<Longrightarrow> bt_get (bt_remove k m) k' = (if k' = k then None else bt_get m k')"
  by (induction k m rule: bt_remove.induct) (auto simp: bt_wf_Cons bt_get_below)

interpretation bt: ordered_map "[]" bt_insert bt_remove bt_get "\<lambda>m. m" bt_wf
proof unfold_locales
  show "map_of m k = bt_get m k" for m :: "('k::linorder, 'v) btree" and k
    by (simp add: bt_get_map_of)
  show "sorted_wrt (<) (map fst m)" if "bt_wf m" for m :: "('k::linorder, 'v) btree"
    using that by (simp add: bt_wf_def)
qed (simp_all add: bt_get_insert bt_get_remove bt_wf_insert bt_wf_remove)

lemmas bt_wf_intros [intro, simp] = bt.wf_insert bt.wf_remove

lemma bt_wf_collect [intro, simp]: "bt_wf (bt_collect kvs)"
  unfolding bt_collect_def by (rule bt.wf_collect) simp

lemma bt_get_collect_distinct:
  "distinct (map fst kvs) \<Longrightarrow> bt_get (bt_collect kvs) k = map_of kvs k"
  unfolding bt_collect_def
  by (subst bt.get_collect_distinct) (auto split: option.splits)

lemma bt_wf_map_values [simp]: "bt_wf (map (\<lambda>(k, v). (k, f k v)) m) = bt_wf m"
  by (simp add: bt_wf_def case_prod_beta' comp_def)

lemma bt_get_map_values [simp]:
  "bt_get (map (\<lambda>(k, v). (k, f k v)) m) k = map_option (f k) (bt_get m k)"
  by (induction m) auto

end
