(* ===== verification/Topo_Order.thy ===== *)
theory Topo_Order
  imports Index_Prelude
begin

text \<open>
  Dependency orders. Several components list the nodes of a graph so that every node comes
  after what it depends on: the plan order of the effect IR, the spawn order of the DAG runner.
  Their clients rely on the two laws of the locale \<open>topo_listing\<close> only.
\<close>

locale topo_listing =
  fixes listing :: "'p \<Rightarrow> 'n list"
    and deps :: "'p \<Rightarrow> 'n \<Rightarrow> 'n set"
  assumes listing_distinct: "distinct (listing p)"
    and deps_before: "listing p = xs @ n # ys \<Longrightarrow> deps p n \<subseteq> set xs"
begin

lemma deps_closed: "n \<in> set (listing p) \<Longrightarrow> deps p n \<subseteq> set (listing p)"
proof -
  assume "n \<in> set (listing p)"
  then obtain xs ys where eq: "listing p = xs @ n # ys"
    by (auto simp: in_set_conv_decomp)
  show ?thesis
    using deps_before [OF eq] by (auto simp: eq)
qed

text \<open>Induction along the order: a node may use the claim for all it depends on.\<close>

lemma listing_induct [consumes 1, case_names node]:
  assumes "n \<in> set (listing p)"
    and step: "\<And>n. n \<in> set (listing p) \<Longrightarrow> (\<And>d. d \<in> deps p n \<Longrightarrow> P d) \<Longrightarrow> P n"
  shows "P n"
proof -
  have "\<forall>n \<in> set xs. P n" if "listing p = xs @ ys" for xs ys
    using that
  proof (induction xs arbitrary: ys rule: rev_induct)
    case (snoc n xs)
    then have IH: "\<forall>m \<in> set xs. P m" and eq: "listing p = xs @ n # ys"
      by auto
    have "P n"
    proof (rule step)
      show "n \<in> set (listing p)" by (simp add: eq)
      show "P d" if "d \<in> deps p n" for d
        using that IH deps_before [OF eq] by auto
    qed
    with IH show ?case by simp
  qed simp
  from this [of "listing p" "[]"] assms(1) show ?thesis by simp
qed

lemma dep_not_self: "n \<in> set (listing p) \<Longrightarrow> n \<notin> deps p n"
proof -
  assume "n \<in> set (listing p)"
  then obtain xs ys where eq: "listing p = xs @ n # ys"
    by (auto simp: in_set_conv_decomp)
  then have "n \<notin> set xs"
    using listing_distinct [of p] by simp
  then show ?thesis using deps_before [OF eq] by blast
qed

text \<open>The graph on the listed nodes has no cycle.\<close>

lemma listing_wf: "wf {(d, n). n \<in> set (listing p) \<and> d \<in> deps p n}"
proof (rule wfUNIVI)
  fix P x
  assume hyp: "\<forall>x. (\<forall>y. (y, x) \<in> {(d, n). n \<in> set (listing p) \<and> d \<in> deps p n} \<longrightarrow> P y) \<longrightarrow> P x"
  have listed: "P n" if "n \<in> set (listing p)" for n
    using that
  proof (induction rule: listing_induct)
    case (node n)
    then show ?case using hyp [rule_format, of n] by simp
  qed
  show "P x"
  proof (cases "x \<in> set (listing p)")
    case False
    then show ?thesis
      using hyp [rule_format, of x] by simp
  qed (rule listed)
qed

lemma listing_acyclic: "acyclic {(d, n). n \<in> set (listing p) \<and> d \<in> deps p n}"
  using listing_wf by (rule wf_acyclic)

end

section \<open>Progress of dependency orders\<close>

text \<open>
  In a finite acyclic graph every nonempty set of pending nodes has a node none of whose
  dependencies is pending: what makes a round of any of the schedulers advance.
\<close>

lemma finite_pending_ready:
  assumes "finite S" and "S \<noteq> {}" and "acyclic {(d, n). n \<in> S \<and> d \<in> S \<and> E d n}"
  shows "\<exists>n \<in> S. \<forall>d \<in> S. \<not> E d n"
proof -
  let ?R = "{(d, n). n \<in> S \<and> d \<in> S \<and> E d n}"
  have "?R \<subseteq> S \<times> S" by auto
  then have "finite ?R"
    using assms(1) by (simp add: finite_subset)
  then have "wf ?R"
    using assms(3) by (rule finite_acyclic_wf)
  moreover obtain s where "s \<in> S" using assms(2) by blast
  ultimately obtain n where "n \<in> S" and "\<And>y. (y, n) \<in> ?R \<Longrightarrow> y \<notin> S"
    by (rule wfE_min) blast
  then have "\<forall>d \<in> S. \<not> E d n" by blast
  with \<open>n \<in> S\<close> show ?thesis by blast
qed

end
