(* ===== verification/Efx_IR.thy ===== *)
theory Efx_IR
  imports BTree_Map Topo_Order "HOL-Library.Multiset"
begin

text \<open>
  The content-addressed effect IR, \<^verbatim>\<open>packages/efx/ir/src/lib.rs\<close>: literals and effects, plans
  with unique names, the dependency order of a plan, and the identity of every effect as a hash
  over its kind, its executor and its resolved inputs. SHA-256, the hex codec and the JSON
  writer are third-party crates: they are the fields of \<open>crates\<close>, an argument of every
  definition that uses them.
\<close>

section \<open>Data\<close>

datatype plan_error =
    DuplicateName string
  | UnknownReference string string
  | Cycle string

datatype literal = LStr string | LInt i64 | LBool bool

record output_ref =
  ref_effect :: string
  ref_field :: string

datatype input_value = Literal literal | Ref output_ref

record effect_meta =
  idempotent :: bool
  rollback_hint :: "string option"

definition default_meta :: effect_meta where
  "default_meta = \<lparr>idempotent = True, rollback_hint = None\<rparr>"

record effect =
  e_name :: string
  e_kind :: string
  e_executor :: string
  e_inputs :: "(string, input_value) btree"
  e_meta :: effect_meta

text \<open>An identity is the 32 bytes of a digest.\<close>

datatype effect_id = EffectId (id_bytes: string)

datatype id_input = Lit string | RefIn string string

record id_document =
  doc_executor :: string
  doc_inputs :: "(string, id_input) btree"
  doc_kind :: string

record edge =
  edge_from :: string
  edge_to :: string

record plan =
  effects :: "effect list"

text \<open>What the IR calls in other crates.\<close>

record crates =
  sha256 :: "string \<Rightarrow> string"
  hex_encode :: "string \<Rightarrow> string"
  hex_decode :: "string \<Rightarrow> string option"
  id_document_json :: "id_document \<Rightarrow> string"

section \<open>Literals and identities\<close>

definition show_bool :: "bool \<Rightarrow> string" where
  "show_bool b = (if b then ''true'' else ''false'')"

text \<open>The bytes fed to the hasher: the type tag, then the value.\<close>

fun hash_input :: "literal \<Rightarrow> string" where
  "hash_input (LStr s) = ''str:'' @ s"
| "hash_input (LInt n) = ''int:'' @ show_int (sint n)"
| "hash_input (LBool b) = ''bool:'' @ show_bool b"

definition content_hash :: "crates \<Rightarrow> literal \<Rightarrow> string" where
  "content_hash c lit = hex_encode c (sha256 c (hash_input lit))"

fun display_string :: "literal \<Rightarrow> string" where
  "display_string (LStr s) = s"
| "display_string (LInt n) = show_int (sint n)"
| "display_string (LBool b) = show_bool b"

definition to_hex :: "crates \<Rightarrow> effect_id \<Rightarrow> string" where
  "to_hex c i = hex_encode c (id_bytes i)"

definition short_id :: "crates \<Rightarrow> effect_id \<Rightarrow> string" where
  "short_id c i = hex_encode c (take 6 (id_bytes i))"

definition serialize_id :: "crates \<Rightarrow> effect_id \<Rightarrow> string" where
  "serialize_id c i = to_hex c i"

datatype de_error = BadHex | BadLength

definition deserialize_id :: "crates \<Rightarrow> string \<Rightarrow> (de_error, effect_id) res" where
  "deserialize_id c text =
     (case hex_decode c text of
        None \<Rightarrow> Err BadHex
      | Some bytes \<Rightarrow> if length bytes = 32 then Ok (EffectId bytes) else Err BadLength)"

section \<open>Plans\<close>

definition new_plan :: plan where
  "new_plan = \<lparr>effects = []\<rparr>"

definition add_effect :: "plan \<Rightarrow> effect \<Rightarrow> (plan_error, plan) res" where
  "add_effect p e =
     (if list_ex (\<lambda>e'. e_name e' = e_name e) (effects p)
      then Err (DuplicateName (e_name e))
      else Ok (p\<lparr>effects := effects p @ [e]\<rparr>))"

fun add_all :: "plan \<Rightarrow> effect list \<Rightarrow> (plan_error, plan) res" where
  "add_all p [] = Ok p"
| "add_all p (e # es) = bind_res (add_effect p e) (\<lambda>p'. add_all p' es)"

definition from_effects :: "effect list \<Rightarrow> (plan_error, plan) res" where
  "from_effects es = add_all new_plan es"

definition get_effect :: "plan \<Rightarrow> string \<Rightarrow> effect option" where
  "get_effect p n = find (\<lambda>e. e_name e = n) (effects p)"

text \<open>The edges, in declaration and key order, each pair of names once.\<close>

fun edges_of_values ::
  "string \<Rightarrow> input_value list \<Rightarrow> (string \<times> string) set \<times> edge list \<Rightarrow> (string \<times> string) set \<times> edge list" where
  "edges_of_values n [] acc = acc"
| "edges_of_values n (Literal l # vs) acc = edges_of_values n vs acc"
| "edges_of_values n (Ref r # vs) (seen, es) =
     edges_of_values n vs
       (if (ref_effect r, n) \<in> seen then (seen, es)
        else (insert (ref_effect r, n) seen, es @ [\<lparr>edge_from = ref_effect r, edge_to = n\<rparr>]))"

definition plan_edges :: "plan \<Rightarrow> edge list" where
  "plan_edges p =
     snd (fold (\<lambda>e. edges_of_values (e_name e) (bt_values (e_inputs e))) (effects p) ({}, []))"

section \<open>Dependency order\<close>

fun check_refs :: "plan \<Rightarrow> effect \<Rightarrow> input_value list \<Rightarrow> (plan_error, unit) res" where
  "check_refs p e [] = Ok ()"
| "check_refs p e (Literal l # vs) = check_refs p e vs"
| "check_refs p e (Ref r # vs) =
     (if get_effect p (ref_effect r) = None
      then Err (UnknownReference (e_name e) (ref_effect r))
      else check_refs p e vs)"

fun check_all_refs :: "plan \<Rightarrow> effect list \<Rightarrow> (plan_error, unit) res" where
  "check_all_refs p [] = Ok ()"
| "check_all_refs p (e # es) =
     bind_res (check_refs p e (bt_values (e_inputs e))) (\<lambda>_. check_all_refs p es)"

fun value_ready :: "string set \<Rightarrow> input_value \<Rightarrow> bool" where
  "value_ready dn (Ref r) \<longleftrightarrow> ref_effect r \<in> dn"
| "value_ready dn (Literal l) \<longleftrightarrow> True"

definition ready :: "string set \<Rightarrow> effect \<Rightarrow> bool" where
  "ready dn e \<longleftrightarrow> list_all (value_ready dn) (bt_values (e_inputs e))"

text \<open>One round of the loop: every effect not yet done that is ready is appended.\<close>

fun topo_round ::
  "effect list \<Rightarrow> string set \<Rightarrow> effect list \<Rightarrow> bool \<Rightarrow> string set \<times> effect list \<times> bool" where
  "topo_round [] dn order advanced = (dn, order, advanced)"
| "topo_round (e # es) dn order advanced =
     (if e_name e \<in> dn then topo_round es dn order advanced
      else if ready dn e
      then topo_round es (insert (e_name e) dn) (order @ [e]) True
      else topo_round es dn order advanced)"

lemma topo_round_length:
  "topo_round es d ord adv = (d', ord', adv') \<Longrightarrow>
     length ord \<le> length ord' \<and> (adv' \<longrightarrow> adv \<or> length ord < length ord')"
  by (induction es d ord adv rule: topo_round.induct) (auto split: if_splits)

definition stuck_name :: "plan \<Rightarrow> string set \<Rightarrow> string" where
  "stuck_name p dn =
     (case find (\<lambda>e. e_name e \<notin> dn) (effects p) of None \<Rightarrow> '''' | Some e \<Rightarrow> e_name e)"

function topo_loop :: "plan \<Rightarrow> string set \<Rightarrow> effect list \<Rightarrow> (plan_error, effect list) res" where
  "topo_loop p dn order =
     (if length order < length (effects p)
      then (case topo_round (effects p) dn order False of
              (dn', order', advanced) \<Rightarrow>
                if \<not> advanced then Err (Cycle (stuck_name p dn'))
                else topo_loop p dn' order')
      else Ok order)"
  by pat_completeness auto
termination
  by (relation "measure (\<lambda>(p, dn, order). length (effects p) - length order)")
    (auto dest!: topo_round_length [OF sym])

declare topo_loop.simps [simp del]

definition topo_order :: "plan \<Rightarrow> (plan_error, effect list) res" where
  "topo_order p = bind_res (check_all_refs p (effects p)) (\<lambda>_. topo_loop p {} [])"

section \<open>Identities\<close>

fun id_inputs ::
  "crates \<Rightarrow> (string, effect_id) btree \<Rightarrow> (string \<times> input_value) list
     \<Rightarrow> (string, id_input) btree \<Rightarrow> (plan_error, (string, id_input) btree) res" where
  "id_inputs c ids [] acc = Ok acc"
| "id_inputs c ids ((key, Literal lit) # kvs) acc =
     id_inputs c ids kvs (bt_insert key (Lit (content_hash c lit)) acc)"
| "id_inputs c ids ((key, Ref r) # kvs) acc =
     bind_res (expect_some (bt_get ids (ref_effect r)))
       (\<lambda>i. id_inputs c ids kvs (bt_insert key (RefIn (to_hex c i) (ref_field r)) acc))"

definition effect_digest :: "crates \<Rightarrow> (string, effect_id) btree \<Rightarrow> effect \<Rightarrow> (plan_error, effect_id) res" where
  "effect_digest c ids e =
     bind_res (id_inputs c ids (e_inputs e) [])
       (\<lambda>inputs. Ok (EffectId (sha256 c (id_document_json c
          \<lparr>doc_executor = e_executor e, doc_inputs = inputs, doc_kind = e_kind e\<rparr>))))"

fun ids_loop ::
  "crates \<Rightarrow> effect list \<Rightarrow> (string, effect_id) btree \<Rightarrow> (plan_error, (string, effect_id) btree) res" where
  "ids_loop c [] ids = Ok ids"
| "ids_loop c (e # es) ids =
     bind_res (effect_digest c ids e) (\<lambda>i. ids_loop c es (bt_insert (e_name e) i ids))"

definition effect_ids :: "crates \<Rightarrow> plan \<Rightarrow> (plan_error, (string, effect_id) btree) res" where
  "effect_ids c p = bind_res (topo_order p) (\<lambda>order. ids_loop c order [])"

fun signature_of :: "crates \<Rightarrow> (string, effect_id) btree \<Rightarrow> input_value \<Rightarrow> string" where
  "signature_of c ids (Literal lit) = ''lit:'' @ content_hash c lit"
| "signature_of c ids (Ref r) =
     ''ref:'' @ (case bt_get ids (ref_effect r) of None \<Rightarrow> '''' | Some i \<Rightarrow> to_hex c i)
       @ '':'' @ ref_field r"

definition input_signatures :: "crates \<Rightarrow> effect \<Rightarrow> (string, effect_id) btree \<Rightarrow> (string, string) btree" where
  "input_signatures c e ids =
     bt_collect (map (\<lambda>(key, v). (key, signature_of c ids v)) (e_inputs e))"

section \<open>Well-formed plans\<close>

text \<open>
  The invariant of a plan: names are unique, and every input map is an ordered map. Plans are
  built through \<open>add_effect\<close>, which keeps it.
\<close>

definition effect_refs :: "effect \<Rightarrow> string set" where
  "effect_refs e = {ref_effect r | r. Ref r \<in> set (bt_values (e_inputs e))}"

abbreviation names :: "plan \<Rightarrow> string set" where
  "names p \<equiv> e_name ` set (effects p)"

definition plan_wf :: "plan \<Rightarrow> bool" where
  "plan_wf p \<longleftrightarrow> distinct (map e_name (effects p)) \<and> (\<forall>e \<in> set (effects p). bt_wf (e_inputs e))"

definition refs_known :: "plan \<Rightarrow> bool" where
  "refs_known p \<longleftrightarrow> (\<forall>e \<in> set (effects p). effect_refs e \<subseteq> names p)"

definition dep_rel :: "plan \<Rightarrow> (string \<times> string) set" where
  "dep_rel p = {(d, n). \<exists>e \<in> set (effects p). e_name e = n \<and> d \<in> effect_refs e}"

lemma add_effect_eq:
  "add_effect p e = (if e_name e \<in> names p then Err (DuplicateName (e_name e))
     else Ok (p\<lparr>effects := effects p @ [e]\<rparr>))"
  unfolding add_effect_def list_ex_iff by (auto intro: rev_image_eqI)

lemma add_effect_wf:
  "plan_wf p \<Longrightarrow> bt_wf (e_inputs e) \<Longrightarrow> add_effect p e = Ok p' \<Longrightarrow>
     plan_wf p' \<and> effects p' = effects p @ [e]"
  by (auto simp: add_effect_eq plan_wf_def split: if_splits)

lemma add_all_effects: "add_all p es = Ok q \<Longrightarrow> effects q = effects p @ es"
  by (induction es arbitrary: p) (auto simp: add_effect_def res_simps split: if_splits)

lemma add_all_Ok_iff:
  "plan_wf p \<Longrightarrow> (\<forall>e \<in> set es. bt_wf (e_inputs e)) \<Longrightarrow>
     (\<exists>q. add_all p es = Ok q) \<longleftrightarrow> distinct (map e_name (effects p @ es))"
proof (induction es arbitrary: p)
  case Nil
  then show ?case by (simp add: plan_wf_def)
next
  case (Cons e es)
  show ?case
  proof (cases "add_effect p e")
    case (Ok p')
    with Cons.prems have wf: "plan_wf p'" and eff: "effects p' = effects p @ [e]"
      using add_effect_wf by auto
    show ?thesis
      using Cons.IH [OF wf] Cons.prems(2) by (simp add: Ok eff)
  qed (auto simp: add_effect_eq split: if_splits)
qed

lemma add_all_error:
  "add_all p es = Err x \<Longrightarrow> \<exists>e \<in> set es. x = DuplicateName (e_name e)"
  "add_all p es \<noteq> Panic"
  by (induction es arbitrary: p) (auto simp: add_effect_def res_simps split: if_splits)

section \<open>Correctness of the dependency order\<close>

lemma get_effect_None_iff: "get_effect p n = None \<longleftrightarrow> n \<notin> names p"
  by (auto simp: get_effect_def find_None_iff)

lemma check_refs_cases:
  "check_refs p e vs = Ok () \<and> (\<forall>r. Ref r \<in> set vs \<longrightarrow> ref_effect r \<in> names p) \<or>
   (\<exists>r. Ref r \<in> set vs \<and> ref_effect r \<notin> names p \<and>
      check_refs p e vs = Err (UnknownReference (e_name e) (ref_effect r)))"
  by (induction p e vs rule: check_refs.induct) (auto simp: get_effect_None_iff)

lemma check_refs_effect:
  "check_refs p e (bt_values (e_inputs e)) = Ok () \<and> effect_refs e \<subseteq> names p \<or>
   (\<exists>d \<in> effect_refs e. d \<notin> names p \<and>
      check_refs p e (bt_values (e_inputs e)) = Err (UnknownReference (e_name e) d))"
  using check_refs_cases [of p e "bt_values (e_inputs e)"]
  unfolding effect_refs_def by blast

lemma check_all_refs_cases:
  "check_all_refs p es = Ok () \<and> (\<forall>e \<in> set es. effect_refs e \<subseteq> names p) \<or>
   (\<exists>e d. e \<in> set es \<and> d \<in> effect_refs e \<and> d \<notin> names p \<and>
      check_all_refs p es = Err (UnknownReference (e_name e) d))"
proof (induction es)
  case (Cons e es)
  show ?case
    using check_refs_effect [of p e]
  proof
    assume ok: "check_refs p e (bt_values (e_inputs e)) = Ok () \<and> effect_refs e \<subseteq> names p"
    then have "check_all_refs p (e # es) = check_all_refs p es" by simp
    with Cons ok show ?thesis by (metis list.set_intros(2) set_ConsD)
  qed fastforce
qed simp

lemma ready_iff: "ready dn e \<longleftrightarrow> effect_refs e \<subseteq> dn"
proof -
  have "list_all (value_ready dn) vs \<longleftrightarrow> {ref_effect r | r. Ref r \<in> set vs} \<subseteq> dn" for vs
  proof (induction vs)
    case (Cons v vs)
    then show ?case by (cases v) auto
  qed simp
  then show ?thesis by (simp add: ready_def effect_refs_def)
qed

definition topo_inv :: "plan \<Rightarrow> string set \<Rightarrow> effect list \<Rightarrow> bool" where
  "topo_inv p dn order \<longleftrightarrow>
     dn = e_name ` set order \<and> set order \<subseteq> set (effects p) \<and> distinct (map e_name order) \<and>
     (\<forall>xs e ys. order = xs @ e # ys \<longrightarrow> effect_refs e \<subseteq> e_name ` set xs)"

lemma topo_inv_snoc:
  assumes "topo_inv p dn order" and "e \<in> set (effects p)" and "e_name e \<notin> dn" and "ready dn e"
  shows "topo_inv p (insert (e_name e) dn) (order @ [e])"
proof -
  have "effect_refs x \<subseteq> e_name ` set xs" if "order @ [e] = xs @ x # ys" for xs x ys
  proof (cases ys rule: rev_cases)
    case Nil
    with that assms show ?thesis by (auto simp: topo_inv_def ready_iff)
  next
    case (snoc zs z)
    with that have "order = xs @ x # zs" by simp
    with assms(1) show ?thesis by (auto simp: topo_inv_def)
  qed
  with assms show ?thesis by (auto simp: topo_inv_def)
qed

lemma topo_round_inv:
  assumes "topo_inv p dn order" and "set es \<subseteq> set (effects p)"
    and "topo_round es dn order adv = (dn', order', adv')"
  shows "topo_inv p dn' order'"
  using assms
proof (induction es dn order adv rule: topo_round.induct)
  case (2 e es dn order adv)
  then show ?case
    by (auto split: if_splits intro: topo_inv_snoc)
qed simp

lemma topo_round_stuck:
  "topo_round es dn order adv = (dn', order', False) \<Longrightarrow>
     dn' = dn \<and> order' = order \<and> \<not> adv \<and> (\<forall>e \<in> set es. e_name e \<in> dn \<or> \<not> ready dn e)"
proof (induction es dn order adv rule: topo_round.induct)
  case (2 e es dn order adv)
  then show ?case by (auto split: if_splits)
qed simp

definition stuck_state :: "plan \<Rightarrow> string set \<Rightarrow> effect list \<Rightarrow> bool" where
  "stuck_state p dn order \<longleftrightarrow> topo_inv p dn order \<and> length order < length (effects p) \<and>
     (\<forall>e \<in> set (effects p). e_name e \<in> dn \<or> \<not> ready dn e)"

text \<open>The loop ends with a full order or in a stuck state; it never panics.\<close>

lemma topo_loop_cases:
  assumes "topo_inv p dn order"
  shows "(\<exists>final. topo_loop p dn order = Ok final \<and> topo_inv p (e_name ` set final) final \<and>
            length (effects p) \<le> length final) \<or>
         (\<exists>dn' order'. topo_loop p dn order = Err (Cycle (stuck_name p dn')) \<and>
            stuck_state p dn' order')"
  using assms
proof (induction p dn order rule: topo_loop.induct)
  case (1 p dn order)
  show ?case
  proof (cases "length order < length (effects p)")
    case False
    then have "topo_loop p dn order = Ok order"
      by (simp add: topo_loop.simps [of p dn order])
    moreover have "dn = e_name ` set order"
      using 1(2) by (simp add: topo_inv_def)
    ultimately show ?thesis
      using False 1(2) by (metis not_less)
  next
    case True
    obtain dn' order' adv where r: "topo_round (effects p) dn order False = (dn', order', adv)"
      by (metis prod_cases3)
    note inv = topo_round_inv [OF 1(2) subset_refl r]
    show ?thesis
    proof (cases adv)
      case True': True
      with 1(1) [OF True r [symmetric] refl _ inv] True r show ?thesis
        by (simp add: topo_loop.simps [of p dn order])
    next
      case False
      with r have "topo_round (effects p) dn order False = (dn', order', False)" by simp
      from topo_round_stuck [OF this] 1(2) True have "stuck_state p dn' order'"
        by (auto simp: stuck_state_def)
      with False True r show ?thesis
        by (auto simp: topo_loop.simps [of p dn order])
    qed
  qed
qed

lemma topo_inv_empty [simp]: "topo_inv p {} []"
  by (simp add: topo_inv_def)

text \<open>What a successful order is.\<close>

definition is_topo_order :: "plan \<Rightarrow> effect list \<Rightarrow> bool" where
  "is_topo_order p order \<longleftrightarrow>
     mset order = mset (effects p) \<and> distinct (map e_name order) \<and>
     (\<forall>xs e ys. order = xs @ e # ys \<longrightarrow> effect_refs e \<subseteq> e_name ` set xs)"


lemma topo_inv_full:
  assumes inv: "topo_inv p dn order" and len: "length (effects p) \<le> length order"
  shows "is_topo_order p order"
proof -
  have d: "distinct order"
    using inv by (simp add: topo_inv_def distinct_map)
  have sub: "set order \<subseteq> set (effects p)"
    using inv by (simp add: topo_inv_def)
  have "length order = card (set order)"
    using d by (simp add: distinct_card)
  also have "\<dots> \<le> card (set (effects p))"
    using sub by (simp add: card_mono)
  finally have card: "length order \<le> card (set (effects p))" .
  then have "distinct (effects p)"
    using len by (metis card_distinct card_length dual_order.trans le_antisym)
  moreover have "set order = set (effects p)"
    using card sub d len card_length [of "effects p"]
    by (intro card_seteq) (simp_all add: distinct_card)
  ultimately have "mset order = mset (effects p)"
    using d by (simp add: set_eq_iff_mset_eq_distinct)
  with inv show ?thesis
    by (simp add: is_topo_order_def topo_inv_def)
qed

lemma topo_order_cases:
  "(\<exists>order. topo_order p = Ok order \<and> refs_known p \<and> is_topo_order p order) \<or>
   (\<exists>e d. e \<in> set (effects p) \<and> d \<in> effect_refs e \<and> d \<notin> names p \<and>
      topo_order p = Err (UnknownReference (e_name e) d)) \<or>
   (\<exists>dn order. topo_order p = Err (Cycle (stuck_name p dn)) \<and> refs_known p \<and> stuck_state p dn order)"
  using check_all_refs_cases [of p "effects p"]
proof
  assume ok: "check_all_refs p (effects p) = Ok () \<and> (\<forall>e \<in> set (effects p). effect_refs e \<subseteq> names p)"
  then have eq: "topo_order p = topo_loop p {} []" and known: "refs_known p"
    by (simp_all add: topo_order_def refs_known_def)
  from topo_loop_cases [OF topo_inv_empty, of p] show ?thesis
    unfolding eq using known topo_inv_full by blast
qed (force simp: topo_order_def)

lemma topo_order_Ok:
  "topo_order p = Ok order \<Longrightarrow> refs_known p \<and> is_topo_order p order"
  using topo_order_cases [of p] by auto

lemma topo_order_not_panic: "topo_order p \<noteq> Panic"
  using topo_order_cases [of p] by auto

lemma is_topo_order_set: "is_topo_order p order \<Longrightarrow> set order = set (effects p)"
  unfolding is_topo_order_def by (metis set_mset_mset)

lemma is_topo_order_distinct_names: "is_topo_order p order \<Longrightarrow> distinct (map e_name (effects p))"
  unfolding is_topo_order_def by (metis mset_eq_imp_distinct_iff mset_map)

text \<open>In a stuck state every pending effect waits for a pending effect.\<close>

lemma stuck_state_pending:
  assumes "stuck_state p dn order" and "refs_known p" and "n \<in> names p - dn"
  shows "\<exists>d \<in> names p - dn. (d, n) \<in> dep_rel p"
proof -
  from assms(3) obtain e where e: "e \<in> set (effects p)" "n = e_name e" "e_name e \<notin> dn"
    by auto
  with assms(1) obtain d where "d \<in> effect_refs e" "d \<notin> dn"
    by (auto simp: stuck_state_def ready_iff)
  moreover have "d \<in> names p"
    using e(1) assms(2) \<open>d \<in> effect_refs e\<close> unfolding refs_known_def by blast
  ultimately show ?thesis
    using e unfolding dep_rel_def by blast
qed

lemma stuck_state_nonempty:
  assumes "stuck_state p dn order" and "distinct (map e_name (effects p))"
  shows "names p - dn \<noteq> {}"
proof -
  have "card dn \<le> length order"
    using assms(1) by (simp add: stuck_state_def topo_inv_def) (metis card_image_le card_length
        List.finite_set dual_order.trans)
  also have "length order < length (effects p)"
    using assms(1) by (simp add: stuck_state_def)
  also have "length (effects p) = card (names p)"
    using assms(2) by (metis distinct_card length_map set_map)
  finally have "card dn < card (names p)" .
  moreover have "finite dn"
    using assms(1) by (simp add: stuck_state_def topo_inv_def)
  ultimately show ?thesis
    by (metis Diff_eq_empty_iff card_mono not_less)
qed

lemma stuck_name_pending:
  assumes "names p - dn \<noteq> {}"
  shows "stuck_name p dn \<in> names p - dn"
proof (cases "find (\<lambda>e. e_name e \<notin> dn) (effects p)")
  case None
  with assms show ?thesis by (auto simp: find_None_iff)
next
  case (Some e)
  then have "e \<in> set (effects p)" and "e_name e \<notin> dn"
    by (auto simp: find_Some_iff)
  with Some show ?thesis by (simp add: stuck_name_def)
qed

text \<open>A set of nodes each of which waits for another of the set has a cycle behind every node.\<close>

lemma waiting_set_has_cycle:
  assumes "finite S" and wait: "\<And>n. n \<in> S \<Longrightarrow> \<exists>d \<in> S. (d, n) \<in> R" and "s \<in> S"
  shows "\<exists>m. (m, s) \<in> R\<^sup>* \<and> (m, m) \<in> R\<^sup>+"
proof -
  let ?T = "{m \<in> S. (m, s) \<in> R\<^sup>*}"
  have "\<not> acyclic {(d, n). n \<in> ?T \<and> d \<in> ?T \<and> (d, n) \<in> R}"
  proof
    assume "acyclic {(d, n). n \<in> ?T \<and> d \<in> ?T \<and> (d, n) \<in> R}"
    moreover have "finite ?T" "?T \<noteq> {}" using assms(1,3) by auto
    ultimately obtain n where n: "n \<in> ?T" and none: "\<forall>d \<in> ?T. (d, n) \<notin> R"
      using finite_pending_ready [of ?T "\<lambda>d n. (d, n) \<in> R"] by auto
    from n wait obtain d where "d \<in> S" "(d, n) \<in> R" by blast
    with n none show False by (auto intro: converse_rtrancl_into_rtrancl)
  qed
  then obtain m where m: "(m, m) \<in> {(d, n). n \<in> ?T \<and> d \<in> ?T \<and> (d, n) \<in> R}\<^sup>+"
    by (auto simp: acyclic_def)
  then have "m \<in> ?T"
    by (auto elim: tranclE)
  moreover have "(m, m) \<in> R\<^sup>+"
    using m by (rule trancl_mono) auto
  ultimately show ?thesis by blast
qed

text \<open>The order as the clients see it: the names in order, none when the plan is rejected.\<close>

definition order_names :: "plan \<Rightarrow> string list" where
  "order_names p = (case topo_order p of Ok order \<Rightarrow> map e_name order | _ \<Rightarrow> [])"

definition deps_of :: "plan \<Rightarrow> string \<Rightarrow> string set" where
  "deps_of p n = {d. (d, n) \<in> dep_rel p}"

lemma deps_of_effect:
  assumes "is_topo_order p order" and "e \<in> set (effects p)"
  shows "deps_of p (e_name e) = effect_refs e"
  using assms is_topo_order_distinct_names [OF assms(1)]
  unfolding deps_of_def dep_rel_def by (auto dest: distinct_map [THEN iffD1, THEN conjunct2, THEN inj_onD])

interpretation efx: topo_listing order_names deps_of
proof unfold_locales
  show "distinct (order_names p)" for p
    using topo_order_Ok [of p]
    by (auto simp: order_names_def is_topo_order_def split: res.splits)
next
  fix p xs n ys
  assume eq: "order_names p = xs @ n # ys"
  then obtain order where order: "topo_order p = Ok order" and m: "map e_name order = xs @ n # ys"
    by (auto simp: order_names_def split: res.splits)
  from m obtain us e vs where split: "order = us @ e # vs" "xs = map e_name us" "n = e_name e"
    by (auto simp: map_eq_append_conv map_eq_Cons_conv)
  have topo: "is_topo_order p order"
    using topo_order_Ok [OF order] by simp
  then have "e \<in> set (effects p)"
    using is_topo_order_set split(1) by fastforce
  then have "deps_of p n = effect_refs e"
    using deps_of_effect [OF topo] split(3) by simp
  then show "deps_of p n \<subseteq> set xs"
    using topo split unfolding is_topo_order_def by simp
qed

lemma order_names_set: "topo_order p = Ok order \<Longrightarrow> set (order_names p) = names p"
  using topo_order_Ok is_topo_order_set by (fastforce simp: order_names_def)

lemma topo_order_Ok_acyclic:
  assumes "topo_order p = Ok order"
  shows "acyclic (dep_rel p)"
proof -
  have "dep_rel p = {(d, n). n \<in> set (order_names p) \<and> d \<in> deps_of p n}"
    using order_names_set [OF assms] by (auto simp: deps_of_def dep_rel_def)
  then show ?thesis
    using efx.listing_acyclic by metis
qed

lemma topo_order_complete:
  assumes "plan_wf p" and "refs_known p" and "acyclic (dep_rel p)"
  shows "\<exists>order. topo_order p = Ok order"
proof (rule ccontr)
  assume no: "\<nexists>order. topo_order p = Ok order"
  then obtain dn order where stuck: "stuck_state p dn order"
    using topo_order_cases [of p] assms(2) by (auto simp: refs_known_def)
  have ne: "names p - dn \<noteq> {}"
    using stuck assms(1) by (intro stuck_state_nonempty) (auto simp: plan_wf_def)
  then obtain s where "s \<in> names p - dn" by blast
  then obtain m where "(m, m) \<in> (dep_rel p)\<^sup>+"
    using waiting_set_has_cycle [of "names p - dn" "dep_rel p" s]
      stuck_state_pending [OF stuck assms(2)] by auto
  with assms(3) show False by (auto simp: acyclic_def)
qed

section \<open>Correctness of the identities\<close>

fun id_input_of :: "crates \<Rightarrow> (string, effect_id) btree \<Rightarrow> input_value \<Rightarrow> id_input" where
  "id_input_of c ids (Literal lit) = Lit (content_hash c lit)"
| "id_input_of c ids (Ref r) = RefIn (to_hex c (the (bt_get ids (ref_effect r)))) (ref_field r)"

lemma id_inputs_Ok:
  assumes "\<And>r. Ref r \<in> set (bt_values kvs) \<Longrightarrow> bt_get ids (ref_effect r) \<noteq> None"
  shows "id_inputs c ids kvs acc =
     Ok (fold (\<lambda>(k, v). bt_insert k v) (map (\<lambda>(k, v). (k, id_input_of c ids v)) kvs) acc)"
  using assms
proof (induction c ids kvs acc rule: id_inputs.induct)
  case (3 c ids key r kvs acc)
  then obtain i where "bt_get ids (ref_effect r) = Some i" by fastforce
  with 3 show ?case by simp
qed simp_all

lemma bt_collect_sorted: "bt_wf m \<Longrightarrow> bt_collect m = m"
  by (rule bt.entries_ext) (simp_all add: bt_get_collect_distinct bt.distinct_keys bt.entries_get)

text \<open>The document an effect is hashed from, given the identities of what it refers to.\<close>

definition effect_document :: "crates \<Rightarrow> (string, effect_id) btree \<Rightarrow> effect \<Rightarrow> id_document" where
  "effect_document c ids e =
     \<lparr>doc_executor = e_executor e,
      doc_inputs = map (\<lambda>(k, v). (k, id_input_of c ids v)) (e_inputs e),
      doc_kind = e_kind e\<rparr>"

definition document_id :: "crates \<Rightarrow> id_document \<Rightarrow> effect_id" where
  "document_id c d = EffectId (sha256 c (id_document_json c d))"

lemma effect_digest_Ok:
  assumes "bt_wf (e_inputs e)" and "\<And>d. d \<in> effect_refs e \<Longrightarrow> bt_get ids d \<noteq> None"
  shows "effect_digest c ids e = Ok (document_id c (effect_document c ids e))"
proof -
  have "id_inputs c ids (e_inputs e) [] = Ok (bt_collect (map (\<lambda>(k, v). (k, id_input_of c ids v)) (e_inputs e)))"
    unfolding bt_collect_def by (rule id_inputs_Ok) (use assms(2) in \<open>auto simp: effect_refs_def\<close>)
  then show ?thesis
    using assms(1) by (simp add: effect_digest_def document_id_def effect_document_def bt_collect_sorted)
qed

lemma effect_document_cong:
  assumes "\<And>d. d \<in> effect_refs e \<Longrightarrow> bt_get ids d = bt_get ids' d"
  shows "effect_document c ids e = effect_document c ids' e"
proof -
  have "id_input_of c ids v = id_input_of c ids' v" if "v \<in> set (bt_values (e_inputs e))" for v
  proof (cases v)
    case (Ref r)
    with that have "ref_effect r \<in> effect_refs e" by (auto simp: effect_refs_def)
    then show ?thesis using assms by (simp add: Ref)
  qed simp
  then have "map (\<lambda>(k, v). (k, id_input_of c ids v)) (e_inputs e)
      = map (\<lambda>(k, v). (k, id_input_of c ids' v)) (e_inputs e)"
    by (force intro!: map_cong)
  then show ?thesis by (simp add: effect_document_def)
qed

text \<open>
  The identities of a plan are a solution of the hashing equations: every effect's identity is
  the hash of its document over the same identities.
\<close>

definition ids_solve :: "crates \<Rightarrow> effect set \<Rightarrow> (string, effect_id) btree \<Rightarrow> bool" where
  "ids_solve c es ids \<longleftrightarrow> bt_wf ids \<and> (\<forall>n. bt_get ids n \<noteq> None \<longleftrightarrow> n \<in> e_name ` es) \<and>
     (\<forall>e \<in> es. bt_get ids (e_name e) = Some (document_id c (effect_document c ids e)))"

lemma ids_solve_insert:
  assumes "ids_solve c (set xs) ids" and "\<forall>x \<in> set xs. e_name x \<noteq> e_name e"
    and "\<forall>x \<in> set xs. e_name e \<notin> effect_refs x" and "e_name e \<notin> effect_refs e"
  shows "ids_solve c (set (xs @ [e]))
           (bt_insert (e_name e) (document_id c (effect_document c ids e)) ids)"
proof -
  let ?ids = "bt_insert (e_name e) (document_id c (effect_document c ids e)) ids"
  have "effect_document c ?ids x = effect_document c ids x" if "e_name e \<notin> effect_refs x" for x
    using that by (intro effect_document_cong) (auto simp: bt_get_insert)
  with assms show ?thesis
    by (auto simp: ids_solve_def bt_get_insert)
qed

lemma ids_loop_solve:
  assumes "ids_solve c (set xs) ids"
    and "distinct (map e_name (xs @ ys))" and "\<forall>e \<in> set ys. bt_wf (e_inputs e)"
    and before: "\<forall>us e vs. xs @ ys = us @ e # vs \<longrightarrow> effect_refs e \<subseteq> e_name ` set us"
  shows "\<exists>ids'. ids_loop c ys ids = Ok ids' \<and> ids_solve c (set (xs @ ys)) ids'"
  using assms
proof (induction ys arbitrary: xs ids)
  case (Cons e ys)
  have refs: "effect_refs e \<subseteq> e_name ` set xs"
    using Cons.prems(4) [rule_format, of xs e ys] by simp
  have earlier: "effect_refs x \<subseteq> e_name ` set xs" if "x \<in> set xs" for x
  proof -
    from that obtain us vs where "xs = us @ x # vs" by (auto simp: in_set_conv_decomp)
    then show ?thesis using Cons.prems(4) [rule_format, of us x "vs @ e # ys"] by auto
  qed
  have nin: "e_name e \<notin> e_name ` set xs"
    using Cons.prems(2) by simp
  then have fresh: "\<forall>x \<in> set xs. e_name x \<noteq> e_name e"
    by (metis image_eqI)
  from nin have "\<forall>x \<in> set xs. e_name e \<notin> effect_refs x"
    using earlier by blast
  moreover have "e_name e \<notin> effect_refs e"
    using refs nin by blast
  ultimately have step: "ids_solve c (set (xs @ [e]))
      (bt_insert (e_name e) (document_id c (effect_document c ids e)) ids)"
    using ids_solve_insert Cons.prems(1) fresh by blast
  have "effect_digest c ids e = Ok (document_id c (effect_document c ids e))"
    using Cons.prems(1,3) refs by (intro effect_digest_Ok) (auto simp: ids_solve_def)
  then show ?case
    using Cons.IH [OF step] Cons.prems(2-4) by simp
qed simp

lemma ids_solve_empty [simp]: "ids_solve c {} []"
  by (simp add: ids_solve_def)

lemma effect_ids_solve:
  assumes "plan_wf p" and "topo_order p = Ok order"
  shows "\<exists>ids. effect_ids c p = Ok ids \<and> ids_solve c (set (effects p)) ids"
proof -
  have topo: "is_topo_order p order" using topo_order_Ok [OF assms(2)] by simp
  have "\<exists>ids. ids_loop c order [] = Ok ids \<and> ids_solve c (set ([] @ order)) ids"
    using topo assms(1) is_topo_order_set [OF topo]
    by (intro ids_loop_solve) (auto simp: is_topo_order_def plan_wf_def)
  then show ?thesis
    using is_topo_order_set [OF topo] assms(2) by (simp add: effect_ids_def)
qed

lemma effect_ids_Ok:
  assumes "plan_wf p" and "effect_ids c p = Ok ids"
  shows "ids_solve c (set (effects p)) ids \<and> (\<exists>order. topo_order p = Ok order)"
proof -
  from assms(2) obtain order where "topo_order p = Ok order"
    by (auto simp: effect_ids_def res_simps)
  with effect_ids_solve [OF assms(1) this, of c] assms(2) show ?thesis by simp
qed

lemma ids_solve_unique:
  assumes "plan_wf p" and "topo_order p = Ok order"
    and "ids_solve c (set (effects p)) ids" and "ids_solve c (set (effects p)) ids'"
  shows "ids = ids'"
proof (rule bt.entries_ext)
  show "bt_wf ids" "bt_wf ids'" using assms(3,4) by (auto simp: ids_solve_def)
  fix n
  have topo: "is_topo_order p order" using topo_order_Ok [OF assms(2)] by simp
  show "bt_get ids n = bt_get ids' n"
  proof (cases "n \<in> names p")
    case False
    with assms(3,4) show ?thesis unfolding ids_solve_def by metis
  next
    case True
    then have "n \<in> set (order_names p)" using order_names_set [OF assms(2)] by simp
    then show ?thesis
    proof (induction rule: efx.listing_induct)
      case (node n)
      then obtain e where e: "e \<in> set (effects p)" "n = e_name e"
        using order_names_set [OF assms(2)] by auto
      have "effect_document c ids e = effect_document c ids' e"
        using node.IH deps_of_effect [OF topo e(1)] e(2) by (intro effect_document_cong) simp
      with e assms(3,4) show ?case by (simp add: ids_solve_def)
    qed
  qed
qed

section \<open>Equal identities, equal content\<close>

text \<open>
  No two documents in play have the same digest and the hex codec is injective: what the IR
  relies on when it uses the digest as the identity.
\<close>

definition collision_free :: "crates \<Rightarrow> id_document set \<Rightarrow> bool" where
  "collision_free c D \<longleftrightarrow> inj_on (document_id c) D \<and> inj (hex_encode c)"

definition plan_documents :: "crates \<Rightarrow> (string, effect_id) btree \<Rightarrow> plan \<Rightarrow> id_document set" where
  "plan_documents c ids p = effect_document c ids ` set (effects p)"

lemma to_hex_inj: "inj (hex_encode c) \<Longrightarrow> to_hex c i = to_hex c j \<Longrightarrow> i = j"
  by (auto simp: to_hex_def dest: injD intro: effect_id.expand)

lemma effect_document_ref:
  assumes "effect_document c ids e = effect_document c ids' e" and "inj (hex_encode c)"
    and "d \<in> effect_refs e"
  shows "the (bt_get ids d) = the (bt_get ids' d)"
proof -
  from assms(3) obtain k r where kr: "(k, Ref r) \<in> set (e_inputs e)" "d = ref_effect r"
    by (auto simp: effect_refs_def)
  from assms(1) have "map (\<lambda>(k, v). (k, id_input_of c ids v)) (e_inputs e)
      = map (\<lambda>(k, v). (k, id_input_of c ids' v)) (e_inputs e)"
    by (simp add: effect_document_def)
  then have "id_input_of c ids (Ref r) = id_input_of c ids' (Ref r)"
    using kr(1) by (auto simp: map_eq_conv)
  then show ?thesis
    using to_hex_inj [OF assms(2)] kr(2) by auto
qed

text \<open>Effects shared by two plans, as a dependency relation on names.\<close>

definition shared_dep :: "plan \<Rightarrow> plan \<Rightarrow> (string \<times> string) set" where
  "shared_dep p q =
     {(d, n). \<exists>e \<in> set (effects p) \<inter> set (effects q). e_name e = n \<and> d \<in> effect_refs e}"

lemma change_propagates:
  assumes "ids_solve c (set (effects p)) ids" and "ids_solve c (set (effects q)) ids'"
    and "refs_known p" and "refs_known q"
    and free: "collision_free c (plan_documents c ids p \<union> plan_documents c ids' q)"
    and "bt_get ids u \<noteq> bt_get ids' u" and "(u, n) \<in> (shared_dep p q)\<^sup>*"
  shows "bt_get ids n \<noteq> bt_get ids' n"
  using assms(7,6)
proof (induction rule: rtrancl_induct)
  case (step d n)
  then obtain e where e: "e \<in> set (effects p)" "e \<in> set (effects q)" "n = e_name e" "d \<in> effect_refs e"
    by (auto simp: shared_dep_def)
  have "bt_get ids d \<noteq> None" "bt_get ids' d \<noteq> None"
    using e assms(1-4) by (auto simp: ids_solve_def refs_known_def)
  with step have "the (bt_get ids d) \<noteq> the (bt_get ids' d)" by auto
  then have "effect_document c ids e \<noteq> effect_document c ids' e"
    using effect_document_ref [of c ids e ids' d] free e(4) by (auto simp: collision_free_def)
  then have "document_id c (effect_document c ids e) \<noteq> document_id c (effect_document c ids' e)"
    using free e by (auto simp: collision_free_def plan_documents_def dest: inj_onD)
  then show ?case
    using assms(1,2) e by (simp add: ids_solve_def)
qed

lemma hash_input_inj: "hash_input a = hash_input b \<Longrightarrow> a = b"
proof -
  have digits: "show_int (sint m) = show_int (sint n) \<Longrightarrow> m = n" for m n :: i64
    using show_int_inj signed_word_eqI by blast
  assume "hash_input a = hash_input b"
  then show ?thesis
    by (cases a; cases b) (auto simp: show_bool_def dest: digits split: if_splits)
qed

end
