(* ===== verification/Efx_IR_Properties.thy ===== *)
theory Efx_IR_Properties
  imports Efx_IR
begin

text \<open>
  The properties of the effect IR: plans have unique names, the dependency order is a
  topological order and exists exactly for closed acyclic plans, and the identities are
  determined by content.
\<close>

section \<open>Sample plans\<close>

definition sample_crates :: crates where
  "sample_crates =
     \<lparr>sha256 = (\<lambda>x. x), hex_encode = (\<lambda>x. x), hex_decode = Some,
      id_document_json = (\<lambda>d. doc_executor d @ ''|'' @ doc_kind d @ ''|'' @
        concat (map (\<lambda>(k, i). k @ (case i of Lit h \<Rightarrow> h | RefIn h f \<Rightarrow> h @ f)) (doc_inputs d)))\<rparr>"

definition sample_effect :: "string \<Rightarrow> (string, input_value) btree \<Rightarrow> effect" where
  "sample_effect n ins =
     \<lparr>e_name = n, e_kind = ''k'', e_executor = ''x'', e_inputs = ins, e_meta = default_meta\<rparr>"

definition source_a :: effect where
  "source_a = sample_effect ''a'' [(''v'', Literal (LStr ''1''))]"

definition source_a' :: effect where
  "source_a' = sample_effect ''a'' [(''v'', Literal (LStr ''2''))]"

definition sink_b :: effect where
  "sink_b = sample_effect ''b'' [(''i'', Ref \<lparr>ref_effect = ''a'', ref_field = ''o''\<rparr>)]"

definition loop_c :: effect where
  "loop_c = sample_effect ''c'' [(''i'', Ref \<lparr>ref_effect = ''c'', ref_field = ''o''\<rparr>)]"

lemmas sample_defs = sample_crates_def sample_effect_def source_a_def source_a'_def sink_b_def
  loop_c_def

lemma sample_wf:
  "plan_wf \<lparr>effects = [sink_b, source_a]\<rparr>" "plan_wf \<lparr>effects = [source_a, sink_b]\<rparr>"
  "plan_wf \<lparr>effects = [sink_b, source_a']\<rparr>" "plan_wf \<lparr>effects = [loop_c]\<rparr>"
  by (simp_all add: sample_defs plan_wf_def bt_wf_def)

lemma sample_order: "topo_order \<lparr>effects = [sink_b, source_a]\<rparr> = Ok [source_a, sink_b]"
  by code_simp

lemma sample_cycle: "topo_order \<lparr>effects = [loop_c]\<rparr> = Err (Cycle ''c'')"
  by code_simp

section \<open>Properties\<close>

text \<open>
  C40: a plan built by \<open>from_effects\<close> holds exactly the given effects in declaration order and is
  well-formed (unique names); the constructor succeeds exactly when the names are distinct, and
  otherwise names a duplicated effect.
\<close>

theorem from_effects_correct:
  assumes "\<forall>e \<in> set es. bt_wf (e_inputs e)"
  shows "(case from_effects es of
            Ok p \<Rightarrow> effects p = es \<and> plan_wf p
          | Err x \<Rightarrow> \<not> distinct (map e_name es) \<and> (\<exists>e \<in> set es. x = DuplicateName (e_name e))
          | Panic \<Rightarrow> False)"
proof -
  have iff: "(\<exists>q. from_effects es = Ok q) \<longleftrightarrow> distinct (map e_name es)"
    using add_all_Ok_iff [of new_plan es] assms
    by (simp add: from_effects_def new_plan_def plan_wf_def)
  show ?thesis
    using iff assms add_all_effects [of new_plan es] add_all_error [of new_plan es]
    by (auto simp: from_effects_def new_plan_def plan_wf_def split: res.splits)
qed

theorem from_effects_correct_witness:
  "(case from_effects [source_a, sink_b] of
            Ok p \<Rightarrow> effects p = [source_a, sink_b] \<and> plan_wf p
          | Err x \<Rightarrow> \<not> distinct (map e_name [source_a, sink_b]) \<and>
              (\<exists>e \<in> set [source_a, sink_b]. x = DuplicateName (e_name e))
          | Panic \<Rightarrow> False)"
  by (rule from_effects_correct) (simp add: sample_defs bt_wf_def)

text \<open>
  C22: when \<open>topo_order\<close> succeeds, its result is a permutation of the plan's effects in which every
  effect comes after all the effects its inputs refer to.
\<close>

theorem topo_order_sound:
  assumes "topo_order p = Ok order"
  shows "mset order = mset (effects p) \<and>
     (\<forall>xs e ys. order = xs @ e # ys \<longrightarrow> effect_refs e \<subseteq> e_name ` set xs)"
  using topo_order_Ok [OF assms] by (simp add: is_topo_order_def)

theorem topo_order_sound_witness:
  "mset [source_a, sink_b] = mset (effects \<lparr>effects = [sink_b, source_a]\<rparr>) \<and>
   effect_refs sink_b \<subseteq> e_name ` set [source_a]"
  using topo_order_sound [OF sample_order] by (metis append_Cons append_Nil)

text \<open>
  C4: for a well-formed plan the three results of \<open>topo_order\<close> are exact. It succeeds if and only if
  every reference is to an effect of the plan and the dependency graph is acyclic; it reports an
  unknown reference if and only if some reference is to no effect of the plan; it never panics.
\<close>

theorem topo_order_complete_iff:
  assumes "plan_wf p"
  shows "((\<exists>order. topo_order p = Ok order) \<longleftrightarrow> refs_known p \<and> acyclic (dep_rel p)) \<and>
         ((\<exists>f t. topo_order p = Err (UnknownReference f t)) \<longleftrightarrow> \<not> refs_known p) \<and>
         topo_order p \<noteq> Panic"
  using topo_order_complete [OF assms] topo_order_Ok topo_order_Ok_acyclic topo_order_not_panic
    topo_order_cases [of p]
  by (auto simp: refs_known_def)

theorem topo_order_complete_iff_witness:
  "refs_known \<lparr>effects = [sink_b, source_a]\<rparr> \<and> acyclic (dep_rel \<lparr>effects = [sink_b, source_a]\<rparr>) \<and>
   refs_known \<lparr>effects = [loop_c]\<rparr> \<and> \<not> acyclic (dep_rel \<lparr>effects = [loop_c]\<rparr>)"
  using topo_order_complete_iff [OF sample_wf(1)] topo_order_complete_iff [OF sample_wf(4)]
    sample_order sample_cycle by auto

text \<open>
  C23: a reported cycle is real. When \<open>topo_order\<close> of a well-formed plan fails with a cycle at an
  effect, that effect is of the plan and some effect it transitively depends on (itself included)
  depends on itself.
\<close>

theorem topo_order_cycle_real:
  assumes "plan_wf p" and "topo_order p = Err (Cycle n)"
  shows "n \<in> names p \<and> (\<exists>m. (m, n) \<in> (dep_rel p)\<^sup>* \<and> (m, m) \<in> (dep_rel p)\<^sup>+)"
proof -
  obtain dn order where n: "n = stuck_name p dn" and known: "refs_known p"
    and stuck: "stuck_state p dn order"
    using topo_order_cases [of p] assms(2) by auto
  have "n \<in> names p - dn"
    unfolding n using stuck assms(1)
    by (intro stuck_name_pending stuck_state_nonempty) (auto simp: plan_wf_def)
  then show ?thesis
    using waiting_set_has_cycle [of "names p - dn" "dep_rel p" n]
      stuck_state_pending [OF stuck known] by auto
qed

theorem topo_order_cycle_real_witness:
  "''c'' \<in> names \<lparr>effects = [loop_c]\<rparr> \<and>
     (\<exists>m. (m, ''c'') \<in> (dep_rel \<lparr>effects = [loop_c]\<rparr>)\<^sup>* \<and> (m, m) \<in> (dep_rel \<lparr>effects = [loop_c]\<rparr>)\<^sup>+)"
  by (rule topo_order_cycle_real [OF sample_wf(4) sample_cycle])



text \<open>
  C19: identities do not depend on the order of declaration. Two well-formed plans with the same
  effects have the same identities (and are accepted alike).
\<close>

theorem effect_ids_order_independent:
  assumes "plan_wf p" and "plan_wf q" and "set (effects p) = set (effects q)"
  shows "effect_ids c p = Ok ids \<longleftrightarrow> effect_ids c q = Ok ids"
proof -
  have "refs_known p = refs_known q" "dep_rel p = dep_rel q"
    using assms(3) by (simp_all add: refs_known_def dep_rel_def)
  then have accept: "(\<exists>order. topo_order p = Ok order) \<longleftrightarrow> (\<exists>order. topo_order q = Ok order)"
    using topo_order_complete [OF assms(1)] topo_order_complete [OF assms(2)]
      topo_order_Ok topo_order_Ok_acyclic by metis
  have "effect_ids c q' = Ok ids"
    if wf: "plan_wf p'" "plan_wf q'" and set: "set (effects p') = set (effects q')"
      and ids: "effect_ids c p' = Ok ids" and q: "\<exists>order. topo_order q' = Ok order" for p' q'
    using effect_ids_Ok [OF wf(1) ids] effect_ids_solve [OF wf(2), of _ c] q set
      ids_solve_unique [OF wf(2), of _ c ids] by metis
  then show ?thesis
    using assms accept effect_ids_Ok [OF assms(1)] effect_ids_Ok [OF assms(2)] by metis
qed

theorem effect_ids_order_independent_witness:
  "\<exists>ids. effect_ids sample_crates \<lparr>effects = [sink_b, source_a]\<rparr> = Ok ids \<and>
     effect_ids sample_crates \<lparr>effects = [source_a, sink_b]\<rparr> = Ok ids"
proof -
  obtain ids where "effect_ids sample_crates \<lparr>effects = [sink_b, source_a]\<rparr> = Ok ids"
    using effect_ids_solve [OF sample_wf(1) sample_order] by blast
  moreover from this have "effect_ids sample_crates \<lparr>effects = [source_a, sink_b]\<rparr> = Ok ids"
    using effect_ids_order_independent [OF sample_wf(1,2)] by (simp add: insert_commute)
  ultimately show ?thesis by blast
qed

text \<open>
  C17: an upstream change re-identifies every dependent. If an effect's identity differs between two
  plans, so does the identity of every effect that depends on it through effects the two plans share,
  provided the digest has no collision among the documents of the two plans and hex rendering is
  injective.
\<close>

theorem effect_ids_change_propagates:
  assumes "plan_wf p" and "plan_wf q"
    and "effect_ids c p = Ok ids" and "effect_ids c q = Ok ids'"
    and "collision_free c (plan_documents c ids p \<union> plan_documents c ids' q)"
    and "bt_get ids u \<noteq> bt_get ids' u" and "(u, n) \<in> (shared_dep p q)\<^sup>*"
  shows "bt_get ids n \<noteq> bt_get ids' n"
  using effect_ids_Ok [OF assms(1,3)] effect_ids_Ok [OF assms(2,4)] assms(5-7)
  by (metis change_propagates topo_order_Ok)

definition sample_ids :: "string \<Rightarrow> (string, effect_id) btree" where
  "sample_ids v = [(''a'', EffectId (''x|k|vstr:'' @ v)), (''b'', EffectId (''x|k|ix|k|vstr:'' @ v @ ''o''))]"

lemma sample_ids_Ok:
  "effect_ids sample_crates \<lparr>effects = [sink_b, source_a]\<rparr> = Ok (sample_ids ''1'')"
  "effect_ids sample_crates \<lparr>effects = [sink_b, source_a']\<rparr> = Ok (sample_ids ''2'')"
  by code_simp+

lemma sample_collision_free:
  "collision_free sample_crates
     (plan_documents sample_crates (sample_ids ''1'') \<lparr>effects = [sink_b, source_a]\<rparr> \<union>
      plan_documents sample_crates (sample_ids ''2'') \<lparr>effects = [sink_b, source_a']\<rparr>)"
  by (simp add: collision_free_def plan_documents_def effect_document_def document_id_def
      sample_defs sample_ids_def content_hash_def to_hex_def)

theorem effect_ids_change_propagates_witness:
  "bt_get (sample_ids ''1'') ''b'' \<noteq> bt_get (sample_ids ''2'') ''b''"
proof (rule effect_ids_change_propagates [OF sample_wf(1,3) sample_ids_Ok sample_collision_free])
  show "bt_get (sample_ids ''1'') ''a'' \<noteq> bt_get (sample_ids ''2'') ''a''"
    by (simp add: sample_ids_def)
  show "(''a'', ''b'') \<in> (shared_dep \<lparr>effects = [sink_b, source_a]\<rparr> \<lparr>effects = [sink_b, source_a']\<rparr>)\<^sup>*"
    by (rule r_into_rtrancl) (auto simp: shared_dep_def sample_defs effect_refs_def)
qed

text \<open>
  Literals are hashed with a tag of their type, so that different literals, also of different
  types (the string 1 and the number 1), are hashed from different bytes; where the digest does not
  collide on those bytes the content hashes differ.
\<close>

theorem content_hash_distinguishes:
  assumes "inj_on (sha256 c) {hash_input a, hash_input b}" and "inj (hex_encode c)"
  shows "content_hash c a = content_hash c b \<longleftrightarrow> a = b"
  using assms hash_input_inj [of a b]
  by (auto simp: content_hash_def dest!: injD [OF assms(2)] inj_onD [OF assms(1)])

theorem content_hash_distinguishes_witness:
  "content_hash sample_crates (LStr ''1'') = content_hash sample_crates (LInt 1) \<longleftrightarrow>
     LStr ''1'' = LInt 1"
  by (rule content_hash_distinguishes) (auto simp: sample_defs)

end
