(* ===== verification/Efx_Engine.thy ===== *)
theory Efx_Engine
  imports Efx_IR
begin

text \<open>
  The effect engine, \<^verbatim>\<open>packages/efx/engine/src\<close>: the journal (cache and run history, saved
  through a temporary file), the diff of a plan against the journal, and the level-parallel
  execution of what is missing. Executors are trait objects supplied by the caller: an
  executor is a function from requests to executions, \<open>None\<close> being a panicking thread. The
  clock is the argument \<open>now\<close>: the reading for the record of each effect and, under the
  empty name, for the record of the run.
\<close>

section \<open>Data of the engine\<close>

type_synonym outputs = "(string, literal) btree"

datatype engine_error =
    PlanErr plan_error
  | JournalRead string
  | JournalWrite string
  | JournalFormat string
  | UnknownExecutor string string

datatype execute_error = ExecuteError (message: string)

record execute_request =
  rq_name :: string
  rq_kind :: string
  rq_inputs :: "(string, literal) btree"

record execution =
  ex_result :: "execute_error + outputs"
  ex_duration_ms :: nat

type_synonym executor = "execute_request \<Rightarrow> execution option"

record registry =
  executors :: "(string, executor) btree"

definition register :: "registry \<Rightarrow> string \<Rightarrow> executor \<Rightarrow> registry" where
  "register reg i x = reg\<lparr>executors := bt_insert i x (executors reg)\<rparr>"

definition get_executor :: "registry \<Rightarrow> string \<Rightarrow> executor option" where
  "get_executor reg i = bt_get (executors reg) i"

section \<open>Journal\<close>

datatype status = Succeeded | StatusFailed

record journal_entry =
  je_name :: string
  je_kind :: string
  je_outputs :: outputs
  je_status :: status
  je_recorded_at :: u64

datatype action = Executed | Cached | Failed | Skipped

record run_effect =
  re_name :: string
  re_kind :: string
  re_id :: effect_id
  re_action :: action
  re_reason :: "string option"
  re_duration_ms :: nat
  re_input_signatures :: "(string, string) btree"

record run_record =
  rr_recorded_at :: u64
  rr_effects :: "run_effect list"
  rr_edges :: "edge list"

record journal_state =
  entries :: "(string, journal_entry) btree"
  runs :: "run_record list"

text \<open>A path as the standard library sees it: the parent and the final component, if it has one.\<close>

record path =
  p_parent :: string
  p_file :: "string option"

record journal =
  j_path :: path
  j_state :: journal_state

definition empty_state :: journal_state where
  "empty_state = \<lparr>entries = [], runs = []\<rparr>"

definition display_path :: "path \<Rightarrow> string" where
  "display_path p = p_parent p @ ''/'' @ (case p_file p of None \<Rightarrow> '''' | Some f \<Rightarrow> f)"

text \<open>
  The disk: the contents of files, and the paths on which reading or writing fails for another
  reason than a missing file. The JSON codec of the journal is another crate.
\<close>

record disk =
  files :: "path \<Rightarrow> string option"
  unreadable :: "path set"
  unwritable :: "path set"

record codec =
  state_to_json :: "journal_state \<Rightarrow> string"
  state_of_json :: "string \<Rightarrow> journal_state option"

definition load :: "codec \<Rightarrow> disk \<Rightarrow> path \<Rightarrow> (engine_error, journal) res" where
  "load k d p =
     (if p \<in> unreadable d then Err (JournalRead (display_path p))
      else case files d p of
        None \<Rightarrow> Ok \<lparr>j_path = p, j_state = empty_state\<rparr>
      | Some bytes \<Rightarrow>
          (case state_of_json k bytes of
             None \<Rightarrow> Err (JournalFormat (display_path p))
           | Some st \<Rightarrow> Ok \<lparr>j_path = p, j_state = st\<rparr>))"

text \<open>\<^verbatim>\<open>Path::with_extension\<close>: the stem ends before the last dot that is not the first character.\<close>

definition file_stem :: "string \<Rightarrow> string" where
  "file_stem f =
     (let before = rev (tl (dropWhile (\<lambda>ch. ch \<noteq> CHR ''.'') (rev f)))
      in if f = ''..'' \<or> CHR ''.'' \<notin> set f \<or> before = '''' then f else before)"

definition with_extension :: "path \<Rightarrow> string \<Rightarrow> path" where
  "with_extension p ext =
     (case p_file p of None \<Rightarrow> p | Some f \<Rightarrow> p\<lparr>p_file := Some (file_stem f @ ''.'' @ ext)\<rparr>)"

definition fs_write :: "disk \<Rightarrow> path \<Rightarrow> string \<Rightarrow> disk \<times> bool" where
  "fs_write d p bytes =
     (if p \<in> unwritable d then (d, False) else (d\<lparr>files := (files d)(p := Some bytes)\<rparr>, True))"

definition fs_rename :: "disk \<Rightarrow> path \<Rightarrow> path \<Rightarrow> disk \<times> bool" where
  "fs_rename d p q =
     (case files d p of
        None \<Rightarrow> (d, False)
      | Some bytes \<Rightarrow>
          if q \<in> unwritable d then (d, False)
          else (d\<lparr>files := ((files d)(p := None))(q := Some bytes)\<rparr>, True))"

definition save :: "codec \<Rightarrow> disk \<Rightarrow> journal \<Rightarrow> disk \<times> (engine_error, unit) res" where
  "save k d j =
     (let json = state_to_json k (j_state j);
          tmp = with_extension (j_path j) ''json.tmp''
      in case fs_write d tmp json of
           (d1, False) \<Rightarrow> (d1, Err (JournalWrite (display_path (j_path j))))
         | (d1, True) \<Rightarrow>
             (case fs_rename d1 tmp (j_path j) of
                (d2, False) \<Rightarrow> (d2, Err (JournalWrite (display_path (j_path j))))
              | (d2, True) \<Rightarrow> (d2, Ok ())))"

definition entry :: "crates \<Rightarrow> journal \<Rightarrow> effect_id \<Rightarrow> journal_entry option" where
  "entry c j i = bt_get (entries (j_state j)) (to_hex c i)"

definition is_cached :: "crates \<Rightarrow> journal \<Rightarrow> effect_id \<Rightarrow> bool" where
  "is_cached c j i = (case entry c j i of None \<Rightarrow> False | Some en \<Rightarrow> je_status en = Succeeded)"

section \<open>Diff of a plan against the journal\<close>

datatype verdict = VCached | VExecute

record decision =
  d_name :: string
  d_kind :: string
  d_id :: effect_id
  d_verdict :: verdict
  d_reason :: string
  d_input_signatures :: "(string, string) btree"

record orphan =
  o_id :: string
  o_name :: string
  o_kind :: string
  o_recorded_at :: u64

record plan_report =
  decisions :: "decision list"
  orphans :: "orphan list"

fun join :: "string \<Rightarrow> string list \<Rightarrow> string" where
  "join sep [] = ''''"
| "join sep [x] = x"
| "join sep (x # y # xs) = x @ sep @ join sep (y # xs)"

definition change_cause :: "effect \<Rightarrow> string \<Rightarrow> string" where
  "change_cause e key =
     (case bt_get (e_inputs e) key of
        Some (Ref r) \<Rightarrow> ''upstream `'' @ ref_effect r @ ''` changed''
      | _ \<Rightarrow> ''input `'' @ key @ ''` changed'')"

fun changed_causes ::
  "effect \<Rightarrow> (string, string) btree \<Rightarrow> (string \<times> string) list \<Rightarrow> string list \<Rightarrow> string list" where
  "changed_causes e old [] causes = causes"
| "changed_causes e old ((key, sig) # sigs) causes =
     changed_causes e old sigs
       (case bt_get old key of
          None \<Rightarrow> causes @ [''input `'' @ key @ ''` added'']
        | Some s \<Rightarrow>
            if s \<noteq> sig
            then (let cause = change_cause e key in if cause \<in> set causes then causes else causes @ [cause])
            else causes)"

definition removed_causes :: "(string, string) btree \<Rightarrow> (string, string) btree \<Rightarrow> string list" where
  "removed_causes sigs old =
     map (\<lambda>key. ''input `'' @ key @ ''` removed'')
       (filter (\<lambda>key. bt_get sigs key = None) (map fst old))"

definition explain ::
  "effect \<Rightarrow> effect_id \<Rightarrow> (string, string) btree \<Rightarrow> run_effect option \<Rightarrow> string" where
  "explain e i sigs previous =
     (case previous of
        None \<Rightarrow> ''new effect''
      | Some prev \<Rightarrow>
          (let causes = changed_causes e (re_input_signatures prev) sigs []
                 @ removed_causes sigs (re_input_signatures prev)
           in if causes = []
              then (if re_id prev = i then ''previous run did not succeed'' else ''effect definition changed'')
              else join '', '' causes))"

definition previous_run :: "journal \<Rightarrow> (string, run_effect) btree" where
  "previous_run j =
     (case rev (runs (j_state j)) of
        [] \<Rightarrow> []
      | run # _ \<Rightarrow> bt_collect (map (\<lambda>re. (re_name re, re)) (rr_effects run)))"

definition decide ::
  "crates \<Rightarrow> journal \<Rightarrow> (string, effect_id) btree \<Rightarrow> (string, run_effect) btree \<Rightarrow> effect
     \<Rightarrow> (engine_error, decision) res" where
  "decide c j ids previous e =
     bind_res (expect_some (bt_get ids (e_name e))) (\<lambda>i.
       let sigs = input_signatures c e ids;
           (v, reason) =
             (if is_cached c j i then (VCached, ''unchanged'')
              else (VExecute, explain e i sigs (bt_get previous (e_name e))))
       in Ok \<lparr>d_name = e_name e, d_kind = e_kind e, d_id = i, d_verdict = v, d_reason = reason,
              d_input_signatures = sigs\<rparr>)"

definition orphans_of :: "crates \<Rightarrow> journal \<Rightarrow> decision list \<Rightarrow> orphan list" where
  "orphans_of c j ds =
     (let current = map (\<lambda>d. to_hex c (d_id d)) ds
      in map (\<lambda>(i, en). \<lparr>o_id = i, o_name = je_name en, o_kind = je_kind en, o_recorded_at = je_recorded_at en\<rparr>)
           (filter (\<lambda>(i, en). i \<notin> set current) (entries (j_state j))))"

definition diff_plan :: "crates \<Rightarrow> plan \<Rightarrow> journal \<Rightarrow> (engine_error, plan_report) res" where
  "diff_plan c p j =
     bind_res (map_err PlanErr (effect_ids c p)) (\<lambda>ids.
     bind_res (map_err PlanErr (topo_order p)) (\<lambda>order.
     bind_res (map_res (decide c j ids (previous_run j)) order) (\<lambda>ds.
       Ok \<lparr>decisions = ds, orphans = orphans_of c j ds\<rparr>)))"

section \<open>Execution\<close>

record run_report =
  rep_effects :: "run_effect list"
  rep_orphans :: "orphan list"

definition count_action :: "run_report \<Rightarrow> action \<Rightarrow> nat" where
  "count_action rep a = length (filter (\<lambda>re. re_action re = a) (rep_effects rep))"

definition report_succeeded :: "run_report \<Rightarrow> bool" where
  "report_succeeded rep \<longleftrightarrow> list_all (\<lambda>re. re_action re = Executed \<or> re_action re = Cached) (rep_effects rep)"

record job =
  job_effect :: effect
  job_executor :: executor
  job_request :: execute_request

record job_outcome =
  oc_effect :: effect
  oc_execution :: execution

record run_state =
  outs :: "(string, outputs) btree"
  halted :: "string set"
  results :: "(string, run_effect) btree"

text \<open>Longest-path depth of each effect, and the effects grouped by it.\<close>

definition level_of :: "(string, nat) btree \<Rightarrow> effect \<Rightarrow> nat" where
  "level_of depth e =
     (case List.map_filter (\<lambda>v. case v of Ref r \<Rightarrow> map_option Suc (bt_get depth (ref_effect r))
                                        | Literal l \<Rightarrow> None) (bt_values (e_inputs e)) of
        [] \<Rightarrow> 0
      | d # ds \<Rightarrow> fold max ds d)"

definition push_group :: "'a list list \<Rightarrow> nat \<Rightarrow> 'a \<Rightarrow> 'a list list" where
  "push_group groups l x =
     (let groups' = (if length groups \<le> l then groups @ replicate (l + 1 - length groups) [] else groups)
      in groups'[l := groups' ! l @ [x]])"

fun levels_loop :: "effect list \<Rightarrow> (string, nat) btree \<Rightarrow> effect list list \<Rightarrow> effect list list" where
  "levels_loop [] depth groups = groups"
| "levels_loop (e # es) depth groups =
     (let l = level_of depth e
      in levels_loop es (bt_insert (e_name e) l depth) (push_group groups l e))"

definition levels :: "effect list \<Rightarrow> effect list list" where
  "levels order = levels_loop order [] []"

fun first_halted :: "input_value list \<Rightarrow> string set \<Rightarrow> string option" where
  "first_halted [] h = None"
| "first_halted (Ref r # vs) h = (if ref_effect r \<in> h then Some (ref_effect r) else first_halted vs h)"
| "first_halted (Literal l # vs) h = first_halted vs h"

definition first_halted_dependency :: "effect \<Rightarrow> string set \<Rightarrow> string option" where
  "first_halted_dependency e h = first_halted (bt_values (e_inputs e)) h"

fun resolve_value :: "(string, outputs) btree \<Rightarrow> string \<times> input_value \<Rightarrow> (string, string \<times> literal) res" where
  "resolve_value os (key, Literal lit) = Ok (key, lit)"
| "resolve_value os (key, Ref r) =
     (case Option.bind (bt_get os (ref_effect r)) (\<lambda>fields. bt_get fields (ref_field r)) of
        Some lit \<Rightarrow> Ok (key, lit)
      | None \<Rightarrow> Err (''effect `'' @ ref_effect r @ ''` has no output field `'' @ ref_field r @ ''`''))"

definition resolve_inputs :: "effect \<Rightarrow> (string, outputs) btree \<Rightarrow> (string, (string, literal) btree) res" where
  "resolve_inputs e os = bind_res (map_res (resolve_value os) (e_inputs e)) (\<lambda>kvs. Ok (bt_collect kvs))"

definition initial_record :: "effect \<Rightarrow> decision \<Rightarrow> run_effect" where
  "initial_record e d =
     \<lparr>re_name = e_name e, re_kind = e_kind e, re_id = d_id d, re_action = Skipped, re_reason = None,
      re_duration_ms = 0, re_input_signatures = d_input_signatures d\<rparr>"

text \<open>One effect of a level: settled at once, or a job to run.\<close>

definition stage_effect ::
  "crates \<Rightarrow> (string, decision) btree \<Rightarrow> journal \<Rightarrow> registry \<Rightarrow> effect \<Rightarrow> run_state
     \<Rightarrow> (engine_error, job option \<times> run_state) res" where
  "stage_effect c ds j reg e st =
     bind_res (expect_some (bt_get ds (e_name e))) (\<lambda>d.
       let rcd = initial_record e d in
       case first_halted_dependency e (halted st) of
         Some blocker \<Rightarrow>
           Ok (None, st\<lparr>halted := insert (e_name e) (halted st),
             results := bt_insert (e_name e)
               (rcd\<lparr>re_reason := Some (''dependency `'' @ blocker @ ''` did not succeed'')\<rparr>) (results st)\<rparr>)
       | None \<Rightarrow>
           if d_verdict d = VCached
           then bind_res (expect_some (entry c j (d_id d))) (\<lambda>en.
             Ok (None, st\<lparr>outs := bt_insert (e_name e) (je_outputs en) (outs st),
               results := bt_insert (e_name e) (rcd\<lparr>re_action := Cached\<rparr>) (results st)\<rparr>))
           else
             (case resolve_inputs e (outs st) of
                Ok ins \<Rightarrow>
                  bind_res (expect_some (get_executor reg (e_executor e))) (\<lambda>x.
                    Ok (Some \<lparr>job_effect = e, job_executor = x,
                          job_request = \<lparr>rq_name = e_name e, rq_kind = e_kind e, rq_inputs = ins\<rparr>\<rparr>,
                        st\<lparr>results := bt_insert (e_name e) (rcd\<lparr>re_reason := Some (d_reason d)\<rparr>) (results st)\<rparr>))
              | Err msg \<Rightarrow>
                  Ok (None, st\<lparr>halted := insert (e_name e) (halted st),
                    results := bt_insert (e_name e) (rcd\<lparr>re_action := Failed, re_reason := Some msg\<rparr>) (results st)\<rparr>)
              | Panic \<Rightarrow> Panic))"

fun stage_level ::
  "crates \<Rightarrow> (string, decision) btree \<Rightarrow> journal \<Rightarrow> registry \<Rightarrow> effect list \<Rightarrow> run_state
     \<Rightarrow> (engine_error, job list \<times> run_state) res" where
  "stage_level c ds j reg [] st = Ok ([], st)"
| "stage_level c ds j reg (e # es) st =
     bind_res (stage_effect c ds j reg e st) (\<lambda>(jo, st1).
     bind_res (stage_level c ds j reg es st1) (\<lambda>(jobs, st2).
       Ok (case jo of None \<Rightarrow> jobs | Some jb \<Rightarrow> jb # jobs, st2)))"

definition run_job :: "job \<Rightarrow> job_outcome" where
  "run_job jb =
     \<lparr>oc_effect = job_effect jb,
      oc_execution =
        (case job_executor jb (job_request jb) of
           Some ex \<Rightarrow> ex
         | None \<Rightarrow> \<lparr>ex_result = Inl (ExecuteError ''executor panicked''), ex_duration_ms = 0\<rparr>)\<rparr>"

definition run_level :: "job list \<Rightarrow> job_outcome list" where
  "run_level jobs = map run_job jobs"

definition put_entry :: "journal \<Rightarrow> string \<Rightarrow> journal_entry \<Rightarrow> journal" where
  "put_entry j h en =
     j\<lparr>j_state := (j_state j)\<lparr>entries := bt_insert h en (entries (j_state j))\<rparr>\<rparr>"

definition settle_outcome ::
  "crates \<Rightarrow> (string \<Rightarrow> u64) \<Rightarrow> job_outcome \<Rightarrow> journal \<times> run_state \<Rightarrow> (engine_error, journal \<times> run_state) res" where
  "settle_outcome c now oc = (\<lambda>(j, st).
     let n = e_name (oc_effect oc) in
     bind_res (expect_some (bt_get (results st) n)) (\<lambda>rcd0.
       let rcd = rcd0\<lparr>re_duration_ms := ex_duration_ms (oc_execution oc)\<rparr> in
       case ex_result (oc_execution oc) of
         Inr produced \<Rightarrow>
           Ok (put_entry j (to_hex c (re_id rcd))
                 \<lparr>je_name = n, je_kind = e_kind (oc_effect oc), je_outputs = produced,
                  je_status = Succeeded, je_recorded_at = now n\<rparr>,
               st\<lparr>results := bt_insert n (rcd\<lparr>re_action := Executed\<rparr>) (results st),
                  outs := bt_insert n produced (outs st)\<rparr>)
       | Inl err \<Rightarrow>
           Ok (put_entry j (to_hex c (re_id rcd))
                 \<lparr>je_name = n, je_kind = e_kind (oc_effect oc), je_outputs = [],
                  je_status = StatusFailed, je_recorded_at = now n\<rparr>,
               st\<lparr>results := bt_insert n (rcd\<lparr>re_reason := Some (message err), re_action := Failed\<rparr>) (results st),
                  halted := insert n (halted st)\<rparr>)))"

fun settle_level ::
  "crates \<Rightarrow> (string \<Rightarrow> u64) \<Rightarrow> job_outcome list \<Rightarrow> journal \<times> run_state \<Rightarrow> (engine_error, journal \<times> run_state) res" where
  "settle_level c now [] s = Ok s"
| "settle_level c now (oc # ocs) s = bind_res (settle_outcome c now oc s) (settle_level c now ocs)"

fun run_levels ::
  "crates \<Rightarrow> (string \<Rightarrow> u64) \<Rightarrow> (string, decision) btree \<Rightarrow> registry \<Rightarrow> effect list list
     \<Rightarrow> journal \<times> run_state \<Rightarrow> (engine_error, journal \<times> run_state) res" where
  "run_levels c now ds reg [] s = Ok s"
| "run_levels c now ds reg (l # ls) (j, st) =
     bind_res (stage_level c ds j reg l st) (\<lambda>(jobs, st1).
     bind_res (settle_level c now (run_level jobs) (j, st1)) (run_levels c now ds reg ls))"

fun check_executors ::
  "(string, decision) btree \<Rightarrow> registry \<Rightarrow> effect list \<Rightarrow> (engine_error, unit) res" where
  "check_executors ds reg [] = Ok ()"
| "check_executors ds reg (e # es) =
     bind_res (expect_some (bt_get ds (e_name e))) (\<lambda>d.
       if d_verdict d = VExecute \<and> get_executor reg (e_executor e) = None
       then Err (UnknownExecutor (e_name e) (e_executor e))
       else check_executors ds reg es)"

fun take_results ::
  "(string, run_effect) btree \<Rightarrow> effect list \<Rightarrow> (engine_error, run_effect list) res" where
  "take_results rs [] = Ok []"
| "take_results rs (e # es) =
     bind_res (expect_some (bt_get rs (e_name e))) (\<lambda>re.
     bind_res (take_results (bt_remove (e_name e) rs) es) (\<lambda>res. Ok (re # res)))"

definition initial_state :: run_state where
  "initial_state = \<lparr>outs = [], halted = {}, results = []\<rparr>"

definition push_run :: "journal \<Rightarrow> run_record \<Rightarrow> journal" where
  "push_run j r = j\<lparr>j_state := (j_state j)\<lparr>runs := runs (j_state j) @ [r]\<rparr>\<rparr>"

text \<open>The run up to the final save: the journal with the run recorded, and the report.\<close>

definition run_plan ::
  "crates \<Rightarrow> (string \<Rightarrow> u64) \<Rightarrow> plan \<Rightarrow> journal \<Rightarrow> registry \<Rightarrow> (engine_error, journal \<times> run_report) res" where
  "run_plan c now p j reg =
     bind_res (diff_plan c p j) (\<lambda>report.
       let ds = bt_collect (map (\<lambda>d. (d_name d, d)) (decisions report)) in
     bind_res (map_err PlanErr (topo_order p)) (\<lambda>order.
     bind_res (check_executors ds reg order) (\<lambda>_.
     bind_res (run_levels c now ds reg (levels order) (j, initial_state)) (\<lambda>(j1, st).
     bind_res (take_results (results st) order) (\<lambda>effs.
       Ok (push_run j1 \<lparr>rr_recorded_at = now '''', rr_effects = effs, rr_edges = plan_edges p\<rparr>,
           \<lparr>rep_effects = effs, rep_orphans = orphans report\<rparr>))))))"

text \<open>\<^verbatim>\<open>apply\<close>: the run, then the save; the caller's journal is updated in place.\<close>

definition apply_plan ::
  "crates \<Rightarrow> codec \<Rightarrow> (string \<Rightarrow> u64) \<Rightarrow> plan \<Rightarrow> disk \<times> journal \<Rightarrow> registry
     \<Rightarrow> (disk \<times> journal) \<times> (engine_error, run_report) res" where
  "apply_plan c k now p = (\<lambda>(d, j) reg.
     case run_plan c now p j reg of
       Err e \<Rightarrow> ((d, j), Err e)
     | Panic \<Rightarrow> ((d, j), Panic)
     | Ok (j', rep) \<Rightarrow>
         (case save k d j' of
            (d', Ok _) \<Rightarrow> ((d', j'), Ok rep)
          | (d', Err e) \<Rightarrow> ((d', j'), Err e)
          | (d', Panic) \<Rightarrow> ((d', j'), Panic)))"

end
