(* ===== verification/Efx_Run.thy ===== *)
theory Efx_Run
  imports Efx_Engine
begin

text \<open>
  The behaviour of a run: the grouping into levels, the fate of each effect as a function of the
  fates of what it refers to, and the proof that the level-parallel loop computes exactly these
  fates and never reaches one of its unreachable branches.
\<close>

section \<open>Levels\<close>

lemma mset_concat_update:
  "i < length xs \<Longrightarrow> mset (concat (xs[i := xs ! i @ [x]])) = add_mset x (mset (concat xs))"
proof (induction xs arbitrary: i)
  case (Cons y ys)
  then show ?case by (cases i) auto
qed simp

lemma length_push_group [simp]: "length (push_group g l x) = max (length g) (Suc l)"
  by (auto simp: push_group_def Let_def)

lemma push_group_nth:
  "k < length (push_group g l x) \<Longrightarrow>
     push_group g l x ! k = (if k < length g then g ! k else []) @ (if k = l then [x] else [])"
  by (auto simp: push_group_def Let_def nth_append nth_list_update)

lemma mset_push_group: "mset (concat (push_group g l x)) = add_mset x (mset (concat g))"
proof -
  let ?g = "if length g \<le> l then g @ replicate (l + 1 - length g) [] else g"
  have "mset (concat ?g) = mset (concat g)" by simp
  moreover have "l < length ?g" by auto
  ultimately show ?thesis
    using mset_concat_update [of l ?g x] by (simp only: push_group_def Let_def)
qed

lemma fold_max_Max: "fold max ds d = Max (set (d # ds))" for d :: nat
  by (metis Max.set_eq_fold)

definition ref_levels :: "(string, nat) btree \<Rightarrow> effect \<Rightarrow> nat list" where
  "ref_levels depth e =
     List.map_filter (\<lambda>v. case v of Ref r \<Rightarrow> map_option Suc (bt_get depth (ref_effect r))
                                  | Literal l \<Rightarrow> None) (bt_values (e_inputs e))"

lemma set_ref_levels:
  "set (ref_levels depth e) = {Suc k | d k. d \<in> effect_refs e \<and> bt_get depth d = Some k}"
proof -
  have "set (List.map_filter (\<lambda>v. case v of Ref r \<Rightarrow> map_option Suc (bt_get depth (ref_effect r))
      | Literal l \<Rightarrow> None) vs) =
    {Suc k | d k. (\<exists>r. Ref r \<in> set vs \<and> d = ref_effect r) \<and> bt_get depth d = Some k}" for vs
  proof (induction vs)
    case (Cons v vs)
    then show ?case
      by (cases v; cases "bt_get depth (ref_effect (case v of Ref r \<Rightarrow> r))")
        (auto simp: List.map_filter_simps)
  qed (simp add: List.map_filter_simps)
  then show ?thesis
    by (auto simp: ref_levels_def effect_refs_def)
qed

lemma level_of_Max:
  "level_of depth e = (if ref_levels depth e = [] then 0 else Max (set (ref_levels depth e)))"
  unfolding level_of_def ref_levels_def [symmetric]
  by (simp add: fold_max_Max split: list.splits)

lemma level_of_above: "d \<in> effect_refs e \<Longrightarrow> bt_get depth d = Some k \<Longrightarrow> k < level_of depth e"
proof -
  assume "d \<in> effect_refs e" "bt_get depth d = Some k"
  then have "Suc k \<in> set (ref_levels depth e)" by (auto simp: set_ref_levels)
  then have "Suc k \<le> level_of depth e" by (auto simp: level_of_Max intro: Max_ge)
  then show ?thesis by simp
qed

lemma level_of_attained:
  "level_of depth e = 0 \<or> (\<exists>d k. d \<in> effect_refs e \<and> bt_get depth d = Some k \<and> level_of depth e = Suc k)"
proof (cases "ref_levels depth e = []")
  case False
  then have "Max (set (ref_levels depth e)) \<in> set (ref_levels depth e)" by (intro Max_in) simp_all
  with False show ?thesis by (auto simp: level_of_Max set_ref_levels)
qed (simp add: level_of_Max)

text \<open>Invariant of the grouping loop after the effects \<open>xs\<close>.\<close>

definition levels_inv :: "effect list \<Rightarrow> (string, nat) btree \<Rightarrow> effect list list \<Rightarrow> bool" where
  "levels_inv xs depth groups \<longleftrightarrow>
     mset (concat groups) = mset xs \<and>
     (\<forall>n. bt_get depth n \<noteq> None \<longleftrightarrow> n \<in> e_name ` set xs) \<and>
     (\<forall>l < length groups. \<forall>e \<in> set (groups ! l).
        bt_get depth (e_name e) = Some l \<and>
        (\<forall>d \<in> effect_refs e. \<exists>k < l. bt_get depth d = Some k) \<and>
        (l = 0 \<or> (\<exists>d \<in> effect_refs e. bt_get depth d = Some (l - 1))))"

lemma levels_inv_step:
  assumes inv: "levels_inv xs depth groups" and new: "e_name e \<notin> e_name ` set xs"
    and refs: "effect_refs e \<subseteq> e_name ` set xs"
  shows "levels_inv (xs @ [e]) (bt_insert (e_name e) (level_of depth e) depth)
           (push_group groups (level_of depth e) e)"
proof -
  let ?l = "level_of depth e"
  let ?depth = "bt_insert (e_name e) ?l depth"
  have old: "bt_get ?depth n = bt_get depth n" if "n \<in> e_name ` set xs" for n
  proof -
    have "n \<noteq> e_name e" using that new by blast
    then show ?thesis by (simp add: bt_get_insert)
  qed
  have known: "\<exists>k. bt_get depth d = Some k" if "d \<in> e_name ` set xs" for d
    using inv that unfolding levels_inv_def by auto
  have "bt_get ?depth (e_name x) = Some m \<and>
      (\<forall>d \<in> effect_refs x. \<exists>k < m. bt_get ?depth d = Some k) \<and>
      (m = 0 \<or> (\<exists>d \<in> effect_refs x. bt_get ?depth d = Some (m - 1)))"
    if m: "m < length (push_group groups ?l e)" and x: "x \<in> set (push_group groups ?l e ! m)" for m x
  proof -
    consider "m < length groups" "x \<in> set (groups ! m)" | "m = ?l" "x = e"
      using x push_group_nth [OF m] by (auto split: if_splits)
    then show ?thesis
    proof cases
      case 1
      then have "x \<in> set xs"
        using inv unfolding levels_inv_def
        by (metis UN_I nth_mem set_concat set_mset_mset)
      moreover have "d \<in> e_name ` set xs" if "d \<in> effect_refs x" for d
        using that inv 1 unfolding levels_inv_def by fastforce
      ultimately show ?thesis
        using inv 1 old unfolding levels_inv_def by (simp add: image_eqI)
    next
      case 2
      have "\<exists>k < ?l. bt_get ?depth d = Some k" if "d \<in> effect_refs e" for d
      proof -
        have d: "d \<in> e_name ` set xs" using that refs by blast
        then obtain k where "bt_get depth d = Some k" using known by blast
        then show ?thesis using level_of_above [OF that] old [OF d] by auto
      qed
      moreover have "?l = 0 \<or> (\<exists>d \<in> effect_refs e. bt_get ?depth d = Some (?l - 1))"
        using level_of_attained [of depth e]
      proof
        assume "\<exists>d k. d \<in> effect_refs e \<and> bt_get depth d = Some k \<and> ?l = Suc k"
        then obtain d k where dk: "d \<in> effect_refs e" "bt_get depth d = Some k" "?l = Suc k"
          by blast
        then have "bt_get ?depth d = Some k" using old [of d] refs by auto
        with dk show ?thesis by auto
      qed simp
      ultimately show ?thesis by (simp add: 2 bt_get_insert)
    qed
  qed
  with inv show ?thesis
    by (auto simp: levels_inv_def mset_push_group bt_get_insert)
qed

lemma levels_loop_inv:
  assumes "levels_inv xs depth groups" and "distinct (map e_name (xs @ ys))"
    and "\<forall>us e vs. xs @ ys = us @ e # vs \<longrightarrow> effect_refs e \<subseteq> e_name ` set us"
  shows "\<exists>depth'. levels_inv (xs @ ys) depth' (levels_loop ys depth groups)"
  using assms
proof (induction ys arbitrary: xs depth groups)
  case (Cons e ys)
  have "levels_inv (xs @ [e]) (bt_insert (e_name e) (level_of depth e) depth)
           (push_group groups (level_of depth e) e)"
    using Cons.prems(1,2) Cons.prems(3) [rule_format, of xs e ys]
    by (intro levels_inv_step) simp_all
  from Cons.IH [OF this] Cons.prems(2,3) show ?case by (simp add: Let_def)
qed auto

lemma levels_inv_empty: "levels_inv [] [] []"
  by (simp add: levels_inv_def)

lemma levels_correct:
  assumes "is_topo_order p order"
  shows "\<exists>depth. levels_inv order depth (levels order)"
  using levels_loop_inv [OF levels_inv_empty, of order] assms
  by (simp add: levels_def is_topo_order_def)

section \<open>The fate of an effect\<close>

text \<open>
  The abstract specification of a run: what happens to an effect, given what happened to the
  effects it refers to. \<open>FUnresolved\<close> is a failure before the executor is called (a
  referenced output field does not exist), \<open>FFailed\<close> a failure of the executor.
\<close>

datatype fate =
    FSkipped string
  | FCached outputs
  | FUnresolved string
  | FExecuted outputs nat
  | FFailed string nat

fun fate_outputs :: "fate \<Rightarrow> outputs option" where
  "fate_outputs (FCached os) = Some os"
| "fate_outputs (FExecuted os t) = Some os"
| "fate_outputs _ = None"

fun needs_run :: "fate \<Rightarrow> bool" where
  "needs_run (FExecuted os t) = True"
| "needs_run (FFailed msg t) = True"
| "needs_run _ = False"

type_synonym fates = "string \<Rightarrow> fate option"

definition halted_names :: "fates \<Rightarrow> string set" where
  "halted_names F = {n. \<exists>f. F n = Some f \<and> fate_outputs f = None}"

definition available :: "fates \<Rightarrow> string \<Rightarrow> outputs option" where
  "available F n = Option.bind (F n) fate_outputs"

fun resolve_from :: "(string \<Rightarrow> outputs option) \<Rightarrow> string \<times> input_value \<Rightarrow> (string, string \<times> literal) res" where
  "resolve_from av (key, Literal lit) = Ok (key, lit)"
| "resolve_from av (key, Ref r) =
     (case Option.bind (av (ref_effect r)) (\<lambda>fields. bt_get fields (ref_field r)) of
        Some lit \<Rightarrow> Ok (key, lit)
      | None \<Rightarrow> Err (''effect `'' @ ref_effect r @ ''` has no output field `'' @ ref_field r @ ''`''))"

definition resolved :: "(string \<Rightarrow> outputs option) \<Rightarrow> effect \<Rightarrow> (string, (string, literal) btree) res" where
  "resolved av e = bind_res (map_res (resolve_from av) (e_inputs e)) (\<lambda>kvs. Ok (bt_collect kvs))"

definition make_job :: "registry \<Rightarrow> effect \<Rightarrow> (string, literal) btree \<Rightarrow> job" where
  "make_job reg e ins =
     \<lparr>job_effect = e, job_executor = the (get_executor reg (e_executor e)),
      job_request = \<lparr>rq_name = e_name e, rq_kind = e_kind e, rq_inputs = ins\<rparr>\<rparr>"

definition executed_fate :: "registry \<Rightarrow> effect \<Rightarrow> (string, literal) btree \<Rightarrow> fate" where
  "executed_fate reg e ins =
     (let ex = oc_execution (run_job (make_job reg e ins))
      in case ex_result ex of
           Inr os \<Rightarrow> FExecuted os (ex_duration_ms ex)
         | Inl err \<Rightarrow> FFailed (message err) (ex_duration_ms ex))"

definition effect_fate ::
  "crates \<Rightarrow> (string, decision) btree \<Rightarrow> journal \<Rightarrow> registry \<Rightarrow> fates \<Rightarrow> effect \<Rightarrow> fate" where
  "effect_fate c ds j reg F e =
     (case first_halted_dependency e (halted_names F) of
        Some blocker \<Rightarrow> FSkipped blocker
      | None \<Rightarrow>
          (let d = the (bt_get ds (e_name e)) in
           if d_verdict d = VCached then FCached (je_outputs (the (entry c j (d_id d))))
           else case resolved (available F) e of
                  Ok ins \<Rightarrow> executed_fate reg e ins
                | Err msg \<Rightarrow> FUnresolved msg
                | Panic \<Rightarrow> FUnresolved ''''))"

definition pre_record :: "effect \<Rightarrow> decision \<Rightarrow> run_effect" where
  "pre_record e d = (initial_record e d)\<lparr>re_reason := Some (d_reason d)\<rparr>"

fun record_of :: "effect \<Rightarrow> decision \<Rightarrow> fate \<Rightarrow> run_effect" where
  "record_of e d (FSkipped b) =
     (initial_record e d)\<lparr>re_reason := Some (''dependency `'' @ b @ ''` did not succeed'')\<rparr>"
| "record_of e d (FCached os) = (initial_record e d)\<lparr>re_action := Cached\<rparr>"
| "record_of e d (FUnresolved msg) = (initial_record e d)\<lparr>re_action := Failed, re_reason := Some msg\<rparr>"
| "record_of e d (FExecuted os t) = (pre_record e d)\<lparr>re_duration_ms := t, re_action := Executed\<rparr>"
| "record_of e d (FFailed msg t) =
     (pre_record e d)\<lparr>re_duration_ms := t, re_reason := Some msg, re_action := Failed\<rparr>"

lemma ref_in_effect_refs: "Ref r \<in> set (bt_values (e_inputs e)) \<Longrightarrow> ref_effect r \<in> effect_refs e"
  unfolding effect_refs_def by blast

lemma first_halted_cong:
  "(\<And>r. Ref r \<in> set vs \<Longrightarrow> ref_effect r \<in> h \<longleftrightarrow> ref_effect r \<in> h') \<Longrightarrow> first_halted vs h = first_halted vs h'"
  by (induction vs h rule: first_halted.induct) auto

lemma first_halted_Some: "first_halted vs h = Some b \<Longrightarrow> b \<in> h \<and> (\<exists>r. Ref r \<in> set vs \<and> b = ref_effect r)"
  by (induction vs h rule: first_halted.induct) (auto split: if_splits)

lemma first_halted_None: "first_halted vs h = None \<longleftrightarrow> (\<forall>r. Ref r \<in> set vs \<longrightarrow> ref_effect r \<notin> h)"
  by (induction vs h rule: first_halted.induct) auto

lemma first_halted_dependency_None:
  "first_halted_dependency e h = None \<longleftrightarrow> effect_refs e \<inter> h = {}"
  unfolding first_halted_dependency_def first_halted_None effect_refs_def by blast

lemma first_halted_dependency_Some:
  "first_halted_dependency e h = Some b \<Longrightarrow> b \<in> effect_refs e \<inter> h"
  unfolding first_halted_dependency_def effect_refs_def by (blast dest: first_halted_Some)

lemma resolved_cong:
  assumes "\<And>d. d \<in> effect_refs e \<Longrightarrow> av d = av' d"
  shows "resolved av e = resolved av' e"
proof -
  have "resolve_from av (k, v) = resolve_from av' (k, v)" if "(k, v) \<in> set (e_inputs e)" for k v
  proof (cases v)
    case (Ref r)
    with that have "Ref r \<in> set (bt_values (e_inputs e))" by force
    then have "ref_effect r \<in> effect_refs e" by (rule ref_in_effect_refs)
    with assms show ?thesis by (simp add: Ref)
  qed simp
  then have "map_res (resolve_from av) (e_inputs e) = map_res (resolve_from av') (e_inputs e)"
    by (intro map_res_cong) auto
  then show ?thesis by (simp add: resolved_def)
qed

lemma resolve_inputs_resolved: "resolve_inputs e os = resolved (bt_get os) e"
proof -
  have "resolve_value os = resolve_from (bt_get os)"
  proof
    fix kv show "resolve_value os kv = resolve_from (bt_get os) kv"
      by (cases "(os, kv)" rule: resolve_value.cases) auto
  qed
  then show ?thesis by (simp add: resolve_inputs_def resolved_def)
qed

lemma resolved_not_panic: "resolved av e \<noteq> Panic"
proof
  assume "resolved av e = Panic"
  then obtain kv where "resolve_from av kv = Panic"
    by (auto simp: resolved_def res_simps dest!: map_res_Panic)
  then show False
    by (cases "(av, kv)" rule: resolve_from.cases) (auto split: option.splits)
qed

lemma effect_fate_cong:
  assumes agree: "\<And>d. d \<in> effect_refs e \<Longrightarrow> F d = G d"
  shows "effect_fate c ds j reg F e = effect_fate c ds j reg G e"
proof -
  have "first_halted_dependency e (halted_names F) = first_halted_dependency e (halted_names G)"
    unfolding first_halted_dependency_def
  proof (rule first_halted_cong)
    fix r assume "Ref r \<in> set (bt_values (e_inputs e))"
    then have "ref_effect r \<in> effect_refs e" by (rule ref_in_effect_refs)
    then show "ref_effect r \<in> halted_names F \<longleftrightarrow> ref_effect r \<in> halted_names G"
      by (simp add: halted_names_def agree)
  qed
  moreover have "resolved (available F) e = resolved (available G) e"
    by (rule resolved_cong) (simp add: available_def agree)
  ultimately show ?thesis unfolding effect_fate_def by (simp only:)
qed

section \<open>One level\<close>

text \<open>A run state, read as the fates settled so far and the records written so far.\<close>

definition state_is :: "fates \<Rightarrow> (string \<Rightarrow> run_effect option) \<Rightarrow> run_state \<Rightarrow> bool" where
  "state_is G R st \<longleftrightarrow>
     halted st = halted_names G \<and> (\<forall>n. bt_get (outs st) n = available G n) \<and>
     (\<forall>n. bt_get (results st) n = R n) \<and> bt_wf (results st)"

definition staged_record :: "effect \<Rightarrow> decision \<Rightarrow> fate \<Rightarrow> run_effect" where
  "staged_record e d f = (if needs_run f then pre_record e d else record_of e d f)"

text \<open>What staging an effect relies on: its decision, its journal entry, its executor.\<close>

definition stageable ::
  "crates \<Rightarrow> (string, decision) btree \<Rightarrow> journal \<Rightarrow> journal \<Rightarrow> registry \<Rightarrow> effect \<Rightarrow> bool" where
  "stageable c ds j0 j reg e \<longleftrightarrow>
     (\<exists>d. bt_get ds (e_name e) = Some d \<and>
        (d_verdict d = VCached \<longrightarrow> entry c j (d_id d) = entry c j0 (d_id d) \<and> entry c j0 (d_id d) \<noteq> None) \<and>
        (d_verdict d = VExecute \<longrightarrow> get_executor reg (e_executor e) \<noteq> None))"

lemma halted_names_upd:
  "G n = None \<Longrightarrow> halted_names (G(n \<mapsto> f)) =
     (if fate_outputs f = None then insert n (halted_names G) else halted_names G)"
  by (auto simp: halted_names_def)

lemma available_upd: "available (G(n \<mapsto> f)) m = (if m = n then fate_outputs f else available G m)"
  by (simp add: available_def)

lemma executed_fate_needs_run: "needs_run (executed_fate reg e ins)"
  by (simp add: executed_fate_def Let_def split: sum.splits)

lemma stage_effect_fate:
  assumes st: "state_is G R st" and ok: "stageable c ds j0 j reg e" and new: "G (e_name e) = None"
    and d: "d = the (bt_get ds (e_name e))" and f: "f = effect_fate c ds j0 reg G e"
  shows "\<exists>st' jo. stage_effect c ds j reg e st = Ok (jo, st') \<and>
     state_is (if needs_run f then G else G(e_name e \<mapsto> f)) (R(e_name e \<mapsto> staged_record e d f)) st' \<and>
     (if needs_run f
      then \<exists>ins. jo = Some (make_job reg e ins) \<and> f = executed_fate reg e ins
      else jo = None)"
proof -
  from ok d have dec: "bt_get ds (e_name e) = Some d"
    by (auto simp: stageable_def)
  have h: "halted st = halted_names G" and o: "resolve_inputs e (outs st) = resolved (available G) e"
    using st by (auto simp: state_is_def resolve_inputs_resolved intro: resolved_cong)
  show ?thesis
  proof (cases "first_halted_dependency e (halted_names G)")
    case (Some b)
    then have "f = FSkipped b" by (simp add: f effect_fate_def)
    then show ?thesis
      using st Some new
      by (simp add: stage_effect_def dec h state_is_def halted_names_upd available_upd bt_get_insert
          staged_record_def available_def)
  next
    case None
    show ?thesis
    proof (cases "d_verdict d")
      case VCached
      then obtain en where en: "entry c j (d_id d) = Some en" "entry c j0 (d_id d) = Some en"
        using ok dec by (auto simp: stageable_def)
      then have "f = FCached (je_outputs en)"
        using None VCached by (simp add: f effect_fate_def dec)
      then show ?thesis
        using st None new VCached en
        by (simp add: stage_effect_def dec h state_is_def halted_names_upd available_upd bt_get_insert
            staged_record_def)
    next
      case VExecute
      then obtain x where x: "get_executor reg (e_executor e) = Some x"
        using ok dec by (auto simp: stageable_def)
      show ?thesis
      proof (cases "resolved (available G) e")
        case (Ok ins)
        then have "f = executed_fate reg e ins"
          using None VExecute by (simp add: f effect_fate_def dec)
        then show ?thesis
          using st None VExecute Ok x executed_fate_needs_run
          by (simp add: stage_effect_def dec h o state_is_def bt_get_insert staged_record_def
              pre_record_def make_job_def)
      next
        case (Err msg)
        then have "f = FUnresolved msg"
          using None VExecute by (simp add: f effect_fate_def dec)
        then show ?thesis
          using st None new VExecute Err
          by (simp add: stage_effect_def dec h o state_is_def halted_names_upd available_upd bt_get_insert
              staged_record_def available_def)
      qed (simp add: resolved_not_panic)
    qed
  qed
qed

definition upd_all :: "(effect \<Rightarrow> 'v) \<Rightarrow> (effect \<Rightarrow> bool) \<Rightarrow> effect list \<Rightarrow> (string \<Rightarrow> 'v option) \<Rightarrow> string \<Rightarrow> 'v option" where
  "upd_all f P L G = fold (\<lambda>e G. if P e then G(e_name e \<mapsto> f e) else G) L G"

lemma upd_all_simps [simp]:
  "upd_all f P [] G = G"
  "upd_all f P (e # L) G = upd_all f P L (if P e then G(e_name e \<mapsto> f e) else G)"
  by (simp_all add: upd_all_def)

lemma upd_all_other: "n \<notin> e_name ` set L \<Longrightarrow> upd_all f P L G n = G n"
  by (induction L arbitrary: G) auto

lemma upd_all_in:
  "distinct (map e_name L) \<Longrightarrow> e \<in> set L \<Longrightarrow>
     upd_all f P L G (e_name e) = (if P e then Some (f e) else G (e_name e))"
proof (induction L arbitrary: G)
  case (Cons x L)
  show ?case
  proof (cases "e = x")
    case True
    with Cons.prems show ?thesis by (simp add: upd_all_other)
  next
    case False
    with Cons.prems have "e_name e \<noteq> e_name x" by (metis image_eqI distinct.simps(2) list.simps(9) set_ConsD set_map)
    with False Cons show ?thesis by simp
  qed
qed simp

lemma upd_all_split:
  assumes "distinct (map e_name L)"
  shows "upd_all f (\<lambda>_. True) (filter P L) (upd_all f (\<lambda>e. \<not> P e) L G) = upd_all f (\<lambda>_. True) L G"
proof
  fix n
  have d: "distinct (map e_name (filter P L))"
    using assms by (simp add: distinct_map_filter)
  show "upd_all f (\<lambda>_. True) (filter P L) (upd_all f (\<lambda>e. \<not> P e) L G) n = upd_all f (\<lambda>_. True) L G n"
  proof (cases "n \<in> e_name ` set L")
    case False
    then have "n \<notin> e_name ` set (filter P L)" by auto
    with False show ?thesis by (simp add: upd_all_other)
  next
    case True
    then obtain e where e: "e \<in> set L" "n = e_name e" by blast
    show ?thesis
    proof (cases "P e")
      case True
      with e show ?thesis
        by (simp add: upd_all_in [OF d] upd_all_in [OF assms])
    next
      case False
      have "n \<notin> e_name ` set (filter P L)"
        using assms e False by (auto simp: distinct_map dest: inj_onD)
      then show ?thesis
        using False e by (simp add: upd_all_other upd_all_in [OF assms])
    qed
  qed
qed

abbreviation decision_of :: "(string, decision) btree \<Rightarrow> effect \<Rightarrow> decision" where
  "decision_of ds e \<equiv> the (bt_get ds (e_name e))"

lemma stage_level_fates:
  assumes "state_is G R st" and "\<forall>e \<in> set L. stageable c ds j0 j reg e"
    and "distinct (map e_name L)" and "\<forall>e \<in> set L. G (e_name e) = None"
    and "\<forall>e \<in> set L. effect_refs e \<inter> e_name ` set L = {}"
    and "\<forall>e \<in> set L. f e = effect_fate c ds j0 reg G e"
  shows "\<exists>st' jobs. stage_level c ds j reg L st = Ok (jobs, st') \<and>
     state_is (upd_all f (\<lambda>e. \<not> needs_run (f e)) L G)
       (upd_all (\<lambda>e. staged_record e (decision_of ds e) (f e)) (\<lambda>_. True) L R) st' \<and>
     map job_effect jobs = filter (\<lambda>e. needs_run (f e)) L \<and>
     (\<forall>jb \<in> set jobs. \<exists>ins. jb = make_job reg (job_effect jb) ins \<and>
        f (job_effect jb) = executed_fate reg (job_effect jb) ins)"
  using assms
proof (induction L arbitrary: G R st)
  case (Cons e L)
  let ?G = "if needs_run (f e) then G else G(e_name e \<mapsto> f e)"
  let ?R = "R(e_name e \<mapsto> staged_record e (decision_of ds e) (f e))"
  obtain st1 jo where s1: "stage_effect c ds j reg e st = Ok (jo, st1)" "state_is ?G ?R st1"
    and jo: "if needs_run (f e) then \<exists>ins. jo = Some (make_job reg e ins) \<and> f e = executed_fate reg e ins
      else jo = None"
    using stage_effect_fate [OF Cons.prems(1), of c ds j0 j reg e _ "f e", OF _ _ refl] Cons.prems(2,4,6)
    by (metis list.set_intros(1))
  have fresh: "e_name x \<noteq> e_name e" if "x \<in> set L" for x
    using that Cons.prems(3) by (metis distinct.simps(2) image_eqI list.simps(9) set_map)
  have other: "?G y = G y" if "y \<noteq> e_name e" for y
    using that by (cases "needs_run (f e)") simp_all
  have "f x = effect_fate c ds j0 reg ?G x" if "x \<in> set L" for x
  proof -
    have "e_name e \<notin> effect_refs x" using that Cons.prems(5) by auto
    then have "effect_fate c ds j0 reg ?G x = effect_fate c ds j0 reg G x"
      by (metis effect_fate_cong other)
    then show ?thesis using that Cons.prems(6) by simp
  qed
  then have "\<forall>x \<in> set L. f x = effect_fate c ds j0 reg ?G x" by blast
  moreover have "\<forall>x \<in> set L. ?G (e_name x) = None"
    using fresh other Cons.prems(4) by (metis list.set_intros(2))
  moreover have "\<forall>x \<in> set L. effect_refs x \<inter> e_name ` set L = {}"
    using Cons.prems(5) by (metis Int_insert_right_if0 disjoint_insert(2) image_insert list.set_intros(2) list.simps(15))
  moreover have "distinct (map e_name L)" "\<forall>x \<in> set L. stageable c ds j0 j reg x"
    using Cons.prems(2,3) by simp_all
  ultimately have IH: "\<exists>st' jobs. stage_level c ds j reg L st1 = Ok (jobs, st') \<and>
     state_is (upd_all f (\<lambda>e. \<not> needs_run (f e)) L ?G)
       (upd_all (\<lambda>e. staged_record e (decision_of ds e) (f e)) (\<lambda>_. True) L ?R) st' \<and>
     map job_effect jobs = filter (\<lambda>e. needs_run (f e)) L \<and>
     (\<forall>jb \<in> set jobs. \<exists>ins. jb = make_job reg (job_effect jb) ins \<and>
        f (job_effect jb) = executed_fate reg (job_effect jb) ins)"
    using Cons.IH [OF s1(2)] by blast
  then obtain st2 jobs where s2: "stage_level c ds j reg L st1 = Ok (jobs, st2)"
      "state_is (upd_all f (\<lambda>e. \<not> needs_run (f e)) L ?G)
        (upd_all (\<lambda>e. staged_record e (decision_of ds e) (f e)) (\<lambda>_. True) L ?R) st2"
      "map job_effect jobs = filter (\<lambda>e. needs_run (f e)) L"
      "\<forall>jb \<in> set jobs. \<exists>ins. jb = make_job reg (job_effect jb) ins \<and>
         f (job_effect jb) = executed_fate reg (job_effect jb) ins"
    using IH by blast
  have "job_effect (make_job reg e ins) = e" for ins by (simp add: make_job_def)
  moreover have "\<exists>i. make_job reg e ins = make_job reg e i \<and> executed_fate reg e ins = executed_fate reg e i" for ins
    by blast
  ultimately show ?case
    using s1 s2 jo by (cases "needs_run (f e)") auto
qed simp

section \<open>Settling a level\<close>

definition entry_of :: "(string \<Rightarrow> u64) \<Rightarrow> effect \<Rightarrow> fate \<Rightarrow> journal_entry" where
  "entry_of now e f =
     \<lparr>je_name = e_name e, je_kind = e_kind e,
      je_outputs = (case fate_outputs f of Some os \<Rightarrow> os | None \<Rightarrow> []),
      je_status = (if fate_outputs f = None then StatusFailed else Succeeded),
      je_recorded_at = now (e_name e)\<rparr>"

definition put_fate ::
  "crates \<Rightarrow> (string \<Rightarrow> u64) \<Rightarrow> (string, decision) btree \<Rightarrow> (effect \<Rightarrow> fate) \<Rightarrow> effect \<Rightarrow> journal \<Rightarrow> journal" where
  "put_fate c now ds f e j = put_entry j (to_hex c (d_id (decision_of ds e))) (entry_of now e (f e))"

lemma settle_outcome_fate:
  assumes st: "state_is G R st" and R: "R (e_name e) = Some (pre_record e (decision_of ds e))"
    and new: "G (e_name e) = None" and f: "f e = executed_fate reg e ins"
  shows "\<exists>st'. settle_outcome c now (run_job (make_job reg e ins)) (j, st) = Ok (put_fate c now ds f e j, st') \<and>
     state_is (G(e_name e \<mapsto> f e)) (R(e_name e \<mapsto> record_of e (decision_of ds e) (f e))) st'"
proof -
  have eff: "oc_effect (run_job (make_job reg e ins)) = e"
    by (simp add: run_job_def make_job_def)
  have id: "re_id (pre_record e d) = d_id d" for d
    by (simp add: pre_record_def initial_record_def)
  show ?thesis
  proof (cases "ex_result (oc_execution (run_job (make_job reg e ins)))")
    case (Inl err)
    then have "f e = FFailed (message err) (ex_duration_ms (oc_execution (run_job (make_job reg e ins))))"
      by (simp add: f executed_fate_def)
    then show ?thesis
      using st R new Inl
      by (simp add: settle_outcome_def eff id state_is_def put_fate_def entry_of_def halted_names_upd
          available_upd bt_get_insert available_def Let_def)
  next
    case (Inr os)
    then have "f e = FExecuted os (ex_duration_ms (oc_execution (run_job (make_job reg e ins))))"
      by (simp add: f executed_fate_def)
    then show ?thesis
      using st R new Inr
      by (simp add: settle_outcome_def eff id state_is_def put_fate_def entry_of_def halted_names_upd
          available_upd bt_get_insert Let_def)
  qed
qed

lemma settle_level_fates:
  assumes "state_is G R st" and "distinct (map e_name es)" and "map job_effect jobs = es"
    and "\<forall>jb \<in> set jobs. \<exists>ins. jb = make_job reg (job_effect jb) ins \<and>
        f (job_effect jb) = executed_fate reg (job_effect jb) ins"
    and "\<forall>e \<in> set es. G (e_name e) = None \<and> R (e_name e) = Some (pre_record e (decision_of ds e))"
  shows "\<exists>st'. settle_level c now (run_level jobs) (j, st) = Ok (fold (put_fate c now ds f) es j, st') \<and>
     state_is (upd_all f (\<lambda>_. True) es G)
       (upd_all (\<lambda>e. record_of e (decision_of ds e) (f e)) (\<lambda>_. True) es R) st'"
  using assms
proof (induction es arbitrary: jobs G R st j)
  case (Cons e es)
  then obtain jb jbs where jobs: "jobs = jb # jbs" "job_effect jb = e" "map job_effect jbs = es"
    by (auto simp: map_eq_Cons_conv)
  then obtain ins where ins: "jb = make_job reg e ins" "f e = executed_fate reg e ins"
    using Cons.prems(4) by auto
  let ?G = "G(e_name e \<mapsto> f e)"
  let ?R = "R(e_name e \<mapsto> record_of e (decision_of ds e) (f e))"
  obtain st1 where s1: "settle_outcome c now (run_job jb) (j, st) = Ok (put_fate c now ds f e j, st1)"
      "state_is ?G ?R st1"
    using settle_outcome_fate [OF Cons.prems(1), of e ds f reg ins c now j] Cons.prems(5) ins by auto
  have "e_name x \<noteq> e_name e" if "x \<in> set es" for x
    using that Cons.prems(2) by (metis distinct.simps(2) image_eqI list.simps(9) set_map)
  then have "\<exists>st'. settle_level c now (run_level jbs) (put_fate c now ds f e j, st1)
        = Ok (fold (put_fate c now ds f) es (put_fate c now ds f e j), st') \<and>
     state_is (upd_all f (\<lambda>_. True) es ?G)
       (upd_all (\<lambda>e. record_of e (decision_of ds e) (f e)) (\<lambda>_. True) es ?R) st'"
    using Cons.prems(2,4,5) jobs by (intro Cons.IH [OF s1(2)]) auto
  then show ?case
    using s1(1) by (simp add: jobs(1) run_level_def)
qed (simp add: run_level_def)

section \<open>The run\<close>

definition decision_hex :: "crates \<Rightarrow> (string, decision) btree \<Rightarrow> effect \<Rightarrow> string" where
  "decision_hex c ds e = to_hex c (d_id (decision_of ds e))"

lemma put_fate_entries:
  "bt_get (entries (j_state (put_fate c now ds f e j))) h =
     (if h = decision_hex c ds e then Some (entry_of now e (f e)) else bt_get (entries (j_state j)) h)"
  by (simp add: put_fate_def put_entry_def bt_get_insert decision_hex_def)

lemma put_fates_entries:
  "if h \<in> decision_hex c ds ` set es
   then \<exists>e \<in> set es. decision_hex c ds e = h \<and>
      bt_get (entries (j_state (fold (put_fate c now ds f) es j))) h = Some (entry_of now e (f e))
   else bt_get (entries (j_state (fold (put_fate c now ds f) es j))) h = bt_get (entries (j_state j)) h"
proof (induction es rule: rev_induct)
  case (snoc e es)
  then show ?case
    by (cases "decision_hex c ds e = h") (auto simp: put_fate_entries)
qed simp

lemma put_fates_rest [simp]:
  "j_path (fold (put_fate c now ds f) es j) = j_path j"
  "runs (j_state (fold (put_fate c now ds f) es j)) = runs (j_state j)"
  by (induction es arbitrary: j) (simp_all add: put_fate_def put_entry_def)

lemma put_fates_wf:
  "bt_wf (entries (j_state j)) \<Longrightarrow> bt_wf (entries (j_state (fold (put_fate c now ds f) es j)))"
  by (induction es arbitrary: j) (simp_all add: put_fate_def put_entry_def bt_wf_insert)

definition decisions_ok ::
  "crates \<Rightarrow> (string, decision) btree \<Rightarrow> journal \<Rightarrow> registry \<Rightarrow> effect set \<Rightarrow> bool" where
  "decisions_ok c ds j0 reg E \<longleftrightarrow>
     (\<forall>e \<in> E. \<exists>d. bt_get ds (e_name e) = Some d \<and> (d_verdict d = VCached \<longleftrightarrow> is_cached c j0 (d_id d)) \<and>
        (d_verdict d = VExecute \<longrightarrow> get_executor reg (e_executor e) \<noteq> None))"

lemma needs_run_not_cached:
  assumes "decisions_ok c ds j0 reg E" and "e \<in> E" and "needs_run (effect_fate c ds j0 reg F e)"
  shows "\<not> is_cached c j0 (d_id (decision_of ds e))"
proof
  assume "is_cached c j0 (d_id (decision_of ds e))"
  with assms(1,2) have "d_verdict (decision_of ds e) = VCached"
    by (auto simp: decisions_ok_def)
  with assms(3) show False
    by (auto simp: effect_fate_def split: option.splits)
qed

definition runs_of :: "fates \<Rightarrow> effect list \<Rightarrow> effect list" where
  "runs_of F X = filter (\<lambda>e. needs_run (the (F (e_name e)))) X"

definition run_inv ::
  "crates \<Rightarrow> (string \<Rightarrow> u64) \<Rightarrow> (string, decision) btree \<Rightarrow> journal \<Rightarrow> registry \<Rightarrow> effect list \<Rightarrow> fates
     \<Rightarrow> journal \<Rightarrow> run_state \<Rightarrow> bool" where
  "run_inv c now ds j0 reg X F j st \<longleftrightarrow>
     (\<exists>R. state_is F R st \<and>
        (\<forall>e \<in> set X. R (e_name e) = Some (record_of e (decision_of ds e) (the (F (e_name e)))))) \<and>
     dom F = e_name ` set X \<and>
     (\<forall>e \<in> set X. effect_refs e \<subseteq> e_name ` set X \<and> F (e_name e) = Some (effect_fate c ds j0 reg F e)) \<and>
     j = fold (put_fate c now ds (\<lambda>e. the (F (e_name e)))) (runs_of F X) j0"

lemma run_inv_entry:
  assumes inv: "run_inv c now ds j0 reg X F j st" and ok: "decisions_ok c ds j0 reg E"
    and E: "set X \<subseteq> E" and cached: "is_cached c j0 i"
  shows "entry c j i = entry c j0 i"
proof -
  have "to_hex c i \<notin> decision_hex c ds ` set (runs_of F X)"
  proof
    assume "to_hex c i \<in> decision_hex c ds ` set (runs_of F X)"
    then obtain e where e: "e \<in> set X" "needs_run (the (F (e_name e)))" "to_hex c i = decision_hex c ds e"
      by (auto simp: runs_of_def)
    then have "needs_run (effect_fate c ds j0 reg F e)" using inv by (simp add: run_inv_def)
    then have "\<not> is_cached c j0 (d_id (decision_of ds e))"
      using needs_run_not_cached [OF ok] e(1) E by blast
    with cached e(3) show False by (simp add: is_cached_def entry_def decision_hex_def)
  qed
  then show ?thesis
    using inv put_fates_entries [of "to_hex c i" c ds "runs_of F X" now "\<lambda>e. the (F (e_name e))" j0]
    by (simp add: entry_def run_inv_def)
qed

lemma run_inv_stageable:
  assumes "run_inv c now ds j0 reg X F j st" and "decisions_ok c ds j0 reg E" and "set X \<subseteq> E" and "e \<in> E"
  shows "stageable c ds j0 j reg e"
proof -
  obtain d where d: "bt_get ds (e_name e) = Some d" "d_verdict d = VCached \<longleftrightarrow> is_cached c j0 (d_id d)"
      "d_verdict d = VExecute \<longrightarrow> get_executor reg (e_executor e) \<noteq> None"
    using assms(2,4) unfolding decisions_ok_def by blast
  moreover have "entry c j0 (d_id d) \<noteq> None" if "is_cached c j0 (d_id d)"
    using that by (auto simp: is_cached_def split: option.splits)
  ultimately show ?thesis
    using run_inv_entry [OF assms(1-3)] by (simp add: stageable_def)
qed

lemma level_step:
  assumes inv: "run_inv c now ds j0 reg X F j st" and ok: "decisions_ok c ds j0 reg E"
    and E: "set (X @ L) \<subseteq> E" and dist: "distinct (map e_name (X @ L))"
    and refs: "\<forall>e \<in> set L. effect_refs e \<subseteq> e_name ` set X"
  shows "\<exists>jobs st1 F' j' st'. stage_level c ds j reg L st = Ok (jobs, st1) \<and>
     settle_level c now (run_level jobs) (j, st1) = Ok (j', st') \<and> run_inv c now ds j0 reg (X @ L) F' j' st'"
proof -
  define f where "f = effect_fate c ds j0 reg F"
  define F' where "F' = upd_all f (\<lambda>_. True) L F"
  let ?es = "filter (\<lambda>e. needs_run (f e)) L"
  from inv obtain R where R: "state_is F R st"
      "\<forall>e \<in> set X. R (e_name e) = Some (record_of e (decision_of ds e) (the (F (e_name e))))"
    by (auto simp: run_inv_def)
  have dL: "distinct (map e_name L)" and dX: "e_name ` set X \<inter> e_name ` set L = {}"
    using dist by simp_all
  have dom: "dom F = e_name ` set X" using inv by (simp add: run_inv_def)
  have new: "F (e_name e) = None" if "e \<in> set L" for e
    using that dX dom by blast
  have staged: "\<forall>e \<in> set L. stageable c ds j0 j reg e"
    using run_inv_stageable [OF inv ok] E by auto
  have apart: "\<forall>e \<in> set L. effect_refs e \<inter> e_name ` set L = {}"
    using refs dX by blast
  let ?G = "upd_all f (\<lambda>e. \<not> needs_run (f e)) L F"
  let ?R = "upd_all (\<lambda>e. staged_record e (decision_of ds e) (f e)) (\<lambda>_. True) L R"
  obtain jobs st1 where s1: "stage_level c ds j reg L st = Ok (jobs, st1)" "state_is ?G ?R st1"
      "map job_effect jobs = ?es"
      "\<forall>jb \<in> set jobs. \<exists>ins. jb = make_job reg (job_effect jb) ins \<and>
         f (job_effect jb) = executed_fate reg (job_effect jb) ins"
    using stage_level_fates [OF R(1) staged dL _ apart, of f] new by (auto simp: f_def)
  have des: "distinct (map e_name ?es)" using dL by (simp add: distinct_map_filter)
  have pend: "\<forall>e \<in> set ?es. ?G (e_name e) = None \<and> ?R (e_name e) = Some (pre_record e (decision_of ds e))"
    using new by (simp add: upd_all_in [OF dL] staged_record_def)
  let ?R' = "upd_all (\<lambda>e. record_of e (decision_of ds e) (f e)) (\<lambda>_. True) ?es ?R"
  obtain st' where s2: "settle_level c now (run_level jobs) (j, st1) = Ok (fold (put_fate c now ds f) ?es j, st')"
      "state_is F' ?R' st'"
    using settle_level_fates [OF s1(2) des s1(3,4) pend, of c now j] by (auto simp: upd_all_split [OF dL] F'_def)
  have FX: "F' n = F n" if "n \<in> e_name ` set X" for n
    using that dX by (auto simp: F'_def intro!: upd_all_other)
  have FL: "F' (e_name e) = Some (f e)" if "e \<in> set L" for e
    using that by (simp add: F'_def upd_all_in [OF dL])
  have fresh: "e_name e \<notin> e_name ` set ?es" if "e \<in> set L" "\<not> needs_run (f e)" for e
    using that dL by (auto simp: distinct_map dest: inj_onD)
  have fates: "effect_fate c ds j0 reg F' e = effect_fate c ds j0 reg F e" if "effect_refs e \<subseteq> e_name ` set X" for e
    using that FX by (intro effect_fate_cong) blast
  have "runs_of F' (X @ L) = runs_of F X @ ?es"
    by (simp add: runs_of_def FX FL cong: filter_cong)
  moreover have "fold (put_fate c now ds (\<lambda>e. the (F' (e_name e)))) (runs_of F X) j0 =
      fold (put_fate c now ds (\<lambda>e. the (F (e_name e)))) (runs_of F X) j0"
    by (intro fold_cong) (auto simp: put_fate_def runs_of_def FX)
  moreover have "fold (put_fate c now ds (\<lambda>e. the (F' (e_name e)))) ?es j = fold (put_fate c now ds f) ?es j"
    by (intro fold_cong) (auto simp: put_fate_def FL)
  ultimately have "fold (put_fate c now ds f) ?es j =
      fold (put_fate c now ds (\<lambda>e. the (F' (e_name e)))) (runs_of F' (X @ L)) j0"
    using inv by (simp add: run_inv_def)
  moreover have "?R' (e_name e) = Some (record_of e (decision_of ds e) (the (F' (e_name e))))"
    if "e \<in> set (X @ L)" for e
  proof (cases "e \<in> set L")
    case True
    show ?thesis
    proof (cases "needs_run (f e)")
      case True
      with \<open>e \<in> set L\<close> show ?thesis by (simp add: upd_all_in [OF des] FL)
    next
      case False
      with \<open>e \<in> set L\<close> show ?thesis
        by (subst upd_all_other [OF fresh]) (simp_all add: upd_all_in [OF dL] FL staged_record_def)
    qed
  next
    case False
    with that have e: "e \<in> set X" "e_name e \<notin> e_name ` set L" using dX by auto
    then have "e_name e \<notin> e_name ` set ?es" by auto
    with e show ?thesis using R(2) FX by (simp add: upd_all_other)
  qed
  moreover have "dom F' = e_name ` set (X @ L)"
  proof -
    have "F' n \<noteq> None \<longleftrightarrow> n \<in> dom F" if "n \<notin> e_name ` set L" for n
      using that by (auto simp: F'_def upd_all_other)
    moreover have "F' n \<noteq> None" if "n \<in> e_name ` set L" for n using that FL by auto
    ultimately have "n \<in> dom F' \<longleftrightarrow> n \<in> dom F \<or> n \<in> e_name ` set L" for n by (simp add: domIff) blast
    with dom have "dom F' = e_name ` set X \<union> e_name ` set L" by blast
    then show ?thesis by (simp add: image_Un)
  qed
  moreover have "effect_refs e \<subseteq> e_name ` set (X @ L) \<and> F' (e_name e) = Some (effect_fate c ds j0 reg F' e)"
    if "e \<in> set (X @ L)" for e
  proof (cases "e \<in> set L")
    case True
    with refs FL fates show ?thesis by (simp add: f_def image_Un) blast
  next
    case False
    with that have e: "e \<in> set X" by simp
    then have "effect_refs e \<subseteq> e_name ` set X" "F (e_name e) = Some (effect_fate c ds j0 reg F e)"
      using inv by (simp_all add: run_inv_def)
    with e FX fates show ?thesis by (simp add: image_Un) blast
  qed
  ultimately have "run_inv c now ds j0 reg (X @ L) F' (fold (put_fate c now ds f) ?es j) st'"
    unfolding run_inv_def using s2(2) by blast
  with s1(1) s2(1) show ?thesis by blast
qed

primrec well_levelled :: "string set \<Rightarrow> effect list list \<Rightarrow> bool" where
  "well_levelled D [] \<longleftrightarrow> True"
| "well_levelled D (L # ls) \<longleftrightarrow>
     (\<forall>e \<in> set L. effect_refs e \<subseteq> D) \<and> well_levelled (D \<union> e_name ` set L) ls"

lemma levels_inv_well_levelled:
  assumes inv: "levels_inv xs depth groups" and "k \<le> length groups"
  shows "well_levelled (e_name ` set (concat (take k groups))) (drop k groups)"
  using assms(2)
proof (induction "length groups - k" arbitrary: k)
  case (Suc m)
  then have k: "k < length groups" by simp
  have "d \<in> e_name ` set (concat (take k groups))" if e: "e \<in> set (groups ! k)" "d \<in> effect_refs e" for e d
  proof -
    obtain l where l: "l < k" "bt_get depth d = Some l"
      using inv e k unfolding levels_inv_def by blast
    then have "d \<in> e_name ` set xs" using inv unfolding levels_inv_def by blast
    moreover have "set xs = set (concat groups)"
      using inv unfolding levels_inv_def by (metis set_mset_mset)
    ultimately obtain x i where x: "i < length groups" "x \<in> set (groups ! i)" "d = e_name x"
      by (auto simp: in_set_conv_nth [of _ groups])
    with inv l have "i = l" unfolding levels_inv_def by fastforce
    moreover have "groups ! l \<in> set (take k groups)"
      using l(1) k by (metis length_take min.absorb4 nth_mem nth_take)
    ultimately have "x \<in> set (concat (take k groups))" using x by auto
    with x(3) show ?thesis by blast
  qed
  moreover have "well_levelled (e_name ` set (concat (take (Suc k) groups))) (drop (Suc k) groups)"
    using Suc by (intro Suc.hyps(1)) auto
  ultimately show ?case
    using k by (simp add: Cons_nth_drop_Suc [symmetric] take_Suc_conv_app_nth image_Un subsetI)
qed simp

lemma run_levels_inv:
  assumes "run_inv c now ds j0 reg X F j st" and "decisions_ok c ds j0 reg E" and "set (X @ concat ls) \<subseteq> E"
    and "distinct (map e_name (X @ concat ls))" and "well_levelled (e_name ` set X) ls"
  shows "\<exists>F' j' st'. run_levels c now ds reg ls (j, st) = Ok (j', st') \<and>
     run_inv c now ds j0 reg (X @ concat ls) F' j' st'"
  using assms
proof (induction ls arbitrary: X F j st)
  case (Cons L ls)
  have "set (X @ L) \<subseteq> E" "distinct (map e_name (X @ L))" "\<forall>e \<in> set L. effect_refs e \<subseteq> e_name ` set X"
    using Cons.prems by auto
  from level_step [OF Cons.prems(1,2) this] obtain jobs st1 F1 j1 st2
    where s: "stage_level c ds j reg L st = Ok (jobs, st1)"
      "settle_level c now (run_level jobs) (j, st1) = Ok (j1, st2)" "run_inv c now ds j0 reg (X @ L) F1 j1 st2"
    by blast
  have "\<exists>F' j' st'. run_levels c now ds reg ls (j1, st2) = Ok (j', st') \<and>
     run_inv c now ds j0 reg ((X @ L) @ concat ls) F' j' st'"
    using Cons.prems(3-5) by (intro Cons.IH [OF s(3) Cons.prems(2)]) (simp_all add: image_Un)
  with s show ?case by simp
qed auto

lemma run_inv_initial: "run_inv c now ds j reg [] (\<lambda>_. None) j initial_state"
  by (auto simp: run_inv_def state_is_def initial_state_def halted_names_def available_def runs_of_def)

section \<open>Diff and run of a plan\<close>

definition make_decision :: "crates \<Rightarrow> journal \<Rightarrow> (string, effect_id) btree \<Rightarrow> effect \<Rightarrow> decision" where
  "make_decision c j ids e =
     (let i = the (bt_get ids (e_name e)); sigs = input_signatures c e ids
      in \<lparr>d_name = e_name e, d_kind = e_kind e, d_id = i,
          d_verdict = (if is_cached c j i then VCached else VExecute),
          d_reason = (if is_cached c j i then ''unchanged''
            else explain e i sigs (bt_get (previous_run j) (e_name e))),
          d_input_signatures = sigs\<rparr>)"

lemma make_decision_simps [simp]:
  "d_name (make_decision c j ids e) = e_name e" "d_kind (make_decision c j ids e) = e_kind e"
  "d_id (make_decision c j ids e) = the (bt_get ids (e_name e))"
  "d_verdict (make_decision c j ids e) = (if is_cached c j (the (bt_get ids (e_name e))) then VCached else VExecute)"
  "d_input_signatures (make_decision c j ids e) = input_signatures c e ids"
  by (simp_all add: make_decision_def Let_def)

lemma diff_plan_eq:
  assumes wf: "plan_wf p" and order: "topo_order p = Ok order"
  shows "\<exists>ids. effect_ids c p = Ok ids \<and> ids_solve c (set (effects p)) ids \<and>
     diff_plan c p j = Ok \<lparr>decisions = map (make_decision c j ids) order,
       orphans = orphans_of c j (map (make_decision c j ids) order)\<rparr>"
proof -
  obtain ids where ids: "effect_ids c p = Ok ids" "ids_solve c (set (effects p)) ids"
    using effect_ids_solve [OF wf order, of c] by blast
  have set: "set order = set (effects p)"
    using topo_order_Ok [OF order] is_topo_order_set by blast
  have "decide c j ids (previous_run j) e = Ok (make_decision c j ids e)" if "e \<in> set order" for e
  proof -
    have "bt_get ids (e_name e) \<noteq> None" using ids(2) that set by (simp add: ids_solve_def)
    then show ?thesis by (auto simp: decide_def make_decision_def Let_def)
  qed
  then have "map_res (decide c j ids (previous_run j)) order = Ok (map (make_decision c j ids) order)"
    by (rule map_res_all_Ok)
  with ids order show ?thesis by (simp add: diff_plan_def)
qed

lemma diff_plan_error: "topo_order p = Err e \<Longrightarrow> diff_plan c p j = Err (PlanErr e)"
  by (simp add: diff_plan_def effect_ids_def)

definition decision_table :: "plan_report \<Rightarrow> (string, decision) btree" where
  "decision_table rep = bt_collect (map (\<lambda>d. (d_name d, d)) (decisions rep))"

lemma decision_table_get:
  assumes "distinct (map e_name order)" and "e \<in> set order" and "decisions rep = map (make_decision c j ids) order"
  shows "bt_get (decision_table rep) (e_name e) = Some (make_decision c j ids e)"
  unfolding decision_table_def using assms
  by (subst bt_get_collect_distinct) (auto simp: comp_def map_of_eq_Some_iff)

lemma check_executors_cases:
  assumes "\<forall>e \<in> set es. bt_get ds (e_name e) \<noteq> None"
  shows "check_executors ds reg es = Ok () \<and>
      (\<forall>e \<in> set es. d_verdict (decision_of ds e) = VExecute \<longrightarrow> get_executor reg (e_executor e) \<noteq> None) \<or>
    (\<exists>e \<in> set es. check_executors ds reg es = Err (UnknownExecutor (e_name e) (e_executor e)) \<and>
      d_verdict (decision_of ds e) = VExecute \<and> get_executor reg (e_executor e) = None)"
  using assms
proof (induction es)
  case (Cons e es)
  then obtain d where d: "bt_get ds (e_name e) = Some d" by auto
  show ?case
  proof (cases "d_verdict d = VExecute \<and> get_executor reg (e_executor e) = None")
    case False
    then have "check_executors ds reg (e # es) = check_executors ds reg es" using d by auto
    moreover have "\<forall>x \<in> set es. bt_get ds (e_name x) \<noteq> None" using Cons.prems by simp
    ultimately show ?thesis using Cons.IH False d by (metis option.sel set_ConsD list.set_intros(2))
  qed (simp add: d)
qed simp

lemma take_results_Ok:
  assumes "bt_wf rs" and "distinct (map e_name es)" and "\<forall>e \<in> set es. bt_get rs (e_name e) = Some (g e)"
  shows "take_results rs es = Ok (map g es)"
  using assms
proof (induction es arbitrary: rs)
  case (Cons e es)
  then have "\<forall>x \<in> set es. bt_get (bt_remove (e_name e) rs) (e_name x) = Some (g x)"
    by (simp add: bt_get_remove) (metis image_eqI)
  with Cons show ?case by simp
qed simp

text \<open>A run is the solution of the fate equations, entered in the journal and in the report.\<close>

definition executors_known :: "(string, decision) btree \<Rightarrow> registry \<Rightarrow> plan \<Rightarrow> bool" where
  "executors_known ds reg p \<longleftrightarrow>
     (\<forall>e \<in> set (effects p). d_verdict (decision_of ds e) = VExecute \<longrightarrow> get_executor reg (e_executor e) \<noteq> None)"

definition fates_solve ::
  "crates \<Rightarrow> (string, decision) btree \<Rightarrow> journal \<Rightarrow> registry \<Rightarrow> plan \<Rightarrow> fates \<Rightarrow> bool" where
  "fates_solve c ds j reg p F \<longleftrightarrow>
     dom F = names p \<and> (\<forall>e \<in> set (effects p). F (e_name e) = Some (effect_fate c ds j reg F e))"

definition report_of :: "(string, decision) btree \<Rightarrow> fates \<Rightarrow> effect list \<Rightarrow> run_effect list" where
  "report_of ds F order = map (\<lambda>e. record_of e (decision_of ds e) (the (F (e_name e)))) order"

definition journal_after ::
  "crates \<Rightarrow> (string \<Rightarrow> u64) \<Rightarrow> (string, decision) btree \<Rightarrow> fates \<Rightarrow> effect list \<Rightarrow> journal \<Rightarrow> journal" where
  "journal_after c now ds F order j =
     fold (put_fate c now ds (\<lambda>e. the (F (e_name e)))) (runs_of F (concat (levels order))) j"

lemma run_plan_fates:
  assumes wf: "plan_wf p" and order: "topo_order p = Ok order" and rep: "diff_plan c p j = Ok rep"
    and ds: "ds = decision_table rep" and known: "executors_known ds reg p"
  shows "\<exists>F. fates_solve c ds j reg p F \<and>
     run_plan c now p j reg =
       Ok (push_run (journal_after c now ds F order j)
             \<lparr>rr_recorded_at = now '''', rr_effects = report_of ds F order, rr_edges = plan_edges p\<rparr>,
           \<lparr>rep_effects = report_of ds F order, rep_orphans = orphans rep\<rparr>)"
proof -
  have topo: "is_topo_order p order" using topo_order_Ok [OF order] by simp
  have set: "set order = set (effects p)" by (rule is_topo_order_set [OF topo])
  have dist: "distinct (map e_name order)" using topo by (simp add: is_topo_order_def)
  obtain depth where lv: "levels_inv order depth (levels order)" using levels_correct [OF topo] by blast
  then have mset: "mset (concat (levels order)) = mset order" by (simp add: levels_inv_def)
  have setl: "set (concat (levels order)) = set order" using mset by (metis set_mset_mset)
  have distl: "distinct (map e_name (concat (levels order)))"
    using dist mset by (metis mset_eq_imp_distinct_iff mset_map)
  obtain ids where ids: "decisions rep = map (make_decision c j ids) order"
    using diff_plan_eq [OF wf order, of c j] rep by (metis plan_report.select_convs(1) res.inject(1))
  have get: "bt_get ds (e_name e) = Some (make_decision c j ids e)" if "e \<in> set order" for e
    using decision_table_get [OF dist that ids] ds by simp
  have ok: "decisions_ok c ds j reg (set order)"
    using known set get unfolding decisions_ok_def executors_known_def by (simp split: if_splits)
  have chk: "check_executors ds reg order = Ok ()"
    using check_executors_cases [of order ds reg] get known set by (auto simp: executors_known_def)
  have wl: "well_levelled (e_name ` set []) (levels order)"
    using levels_inv_well_levelled [OF lv, of 0] by simp
  obtain F j' st' where r: "run_levels c now ds reg (levels order) (j, initial_state) = Ok (j', st')"
      "run_inv c now ds j reg (concat (levels order)) F j' st'"
    using run_levels_inv [OF run_inv_initial [of c now] ok _ _ wl] setl distl by auto
  have "fates_solve c ds j reg p F"
    using r(2) unfolding run_inv_def setl set fates_solve_def by blast
  moreover have "take_results (results st') order = Ok (report_of ds F order)"
    unfolding report_of_def using r(2) dist unfolding run_inv_def setl state_is_def
    by (intro take_results_Ok) auto
  moreover have "j' = journal_after c now ds F order j"
    using r(2) unfolding run_inv_def journal_after_def by blast
  ultimately show ?thesis
    using rep order chk r(1) by (intro exI [of _ F]) (simp add: run_plan_def ds decision_table_def Let_def)
qed

lemma run_plan_error:
  "topo_order p = Err e \<Longrightarrow> run_plan c now p j reg = Err (PlanErr e)"
  by (simp add: run_plan_def diff_plan_error)

lemma run_plan_unknown_executor:
  assumes wf: "plan_wf p" and order: "topo_order p = Ok order" and rep: "diff_plan c p j = Ok rep"
    and unknown: "\<not> executors_known (decision_table rep) reg p"
  shows "\<exists>e \<in> set (effects p). run_plan c now p j reg = Err (UnknownExecutor (e_name e) (e_executor e)) \<and>
    get_executor reg (e_executor e) = None"
proof -
  have topo: "is_topo_order p order" using topo_order_Ok [OF order] by simp
  have set: "set order = set (effects p)" by (rule is_topo_order_set [OF topo])
  obtain ids where ids: "decisions rep = map (make_decision c j ids) order"
    using diff_plan_eq [OF wf order, of c j] rep by (metis plan_report.select_convs(1) res.inject(1))
  have "\<forall>e \<in> set order. bt_get (decision_table rep) (e_name e) \<noteq> None"
    using decision_table_get [OF _ _ ids] topo by (simp add: is_topo_order_def)
  from check_executors_cases [OF this, of reg] unknown obtain e where e: "e \<in> set order"
      "check_executors (decision_table rep) reg order = Err (UnknownExecutor (e_name e) (e_executor e))"
      "get_executor reg (e_executor e) = None"
    by (auto simp: executors_known_def set)
  then have "run_plan c now p j reg = Err (UnknownExecutor (e_name e) (e_executor e))"
    using rep order by (simp add: run_plan_def decision_table_def Let_def)
  with e set show ?thesis by blast
qed

text \<open>The cases of a run: a plan error, an unknown executor, or the fates.\<close>

lemma run_plan_cases:
  assumes wf: "plan_wf p"
  obtains (plan) pe where "topo_order p = Err pe" "run_plan c now p j reg = Err (PlanErr pe)"
  | (executor) e where "e \<in> set (effects p)" "get_executor reg (e_executor e) = None"
      "run_plan c now p j reg = Err (UnknownExecutor (e_name e) (e_executor e))"
  | (ran) order rep F where "topo_order p = Ok order" "diff_plan c p j = Ok rep"
      "executors_known (decision_table rep) reg p" "fates_solve c (decision_table rep) j reg p F"
      "run_plan c now p j reg =
         Ok (push_run (journal_after c now (decision_table rep) F order j)
               \<lparr>rr_recorded_at = now '''', rr_effects = report_of (decision_table rep) F order,
                rr_edges = plan_edges p\<rparr>,
             \<lparr>rep_effects = report_of (decision_table rep) F order, rep_orphans = orphans rep\<rparr>)"
proof (cases "topo_order p")
  case (Ok order)
  then obtain rep where rep: "diff_plan c p j = Ok rep" using diff_plan_eq [OF wf Ok, of c j] by blast
  show thesis
  proof (cases "executors_known (decision_table rep) reg p")
    case True
    with run_plan_fates [OF wf Ok rep refl True, of now] rep Ok ran show thesis by blast
  next
    case False
    with run_plan_unknown_executor [OF wf Ok rep False, of now] executor show thesis by blast
  qed
next
  case (Err pe)
  then show thesis using plan run_plan_error by blast
qed (simp add: topo_order_not_panic)

lemma fates_solve_unique:
  assumes order: "topo_order p = Ok order" and F: "fates_solve c ds j reg p F" and G: "fates_solve c ds j reg p G"
  shows "F = G"
proof
  fix n
  show "F n = G n"
  proof (cases "n \<in> names p")
    case True
    then have "n \<in> set (order_names p)" using order_names_set [OF order] by simp
    then show ?thesis
    proof (induction n rule: efx.listing_induct)
      case (node n)
      from node.hyps obtain e where e: "e \<in> set (effects p)" "n = e_name e"
        using order_names_set [OF order] by auto
      have "deps_of p n = effect_refs e"
        using deps_of_effect e topo_order_Ok [OF order] by metis
      then have "effect_fate c ds j reg F e = effect_fate c ds j reg G e"
        using node by (intro effect_fate_cong) blast
      then show ?case using F G e by (simp add: fates_solve_def)
    qed
  next
    case False
    then show ?thesis using F G unfolding fates_solve_def by (metis domIff)
  qed
qed

end
