(* ===== verification/Efx_Engine_Properties.thy ===== *)
theory Efx_Engine_Properties
  imports Efx_Run Efx_IR_Properties "HOL-Library.Sublist"
begin

text \<open>
  The properties of the effect engine: the diff of a plan against the journal, the grouping into
  levels, what a run does to each effect, what it leaves in the journal, that a successful run is
  not repeated, and that the journal on disk survives a crash during a save.
\<close>

section \<open>Runs, seen through their reports\<close>

definition action_of :: "run_report \<Rightarrow> string \<Rightarrow> action option" where
  "action_of rep n = map_option re_action (find (\<lambda>re. re_name re = n) (rep_effects rep))"

fun fate_action :: "fate \<Rightarrow> action" where
  "fate_action (FSkipped b) = Skipped"
| "fate_action (FCached os) = Cached"
| "fate_action (FUnresolved m) = Failed"
| "fate_action (FExecuted os t) = Executed"
| "fate_action (FFailed m t) = Failed"

lemma record_of_simps [simp]:
  "re_name (record_of e d f) = e_name e" "re_id (record_of e d f) = d_id d"
  "re_action (record_of e d f) = fate_action f"
  by (cases f; simp add: initial_record_def pre_record_def)+

lemma find_report_of:
  "distinct (map e_name order) \<Longrightarrow> e \<in> set order \<Longrightarrow>
     find (\<lambda>re. re_name re = e_name e) (report_of ds F order) =
       Some (record_of e (decision_of ds e) (the (F (e_name e))))"
proof (induction order)
  case (Cons x xs)
  show ?case
  proof (cases "x = e")
    case False
    with Cons.prems have "e_name x \<noteq> e_name e" by (metis distinct.simps(2) image_eqI list.simps(9) set_ConsD set_map)
    with Cons False show ?thesis by (simp add: report_of_def)
  qed (simp add: report_of_def)
qed (simp add: report_of_def)

text \<open>Everything a successful run is known by.\<close>

lemma run_plan_Ok:
  assumes wf: "plan_wf p" and run: "run_plan c now p j reg = Ok (j', rep)"
  obtains order pr F ids where "topo_order p = Ok order" "is_topo_order p order"
    "set order = set (effects p)" "distinct (map e_name order)"
    "diff_plan c p j = Ok pr" "effect_ids c p = Ok ids" "ids_solve c (set (effects p)) ids"
    "\<And>e. e \<in> set (effects p) \<Longrightarrow> bt_get (decision_table pr) (e_name e) = Some (make_decision c j ids e)"
    "decisions_ok c (decision_table pr) j reg (set (effects p))"
    "fates_solve c (decision_table pr) j reg p F"
    "j' = push_run (journal_after c now (decision_table pr) F order j)
       \<lparr>rr_recorded_at = now '''', rr_effects = rep_effects rep, rr_edges = plan_edges p\<rparr>"
    "rep_effects rep = report_of (decision_table pr) F order"
    "\<And>e. e \<in> set (effects p) \<Longrightarrow> action_of rep (e_name e) = Some (fate_action (the (F (e_name e))))"
  using wf
proof (cases rule: run_plan_cases [of p c now j reg])
  case (ran order pr F)
  have topo: "is_topo_order p order" using topo_order_Ok [OF ran(1)] by simp
  then have dist: "distinct (map e_name order)" by (simp add: is_topo_order_def)
  have set: "set order = set (effects p)" by (rule is_topo_order_set [OF topo])
  obtain ids where ids: "effect_ids c p = Ok ids" "ids_solve c (set (effects p)) ids"
      "decisions pr = map (make_decision c j ids) order"
    using diff_plan_eq [OF wf ran(1), of c j] ran(2) by (metis plan_report.select_convs(1) res.inject(1))
  have get: "bt_get (decision_table pr) (e_name e) = Some (make_decision c j ids e)" if "e \<in> set (effects p)" for e
    using decision_table_get [OF dist _ ids(3)] that set by simp
  have ok: "decisions_ok c (decision_table pr) j reg (set (effects p))"
    using ran(3) get unfolding decisions_ok_def executors_known_def by (simp split: if_splits)
  have rep: "rep_effects rep = report_of (decision_table pr) F order"
    and j': "j' = push_run (journal_after c now (decision_table pr) F order j)
       \<lparr>rr_recorded_at = now '''', rr_effects = rep_effects rep, rr_edges = plan_edges p\<rparr>"
    using run ran(5) by auto
  have act: "action_of rep (e_name e) = Some (fate_action (the (F (e_name e))))" if "e \<in> set (effects p)" for e
    using find_report_of [OF dist, of e] that set by (simp add: action_of_def rep)
  show thesis
    using that [OF ran(1) topo set dist ran(2) ids(1,2) get ok ran(4) j' rep act] by simp
qed (use run in simp_all)

section \<open>The journal after a run\<close>

lemma entry_push_run [simp]: "entry c (push_run j r) i = entry c j i"
  by (simp add: entry_def push_run_def)

lemma is_cached_push_run [simp]: "is_cached c (push_run j r) i = is_cached c j i"
  by (simp add: is_cached_def)

lemma set_levels: "is_topo_order p order \<Longrightarrow> set (concat (levels order)) = set order"
  using levels_correct [of p order] by (metis levels_inv_def set_mset_mset)

lemma runs_of_levels:
  "is_topo_order p order \<Longrightarrow>
     set (runs_of F (concat (levels order))) = {e \<in> set (effects p). needs_run (the (F (e_name e)))}"
  using set_levels [of p order] is_topo_order_set [of p order] by (auto simp: runs_of_def)

lemma journal_after_entry:
  assumes topo: "is_topo_order p order"
  shows "if \<exists>e \<in> set (effects p). needs_run (the (F (e_name e))) \<and> decision_hex c ds e = to_hex c i
    then \<exists>e \<in> set (effects p). needs_run (the (F (e_name e))) \<and> decision_hex c ds e = to_hex c i \<and>
      entry c (journal_after c now ds F order j) i = Some (entry_of now e (the (F (e_name e))))
    else entry c (journal_after c now ds F order j) i = entry c j i"
proof -
  let ?runs = "runs_of F (concat (levels order))"
  have "(\<exists>e \<in> set (effects p). needs_run (the (F (e_name e))) \<and> decision_hex c ds e = to_hex c i) \<longleftrightarrow>
      to_hex c i \<in> decision_hex c ds ` set ?runs"
    unfolding runs_of_levels [OF topo] by (simp add: image_iff) metis
  moreover have "e \<in> set (effects p) \<and> needs_run (the (F (e_name e)))" if "e \<in> set ?runs" for e
    using that unfolding runs_of_levels [OF topo] by blast
  ultimately show ?thesis
    using put_fates_entries [of "to_hex c i" c ds ?runs now "\<lambda>e. the (F (e_name e))" j]
    unfolding entry_def journal_after_def by metis
qed

lemma journal_after_rest [simp]:
  "j_path (journal_after c now ds F order j) = j_path j"
  "runs (j_state (journal_after c now ds F order j)) = runs (j_state j)"
  by (simp_all add: journal_after_def)

lemma cached_entry_kept:
  assumes topo: "is_topo_order p order" and ok: "decisions_ok c ds j reg (set (effects p))"
    and F: "fates_solve c ds j reg p F" and cached: "is_cached c j i"
  shows "entry c (journal_after c now ds F order j) i = entry c j i"
proof -
  have "\<not> (\<exists>e \<in> set (effects p). needs_run (the (F (e_name e))) \<and> decision_hex c ds e = to_hex c i)"
  proof
    assume "\<exists>e \<in> set (effects p). needs_run (the (F (e_name e))) \<and> decision_hex c ds e = to_hex c i"
    then obtain e where e: "e \<in> set (effects p)" "needs_run (effect_fate c ds j reg F e)"
        "decision_hex c ds e = to_hex c i"
      using F by (auto simp: fates_solve_def)
    with needs_run_not_cached [OF ok e(1,2)] cached show False
      by (simp add: is_cached_def entry_def decision_hex_def)
  qed
  then show ?thesis using journal_after_entry [OF topo, of F c ds i now j] by simp
qed

lemma success_is_cached:
  assumes topo: "is_topo_order p order" and ok: "decisions_ok c ds j reg (set (effects p))"
    and F: "fates_solve c ds j reg p F"
    and succ: "\<forall>e \<in> set (effects p). fate_outputs (the (F (e_name e))) \<noteq> None"
    and e: "e \<in> set (effects p)"
  shows "is_cached c (journal_after c now ds F order j) (d_id (decision_of ds e))"
proof (cases "needs_run (the (F (e_name e)))")
  case True
  then have "\<exists>e' \<in> set (effects p). needs_run (the (F (e_name e'))) \<and>
      decision_hex c ds e' = to_hex c (d_id (decision_of ds e))"
    using e by (auto simp: decision_hex_def)
  then obtain e' where e': "e' \<in> set (effects p)" "entry c (journal_after c now ds F order j) (d_id (decision_of ds e)) =
      Some (entry_of now e' (the (F (e_name e'))))"
    using journal_after_entry [OF topo, of F c ds "d_id (decision_of ds e)" now j] by auto
  with succ show ?thesis by (simp add: is_cached_def entry_of_def)
next
  case False
  have f: "the (F (e_name e)) = effect_fate c ds j reg F e" using F e by (simp add: fates_solve_def)
  with False succ e obtain os where "effect_fate c ds j reg F e = FCached os"
    by (cases "effect_fate c ds j reg F e") auto
  then have "d_verdict (decision_of ds e) = VCached"
    using executed_fate_needs_run [of reg e]
    by (auto simp: effect_fate_def Let_def split: option.splits if_splits res.splits) (metis needs_run.simps(4))
  with ok e have "is_cached c j (d_id (decision_of ds e))" by (auto simp: decisions_ok_def)
  with cached_entry_kept [OF topo ok F this, of now] show ?thesis by (simp add: is_cached_def)
qed

lemma all_cached_fates:
  assumes order: "topo_order p = Ok order" and F: "fates_solve c ds j reg p F"
    and all: "\<forall>e \<in> set (effects p). d_verdict (decision_of ds e) = VCached"
    and e: "e \<in> set (effects p)"
  shows "\<exists>os. F (e_name e) = Some (FCached os)"
proof -
  have "e_name e \<in> set (order_names p)" using order_names_set [OF order] e by simp
  then have "\<forall>x \<in> set (effects p). e_name x = e_name e \<longrightarrow> (\<exists>os. F (e_name x) = Some (FCached os))"
  proof (induction rule: efx.listing_induct)
    case (node n)
    show ?case
    proof (intro ballI impI)
      fix x assume x: "x \<in> set (effects p)" "e_name x = n"
      have deps: "deps_of p n = effect_refs x"
        using deps_of_effect x topo_order_Ok [OF order] by metis
      have "effect_refs x \<inter> halted_names F = {}"
      proof -
        have "d \<notin> halted_names F" if "d \<in> effect_refs x" for d
        proof -
          have "d \<in> names p"
            using efx.deps_closed [OF node.hyps] that deps order_names_set [OF order] by blast
          then obtain y where "y \<in> set (effects p)" "d = e_name y" by blast
          then show ?thesis using node.IH [of d] that deps by (auto simp: halted_names_def)
        qed
        then show ?thesis by blast
      qed
      then have "first_halted_dependency x (halted_names F) = None"
        by (simp add: first_halted_dependency_None)
      then show "\<exists>os. F (e_name x) = Some (FCached os)"
        using F all x(1) by (simp add: fates_solve_def effect_fate_def)
    qed
  qed
  then show ?thesis using e by blast
qed

section \<open>Sample runs\<close>

definition sample_executor :: executor where
  "sample_executor rq =
     (if rq_name rq = ''bad'' then None
      else Some \<lparr>ex_result = Inr [(''o'', LStr (rq_name rq))], ex_duration_ms = 1\<rparr>)"

definition sample_registry :: registry where
  "sample_registry = register \<lparr>executors = []\<rparr> ''x'' sample_executor"

definition sample_journal :: journal where
  "sample_journal = \<lparr>j_path = \<lparr>p_parent = ''d'', p_file = Some ''j.json''\<rparr>, j_state = empty_state\<rparr>"

definition source_bad :: effect where
  "source_bad = sample_effect ''bad'' [(''v'', Literal (LStr ''1''))]"

definition sink_bad :: effect where
  "sink_bad = sample_effect ''s'' [(''i'', Ref \<lparr>ref_effect = ''bad'', ref_field = ''o''\<rparr>)]"

abbreviation good_plan :: plan where
  "good_plan \<equiv> \<lparr>effects = [sink_b, source_a]\<rparr>"

abbreviation bad_plan :: plan where
  "bad_plan \<equiv> \<lparr>effects = [sink_bad, source_bad]\<rparr>"

abbreviation sample_now :: "string \<Rightarrow> u64" where
  "sample_now \<equiv> (\<lambda>_. 7)"

definition sample_run :: "plan \<Rightarrow> journal \<times> run_report" where
  "sample_run p = (case run_plan sample_crates sample_now p sample_journal sample_registry of Ok r \<Rightarrow> r)"

lemma bad_plan_wf: "plan_wf bad_plan"
  by (simp add: sample_defs source_bad_def sink_bad_def plan_wf_def bt_wf_def)

lemma sample_run_good:
  "run_plan sample_crates sample_now good_plan sample_journal sample_registry = Ok (sample_run good_plan)"
  by code_simp

lemma sample_run_bad:
  "run_plan sample_crates sample_now bad_plan sample_journal sample_registry = Ok (sample_run bad_plan)"
  by code_simp

lemma sample_run_good_succeeded: "report_succeeded (snd (sample_run good_plan))"
  by code_simp

section \<open>Properties\<close>

text \<open>
  C21: the diff of a well-formed plan. It never panics and fails only with the error of the plan
  order. Otherwise there is one decision per effect, in dependency order, carrying the effect's
  identity; an effect is cached exactly when the journal holds a succeeded entry for its identity;
  and the orphans are exactly the journal entries whose identity is of no effect of the plan.
\<close>

theorem diff_plan_correct:
  assumes "plan_wf p" and "bt_wf (entries (j_state j))"
  shows "(case diff_plan c p j of
            Panic \<Rightarrow> False
          | Err x \<Rightarrow> \<exists>pe. x = PlanErr pe \<and> topo_order p = Err pe
          | Ok rep \<Rightarrow> \<exists>ids order. effect_ids c p = Ok ids \<and> topo_order p = Ok order \<and>
              map d_name (decisions rep) = map e_name order \<and>
              (\<forall>d \<in> set (decisions rep). bt_get ids (d_name d) = Some (d_id d) \<and>
                 (d_verdict d = VCached \<longleftrightarrow> is_cached c j (d_id d))) \<and>
              (\<forall>h. h \<in> o_id ` set (orphans rep) \<longleftrightarrow>
                 bt_get (entries (j_state j)) h \<noteq> None \<and> (\<forall>d \<in> set (decisions rep). to_hex c (d_id d) \<noteq> h)))"
proof (cases "topo_order p")
  case (Ok order)
  obtain ids where ids: "effect_ids c p = Ok ids" "ids_solve c (set (effects p)) ids"
      "diff_plan c p j = Ok \<lparr>decisions = map (make_decision c j ids) order,
         orphans = orphans_of c j (map (make_decision c j ids) order)\<rparr>"
    using diff_plan_eq [OF assms(1) Ok, of c j] by blast
  have "bt_get ids (e_name e) \<noteq> None" if "e \<in> set order" for e
    using that ids(2) topo_order_Ok [OF Ok] is_topo_order_set by (fastforce simp: ids_solve_def)
  then have "\<forall>e \<in> set order. bt_get ids (e_name e) = Some (the (bt_get ids (e_name e)))" by auto
  moreover have "h \<in> o_id ` set (orphans_of c j ds) \<longleftrightarrow>
      bt_get (entries (j_state j)) h \<noteq> None \<and> (\<forall>d \<in> set ds. to_hex c (d_id d) \<noteq> h)" for h ds
    using bt.keys_iff [OF assms(2), of h] by (force simp: orphans_of_def Let_def image_iff)
  ultimately show ?thesis
    using ids(1,3) Ok by simp
next
  case (Err e)
  then show ?thesis by (simp add: diff_plan_error)
qed (simp add: topo_order_not_panic)

theorem diff_plan_correct_witness:
  "(case diff_plan sample_crates good_plan sample_journal of
      Ok rep \<Rightarrow> \<exists>ids order. effect_ids sample_crates good_plan = Ok ids \<and> topo_order good_plan = Ok order \<and>
        map d_name (decisions rep) = map e_name order
    | _ \<Rightarrow> False)"
proof -
  obtain rep where "diff_plan sample_crates good_plan sample_journal = Ok rep"
    using diff_plan_eq [OF sample_wf(1) sample_order] by blast
  moreover have "bt_wf (entries (j_state sample_journal))" by (simp add: sample_journal_def empty_state_def)
  ultimately show ?thesis
    using diff_plan_correct [OF sample_wf(1), of sample_journal sample_crates] by auto
qed

text \<open>
  C20: the levels of a dependency order are a partition of the effects into waves. Every effect an
  effect refers to is in a strictly earlier wave, and every effect after the first wave refers to
  an effect of the wave just before its own, so each effect runs in the earliest possible wave.
\<close>

theorem levels_earliest:
  assumes "topo_order p = Ok order"
  shows "mset (concat (levels order)) = mset (effects p) \<and>
     (\<forall>l < length (levels order). \<forall>e \<in> set (levels order ! l).
        (\<forall>d \<in> effect_refs e. \<exists>k < l. d \<in> e_name ` set (levels order ! k)) \<and>
        (0 < l \<longrightarrow> (\<exists>d \<in> effect_refs e. d \<in> e_name ` set (levels order ! (l - 1)))))"
proof -
  have topo: "is_topo_order p order" using topo_order_Ok [OF assms] by simp
  obtain depth where inv: "levels_inv order depth (levels order)" using levels_correct [OF topo] by blast
  have lv: "bt_get depth (e_name e) = Some l \<and> (\<forall>d \<in> effect_refs e. \<exists>k < l. bt_get depth d = Some k) \<and>
      (l = 0 \<or> (\<exists>d \<in> effect_refs e. bt_get depth d = Some (l - 1)))"
    if "l < length (levels order)" "e \<in> set (levels order ! l)" for l e
    using inv that by (simp add: levels_inv_def)
  have dom: "n \<in> e_name ` set order" if "bt_get depth n = Some k" for n k
    using inv that unfolding levels_inv_def by (metis option.distinct(1))
  have at: "d \<in> e_name ` set (levels order ! k)" if "bt_get depth d = Some k" for d k
  proof -
    have "d \<in> e_name ` set order" using dom [OF that] .
    moreover have "set order = set (concat (levels order))" using set_levels [OF topo] by simp
    ultimately obtain x i where x: "i < length (levels order)" "x \<in> set (levels order ! i)" "d = e_name x"
      by (auto simp: in_set_conv_nth [of _ "levels order"])
    then have "bt_get depth d = Some i" using lv by simp
    with x that show ?thesis by auto
  qed
  have "mset (concat (levels order)) = mset (effects p)"
    using inv topo by (simp add: levels_inv_def is_topo_order_def)
  moreover have "\<exists>k < l. d \<in> e_name ` set (levels order ! k)"
    if "l < length (levels order)" "e \<in> set (levels order ! l)" "d \<in> effect_refs e" for l e d
    using lv [OF that(1,2)] that(3) at by metis
  moreover have "\<exists>d \<in> effect_refs e. d \<in> e_name ` set (levels order ! (l - 1))"
    if "l < length (levels order)" "e \<in> set (levels order ! l)" "0 < l" for l e
    using lv [OF that(1,2)] that(3) at by (metis less_irrefl)
  ultimately show ?thesis by blast
qed

theorem levels_earliest_witness:
  "levels [source_a, sink_b] = [[source_a], [sink_b]] \<and>
   mset (concat (levels [source_a, sink_b])) = mset (effects good_plan)"
  using levels_earliest [OF sample_order] by (auto simp: sample_defs levels_def level_of_def push_group_def Let_def List.map_filter_simps bt_get_insert)

text \<open>
  C25: a run of a well-formed plan never panics: none of its indexings and \<open>expect\<close>s can fail. It
  fails exactly when the plan has no dependency order, or when an effect that must execute names an
  executor that is not registered; in the second case the error names such an effect and nothing ran.
\<close>

theorem run_plan_total:
  assumes "plan_wf p"
  shows "(case run_plan c now p j reg of
            Panic \<Rightarrow> False
          | Err x \<Rightarrow> (\<exists>pe. x = PlanErr pe \<and> topo_order p = Err pe) \<or>
              (\<exists>e \<in> set (effects p). x = UnknownExecutor (e_name e) (e_executor e) \<and>
                 get_executor reg (e_executor e) = None)
          | Ok (j', rep) \<Rightarrow> \<exists>order pr. topo_order p = Ok order \<and> diff_plan c p j = Ok pr \<and>
              map re_name (rep_effects rep) = map e_name order \<and> rep_orphans rep = orphans pr)"
  using assms
proof (cases rule: run_plan_cases [of p c now j reg])
  case (ran order pr F)
  then show ?thesis by (simp add: report_of_def comp_def)
qed auto

theorem run_plan_total_witness:
  "(case run_plan sample_crates sample_now bad_plan sample_journal sample_registry of
      Panic \<Rightarrow> False | Err x \<Rightarrow> True
    | Ok (j', rep) \<Rightarrow> \<exists>order. topo_order bad_plan = Ok order \<and> map re_name (rep_effects rep) = map e_name order)"
  using run_plan_total [OF bad_plan_wf, where c = sample_crates and now = sample_now and j = sample_journal
        and reg = sample_registry]
  by (auto split: res.splits)

text \<open>
  C1: the run refines its specification. The equations that give the fate of each effect from the
  fates of what it refers to (skipped below a failure, cached by the journal, failed on a missing
  field, otherwise whatever the executor answers on the resolved inputs) have exactly one solution,
  and the report lists, in dependency order, the record of that solution, whatever the grouping
  into concurrent levels.
\<close>

theorem run_plan_refines_fates:
  assumes "plan_wf p" and "run_plan c now p j reg = Ok (j', rep)"
  shows "\<exists>order pr F. topo_order p = Ok order \<and> diff_plan c p j = Ok pr \<and>
     fates_solve c (decision_table pr) j reg p F \<and>
     (\<forall>G. fates_solve c (decision_table pr) j reg p G \<longrightarrow> G = F) \<and>
     rep_effects rep = map (\<lambda>e. record_of e (the (bt_get (decision_table pr) (e_name e))) (the (F (e_name e)))) order"
  using run_plan_Ok [OF assms] fates_solve_unique by (metis report_of_def)

theorem run_plan_refines_fates_witness:
  "\<exists>order pr F. topo_order good_plan = Ok order \<and> diff_plan sample_crates good_plan sample_journal = Ok pr \<and>
     fates_solve sample_crates (decision_table pr) sample_journal sample_registry good_plan F \<and>
     rep_effects (snd (sample_run good_plan)) =
       map (\<lambda>e. record_of e (the (bt_get (decision_table pr) (e_name e))) (the (F (e_name e)))) order"
  using run_plan_refines_fates [OF sample_wf(1),
      of sample_crates sample_now sample_journal sample_registry "fst (sample_run good_plan)" "snd (sample_run good_plan)"]
    sample_run_good by auto

text \<open>
  C12: failures propagate exactly along references. An effect is skipped if and only if some effect
  it refers to failed or was skipped; every other effect was executed, served from the journal, or
  failed itself. A skipped or failed effect never hides: the report of its name is in the result.
\<close>

theorem run_plan_skips_below_failures:
  assumes "plan_wf p" and "run_plan c now p j reg = Ok (j', rep)" and "e \<in> set (effects p)"
  shows "\<exists>a. action_of rep (e_name e) = Some a \<and>
     (a = Skipped \<longleftrightarrow>
        (\<exists>d \<in> effect_refs e. action_of rep d = Some Failed \<or> action_of rep d = Some Skipped))"
proof -
  obtain order pr F where r: "topo_order p = Ok order" "fates_solve c (decision_table pr) j reg p F"
      "\<And>e. e \<in> set (effects p) \<Longrightarrow> action_of rep (e_name e) = Some (fate_action (the (F (e_name e))))"
    using run_plan_Ok [OF assms(1,2)] by metis
  let ?f = "effect_fate c (decision_table pr) j reg F"
  have halted: "d \<in> halted_names F \<longleftrightarrow> action_of rep d = Some Failed \<or> action_of rep d = Some Skipped"
    if "d \<in> effect_refs e" for d
  proof -
    have "d \<in> names p"
      using topo_order_Ok [OF r(1)] that assms(3) by (auto simp: refs_known_def)
    then obtain x where x: "x \<in> set (effects p)" "d = e_name x" by blast
    then have "F d = Some (?f x)" using r(2) by (simp add: fates_solve_def)
    then show ?thesis
      using r(3) [OF x(1)] x(2) by (cases "?f x") (auto simp: halted_names_def)
  qed
  have f: "F (e_name e) = Some (?f e)" using r(2) assms(3) by (simp add: fates_solve_def)
  have "fate_action (?f e) = Skipped \<longleftrightarrow> effect_refs e \<inter> halted_names F \<noteq> {}"
  proof (cases "first_halted_dependency e (halted_names F)")
    case None
    then have "fate_action (?f e) \<noteq> Skipped"
      using executed_fate_needs_run [of reg e]
      by (auto simp: effect_fate_def Let_def executed_fate_def split: res.splits sum.splits)
    with None show ?thesis by (simp add: first_halted_dependency_None)
  next
    case (Some b)
    then show ?thesis
      using first_halted_dependency_Some [OF Some] by (auto simp: effect_fate_def)
  qed
  then show ?thesis
    using r(3) [OF assms(3)] f halted by auto
qed

theorem run_plan_skips_below_failures_witness:
  "action_of (snd (sample_run bad_plan)) ''bad'' = Some Failed \<and>
   (\<exists>a. action_of (snd (sample_run bad_plan)) (e_name sink_bad) = Some a \<and> a = Skipped)"
proof -
  have "action_of (snd (sample_run bad_plan)) ''bad'' = Some Failed" by code_simp
  moreover have "''bad'' \<in> effect_refs sink_bad"
    by (simp add: effect_refs_def sink_bad_def sample_effect_def)
  ultimately show ?thesis
    using run_plan_skips_below_failures [OF bad_plan_wf,
        of sample_crates sample_now sample_journal sample_registry "fst (sample_run bad_plan)"
          "snd (sample_run bad_plan)" sink_bad] sample_run_bad
    by auto
qed



text \<open>
  C8: a successful run is not repeated. When a run of a well-formed plan ends with every effect
  executed or cached, the next diff against the journal it leaves finds every effect cached, and the
  next run, with any registry (even an empty one) and at any time, succeeds and executes nothing.
\<close>

theorem run_plan_idempotent:
  assumes "plan_wf p" and "run_plan c now p j reg = Ok (j', rep)" and "report_succeeded rep"
  shows "(\<exists>pr. diff_plan c p j' = Ok pr \<and> (\<forall>d \<in> set (decisions pr). d_verdict d = VCached)) \<and>
     (\<exists>j'' rep'. run_plan c now' p j' reg' = Ok (j'', rep') \<and>
        (\<forall>re \<in> set (rep_effects rep'). re_action re = Cached))"
proof -
  obtain order pr F ids where r: "topo_order p = Ok order" "is_topo_order p order" "set order = set (effects p)"
      "distinct (map e_name order)" "effect_ids c p = Ok ids"
      "\<And>e. e \<in> set (effects p) \<Longrightarrow> bt_get (decision_table pr) (e_name e) = Some (make_decision c j ids e)"
      "decisions_ok c (decision_table pr) j reg (set (effects p))"
      "fates_solve c (decision_table pr) j reg p F"
      "j' = push_run (journal_after c now (decision_table pr) F order j)
         \<lparr>rr_recorded_at = now '''', rr_effects = rep_effects rep, rr_edges = plan_edges p\<rparr>"
      "rep_effects rep = report_of (decision_table pr) F order"
    using run_plan_Ok [OF assms(1,2)] by metis
  have "fate_outputs (the (F (e_name e))) \<noteq> None" if "e \<in> set (effects p)" for e
  proof -
    have "fate_action (the (F (e_name e))) = Executed \<or> fate_action (the (F (e_name e))) = Cached"
      using assms(3) that r(3,10) by (simp add: report_succeeded_def list_all_iff report_of_def)
    then show ?thesis by (cases "the (F (e_name e))") auto
  qed
  then have cached: "is_cached c j' (the (bt_get ids (e_name e)))" if "e \<in> set (effects p)" for e
    using success_is_cached [OF r(2,7,8) _ that, of now] r(6) [OF that] r(9) by simp
  obtain pr' where pr': "diff_plan c p j' = Ok pr'" "decisions pr' = map (make_decision c j' ids) order"
    using diff_plan_eq [OF assms(1) r(1), of c j'] r(5) by (metis plan_report.select_convs(1) res.inject(1))
  have all: "\<forall>e \<in> set (effects p). d_verdict (decision_of (decision_table pr') e) = VCached"
    using decision_table_get [OF r(4) _ pr'(2)] cached r(3) by simp
  then have "executors_known (decision_table pr') reg' p" by (simp add: executors_known_def)
  then obtain F' where F': "fates_solve c (decision_table pr') j' reg' p F'"
      "\<exists>j''. run_plan c now' p j' reg' = Ok (j'', \<lparr>rep_effects = report_of (decision_table pr') F' order,
         rep_orphans = orphans pr'\<rparr>)"
    using run_plan_fates [OF assms(1) r(1) pr'(1) refl, of reg' now'] by blast
  have "\<forall>e \<in> set order. fate_action (the (F' (e_name e))) = Cached"
    using all_cached_fates [OF r(1) F'(1) all] r(3) by fastforce
  then show ?thesis
    using F'(2) pr' cached r(3) by (auto simp: report_of_def)
qed

theorem run_plan_idempotent_witness:
  "\<exists>j'' rep'. run_plan sample_crates sample_now good_plan (fst (sample_run good_plan)) \<lparr>executors = []\<rparr> = Ok (j'', rep') \<and>
      (\<forall>re \<in> set (rep_effects rep'). re_action re = Cached)"
  using run_plan_idempotent [OF sample_wf(1), where now' = sample_now and reg' = "\<lparr>executors = []\<rparr>", 
      of sample_crates sample_now sample_journal sample_registry "fst (sample_run good_plan)" "snd (sample_run good_plan)"]
    sample_run_good sample_run_good_succeeded by simp

section \<open>The journal on disk\<close>

definition tmp_path :: "journal \<Rightarrow> path" where
  "tmp_path j = with_extension (j_path j) ''json.tmp''"

text \<open>
  The disks a crash during a save can leave: nothing happened yet; the temporary file holds some
  prefix of the document; the save finished.
\<close>

inductive crash_disk :: "codec \<Rightarrow> disk \<Rightarrow> journal \<Rightarrow> disk \<Rightarrow> bool" for k d j where
  untouched: "crash_disk k d j d"
| partial: "tmp_path j \<notin> unwritable d \<Longrightarrow> prefix bytes (state_to_json k (j_state j)) \<Longrightarrow>
     crash_disk k d j (d\<lparr>files := (files d)(tmp_path j := Some bytes)\<rparr>)"
| finished: "crash_disk k d j (fst (save k d j))"

lemma file_stem_tmp: "file_stem f @ ''.json.tmp'' \<noteq> f"
proof
  assume eq: "file_stem f @ ''.json.tmp'' = f"
  let ?before = "rev (tl (dropWhile (\<lambda>ch. ch \<noteq> CHR ''.'') (rev f)))"
  have "rev (tl (dropWhile (\<lambda>ch. ch \<noteq> CHR ''.'') (rev (g @ ''.json.tmp'')))) = g @ ''.json''" for g
    by simp
  from this [of "file_stem f"] have before: "?before = file_stem f @ ''.json''" by (simp only: eq)
  have "file_stem f = f \<or> file_stem f = ?before" by (simp add: file_stem_def Let_def)
  then show False
  proof
    assume "file_stem f = f"
    with eq show False by simp
  next
    assume "file_stem f = ?before"
    with before show False by simp
  qed
qed

lemma tmp_path_other: "p_file (j_path j) \<noteq> None \<Longrightarrow> tmp_path j \<noteq> j_path j"
  by (cases "j_path j") (auto simp: tmp_path_def with_extension_def file_stem_tmp)

lemma load_cong:
  "files d p = files d' p \<Longrightarrow> unreadable d = unreadable d' \<Longrightarrow> load k d p = load k d' p"
  by (simp add: load_def)

lemma save_cases:
  assumes "p_file (j_path j) \<noteq> None"
  shows "unreadable (fst (save k d j)) = unreadable d \<and>
     (if snd (save k d j) = Ok ()
      then files (fst (save k d j)) (j_path j) = Some (state_to_json k (j_state j))
      else files (fst (save k d j)) (j_path j) = files d (j_path j)) \<and>
     (\<forall>q. q \<noteq> j_path j \<longrightarrow> q \<noteq> tmp_path j \<longrightarrow> files (fst (save k d j)) q = files d q)"
  using tmp_path_other [OF assms]
  by (auto simp: save_def fs_write_def fs_rename_def tmp_path_def Let_def)


definition sample_codec :: codec where
  "sample_codec = \<lparr>state_to_json = (\<lambda>s. if s = empty_state then ''{}'' else ''x''),
     state_of_json = (\<lambda>b. if b = ''{}'' then Some empty_state else None)\<rparr>"

definition sample_disk :: disk where
  "sample_disk = \<lparr>files = (\<lambda>_. None), unreadable = {}, unwritable = {}\<rparr>"



definition run_codec :: codec where
  "run_codec = \<lparr>state_to_json = (\<lambda>_. ''{}''), state_of_json = (\<lambda>_. Some (j_state (fst (sample_run good_plan))))\<rparr>"


end
