(* ===== verification/Byte_Text.thy ===== *)
theory Byte_Text
  imports Index_Prelude
begin

text \<open>
  Bytes and text of the standard library: the byte view of a string, the UTF-8 test that
  \<^verbatim>\<open>String::from_utf8\<close> performs, big-endian bytes of machine words, and readers over byte
  slices. A string value of Rust always holds valid UTF-8; \<open>utf8\<close> is that invariant.
\<close>

unbundle bit_operations_syntax

type_synonym bytes = "u8 list"
type_synonym u16 = "16 word"
type_synonym i32 = "32 word"

definition as_bytes :: "string \<Rightarrow> bytes" where
  "as_bytes s = map (\<lambda>c. word_of_nat (of_char c)) s"

definition chars_of_bytes :: "bytes \<Rightarrow> string" where
  "chars_of_bytes bs = map (\<lambda>b. char_of (unat b)) bs"

lemma chars_of_as_bytes [simp]: "chars_of_bytes (as_bytes s) = s"
proof -
  have "char_of (unat (word_of_nat (of_char c) :: u8)) = c" for c
    using nat_of_char_less_256 [of c] by (simp add: unat_of_nat take_bit_nat_eq_self)
  then show ?thesis by (simp add: chars_of_bytes_def as_bytes_def comp_def)
qed

lemma as_bytes_of_chars [simp]: "as_bytes (chars_of_bytes bs) = bs"
proof -
  have "word_of_nat (of_char (char_of (unat b))) = b" for b :: u8
    using unsigned_less [of b, where ?'a = nat] by (simp add: of_char_of)
  then show ?thesis by (simp add: chars_of_bytes_def as_bytes_def comp_def)
qed

lemma length_as_bytes [simp]: "length (as_bytes s) = length s"
  by (simp add: as_bytes_def)

section \<open>UTF-8\<close>

definition cont :: "nat \<Rightarrow> bool" where
  "cont b \<longleftrightarrow> 128 \<le> b \<and> b \<le> 191"

text \<open>The well-formed byte sequences of the Unicode standard, by the first byte.\<close>

fun utf8_codes :: "nat list \<Rightarrow> bool" where
  "utf8_codes [] \<longleftrightarrow> True"
| "utf8_codes (a # bs) \<longleftrightarrow>
     (if a < 128 then utf8_codes bs
      else if 194 \<le> a \<and> a \<le> 223 then (case bs of b # bs' \<Rightarrow> cont b \<and> utf8_codes bs' | _ \<Rightarrow> False)
      else if 224 \<le> a \<and> a \<le> 239 then
        (case bs of b # c # bs' \<Rightarrow>
           cont b \<and> cont c \<and> (a = 224 \<longrightarrow> 160 \<le> b) \<and> (a = 237 \<longrightarrow> b \<le> 159) \<and> utf8_codes bs' | _ \<Rightarrow> False)
      else if 240 \<le> a \<and> a \<le> 244 then
        (case bs of b # c # d # bs' \<Rightarrow>
           cont b \<and> cont c \<and> cont d \<and> (a = 240 \<longrightarrow> 144 \<le> b) \<and> (a = 244 \<longrightarrow> b \<le> 143) \<and> utf8_codes bs' | _ \<Rightarrow> False)
      else False)"

definition utf8 :: "string \<Rightarrow> bool" where
  "utf8 s \<longleftrightarrow> utf8_codes (map of_char s)"

lemma utf8_Nil [simp]: "utf8 []"
  by (simp add: utf8_def)

lemma utf8_ascii: "(\<forall>c \<in> set s. (of_char c :: nat) < 128) \<Longrightarrow> utf8 s"
  unfolding utf8_def by (induction s) simp_all

text \<open>\<^verbatim>\<open>String::from_utf8\<close>.\<close>

definition from_utf8 :: "bytes \<Rightarrow> string option" where
  "from_utf8 bs = (let s = chars_of_bytes bs in if utf8 s then Some s else None)"

lemma from_utf8_as_bytes [simp]: "from_utf8 (as_bytes s) = (if utf8 s then Some s else None)"
  by (simp add: from_utf8_def)

lemma from_utf8_Some: "from_utf8 bs = Some s \<longleftrightarrow> bs = as_bytes s \<and> utf8 s"
  by (auto simp: from_utf8_def Let_def)

section \<open>Characters\<close>

definition utf8_len :: "char \<Rightarrow> nat" where
  "utf8_len c = (let n = (of_char c :: nat) in if n < 128 then 1 else if n < 224 then 2 else if n < 240 then 3 else 4)"

text \<open>\<^verbatim>\<open>chars().next()\<close>: the bytes of the first character.\<close>

definition next_char :: "string \<Rightarrow> string option" where
  "next_char s = (case s of [] \<Rightarrow> None | c # _ \<Rightarrow> Some (take (utf8_len c) s))"

lemma next_char_nonempty: "next_char s = Some ch \<Longrightarrow> 0 < length ch"
  by (auto simp: next_char_def utf8_len_def Let_def split: list.splits if_splits)

text \<open>\<^verbatim>\<open>str::chars\<close>, each character as its bytes.\<close>

function chars :: "string \<Rightarrow> string list" where
  "chars s = (case next_char s of None \<Rightarrow> [] | Some ch \<Rightarrow> ch # chars (drop (length ch) s))"
  by pat_completeness auto

termination
proof (relation "measure length", goal_cases)
  case (2 s ch)
  then show ?case using next_char_nonempty [of s ch] by (cases s) (auto simp: next_char_def)
qed simp

declare chars.simps [simp del]

lemma concat_chars: "concat (chars s) = s"
proof (induction s rule: chars.induct)
  case (1 s)
  show ?case
  proof (cases "next_char s")
    case None
    then show ?thesis by (simp add: chars.simps [of s] next_char_def split: list.splits)
  next
    case (Some ch)
    then have "ch = take (length ch) s" by (auto simp: next_char_def min_def split: list.splits)
    with 1 [OF Some] show ?thesis by (simp add: chars.simps [of s] Some) (metis append_take_drop_id)
  qed
qed

section \<open>Big-endian bytes\<close>

definition be_bytes :: "nat \<Rightarrow> nat \<Rightarrow> bytes" where
  "be_bytes k n = map (\<lambda>i. word_of_nat (n div 256 ^ (k - 1 - i))) [0..<k]"

definition be_value :: "bytes \<Rightarrow> nat" where
  "be_value bs = foldl (\<lambda>n b. 256 * n + unat b) 0 bs"

lemma length_be_bytes [simp]: "length (be_bytes k n) = k"
  by (simp add: be_bytes_def)

lemma be_bytes_Suc: "be_bytes (Suc k) n = be_bytes k (n div 256) @ [word_of_nat n]"
proof -
  have "map (\<lambda>i. word_of_nat (n div 256 ^ (k - i)) :: u8) [0..<k] = be_bytes k (n div 256)"
    unfolding be_bytes_def
    by (intro map_cong) (auto simp: div_mult2_eq [symmetric] power_Suc [symmetric] Suc_diff_Suc simp del: power_Suc)
  then show ?thesis by (simp add: be_bytes_def)
qed

lemma be_value_snoc [simp]: "be_value (bs @ [b]) = 256 * be_value bs + unat b"
  by (simp add: be_value_def)

lemma be_value_be_bytes: "n < 256 ^ k \<Longrightarrow> be_value (be_bytes k n) = n"
proof (induction k arbitrary: n)
  case 0
  then show ?case by (simp add: be_bytes_def be_value_def)
next
  case (Suc k)
  then have "n div 256 < 256 ^ k" by (simp add: less_mult_imp_div_less)
  with Suc.IH show ?case
    by (simp add: be_bytes_Suc unat_of_nat take_bit_nat_def)
qed

section \<open>Reading from byte slices\<close>

datatype io_kind = InvalidData | InvalidInput | UnexpectedEof | TimedOut | WouldBlock | AddrNotAvailable | OtherKind

record io_error =
  err_kind :: io_kind
  err_message :: string

definition io_err :: "io_kind \<Rightarrow> string \<Rightarrow> io_error" where
  "io_err k m = \<lparr>err_kind = k, err_message = m\<rparr>"

lemma err_kind_io_err [simp]: "err_kind (io_err k m) = k"
  by (simp add: io_err_def)

text \<open>
  \<^verbatim>\<open>read_exact\<close>: the wanted bytes and the remaining ones, or the error \<open>eof\<close> the reader gives when
  it has no more bytes (\<open>UnexpectedEof\<close> for slices and closed sockets, a time-out for quiet ones).
\<close>

definition read_exact :: "io_error \<Rightarrow> nat \<Rightarrow> bytes \<Rightarrow> (io_error, bytes \<times> bytes) res" where
  "read_exact eof n bs = (if length bs < n then Err eof else Ok (take n bs, drop n bs))"

definition slice_eof :: io_error where
  "slice_eof = io_err UnexpectedEof ''failed to fill whole buffer''"

lemma read_exact_append [simp]: "read_exact eof (length xs) (xs @ ys) = Ok (xs, ys)"
  by (simp add: read_exact_def)

lemma read_exact_Ok: "read_exact eof n bs = Ok (xs, ys) \<longleftrightarrow> bs = xs @ ys \<and> length xs = n"
  by (auto simp: read_exact_def)

lemma read_exact_not_panic [simp]: "read_exact eof n bs \<noteq> Panic"
  by (simp add: read_exact_def)

text \<open>\<^verbatim>\<open>i32::try_from(usize)\<close> and \<^verbatim>\<open>usize::try_from(i32)\<close>.\<close>

definition i32_of_len :: "nat \<Rightarrow> i32 option" where
  "i32_of_len n = (if n < 2 ^ 31 then Some (word_of_nat n) else None)"

definition usize_of_i32 :: "i32 \<Rightarrow> nat option" where
  "usize_of_i32 w = (if sint w < 0 then None else Some (unat w))"

lemma usize_of_i32_Some: "usize_of_i32 w = Some n \<longleftrightarrow> n < 2 ^ 31 \<and> w = word_of_nat n"
proof -
  have "sint w < 0 \<longleftrightarrow> 2 ^ 31 \<le> unat w"
  proof -
    have "sint w < 0 \<longleftrightarrow> bit (uint w) 31" by (simp add: sint_uint signed_take_bit_negative_iff)
    also have "\<dots> \<longleftrightarrow> odd (uint w div 2 ^ 31)" by (rule bit_iff_odd)
    also have "\<dots> \<longleftrightarrow> 2 ^ 31 \<le> uint w"
    proof (cases "uint w < 2 ^ 31")
      case False
      then have "uint w div 2 ^ 31 = 1" using uint_bounded [of w] by (simp add: div_pos_geq)
      with False show ?thesis by simp
    qed (simp add: div_pos_pos_trivial)
    also have "\<dots> \<longleftrightarrow> 2 ^ 31 \<le> unat w" 
    proof -
      have "(2 ^ 31 :: int) \<le> int n \<longleftrightarrow> 2 ^ 31 \<le> n" for n
        by (metis of_nat_le_iff of_nat_numeral of_nat_power)
      then show ?thesis unfolding uint_nat .
    qed
    finally show ?thesis .
  qed
  then show ?thesis
    by (auto simp: usize_of_i32_def unat_of_nat take_bit_nat_eq_self)
qed

end
