(* ===== verification/Mc_Wire.thy ===== *)
theory Mc_Wire
  imports Byte_Text
begin

text \<open>
  The wire primitives of \<^verbatim>\<open>packages/minecraft/protocol\<close>: variable-length integers, length-prefixed
  frames and strings, on machine words. A reader is the list of bytes still to come together with
  the error it fails with at its end; a writer appends to a byte list.
\<close>

unbundle bit_operations_syntax

section \<open>Addresses and hexadecimal numbers\<close>

text \<open>The \<^verbatim>\<open>ServerAddress\<close> that the bot and the server list ping connect to.\<close>

record server_address =
  sa_host :: string
  sa_port :: u16

text \<open>The lower-case digits of \<^verbatim>\<open>{:x}\<close>; a negative number shows its bit pattern.\<close>

definition hex_digit :: "nat \<Rightarrow> char" where
  "hex_digit d = (if d < 10 then char_of (48 + d) else char_of (87 + d))"

fun show_hex :: "nat \<Rightarrow> string" where
  "show_hex n = (if n < 16 then [hex_digit n] else show_hex (n div 16) @ [hex_digit (n mod 16)])"

declare show_hex.simps [simp del]

section \<open>Codecs that leave the rest of the input\<close>

text \<open>
  The contract the packet code relies on: decoding what was encoded gives the value back and leaves
  exactly the bytes that follow.
\<close>

locale wire_codec =
  fixes enc :: "'a \<Rightarrow> bytes"
    and dec :: "bytes \<Rightarrow> (io_error, 'a \<times> bytes) res"
    and valid :: "'a \<Rightarrow> bool"
  assumes dec_enc: "valid x \<Longrightarrow> dec (enc x @ rest) = Ok (x, rest)"
begin

lemma dec_enc_end: "valid x \<Longrightarrow> dec (enc x) = Ok (x, [])"
  using dec_enc [of x "[]"] by simp

lemma enc_prefix_free: "valid x \<Longrightarrow> valid y \<Longrightarrow> enc x @ r = enc y @ s \<Longrightarrow> x = y \<and> r = s"
  by (metis dec_enc prod.inject res.inject(1))

lemma enc_inj: "valid x \<Longrightarrow> valid y \<Longrightarrow> enc x = enc y \<Longrightarrow> x = y"
  using enc_prefix_free [of x y "[]" "[]"] by simp

text \<open>A stream of encoded values is read back one value after the other.\<close>

lemma dec_stream:
  "\<forall>x \<in> set (xs @ y # ys). valid x \<Longrightarrow>
     \<exists>tail. concat (map enc (xs @ y # ys)) = concat (map enc xs) @ tail \<and>
       dec tail = Ok (y, concat (map enc ys))"
  using dec_enc [of y "concat (map enc ys)"] by simp

end

section \<open>Variable-length integers\<close>

definition MAX_VARINT_LEN :: nat where
  "MAX_VARINT_LEN = 5"

definition low7 :: "u32 \<Rightarrow> u8" where
  "low7 w = ucast (w AND 0x7F)"

lemma drop_bit_7_less: "drop_bit 7 w \<noteq> 0 \<Longrightarrow> unat (drop_bit 7 w) < unat (w :: u32)"
proof -
  assume "drop_bit 7 w \<noteq> 0"
  then have "unat w \<noteq> 0" by (auto simp: unat_eq_zero)
  moreover have "unat (drop_bit 7 w) = unat w div 2 ^ 7" by (subst unat_drop_bit_eq) (rule drop_bit_eq_div)
  ultimately show ?thesis by simp
qed

text \<open>The loop of \<^verbatim>\<open>write_varint\<close> on the unsigned bit pattern.\<close>

function varint_loop :: "bytes \<Rightarrow> u32 \<Rightarrow> bytes" where
  "varint_loop out rest =
     (let byte = low7 rest; rest' = drop_bit 7 rest
      in if rest' = 0 then out @ [byte] else varint_loop (out @ [byte OR 0x80]) rest')"
  by pat_completeness auto

termination
  by (relation "measure (\<lambda>(out, rest). unat rest)") (auto dest: drop_bit_7_less)

declare varint_loop.simps [simp del]

definition write_varint :: "bytes \<Rightarrow> i32 \<Rightarrow> bytes" where
  "write_varint out v = varint_loop out v"

fun read_varint_loop :: "io_error \<Rightarrow> nat \<Rightarrow> nat \<Rightarrow> u32 \<Rightarrow> bytes \<Rightarrow> (io_error, i32 \<times> bytes) res" where
  "read_varint_loop eof 0 shift value bs = Err (io_err InvalidData ''VarInt exceeds 5 bytes'')"
| "read_varint_loop eof (Suc k) shift value bs =
     bind_res (read_exact eof 1 bs) (\<lambda>(b, bs').
       let byte = hd b;
           value' = value OR push_bit (7 * shift) (ucast (byte AND 0x7F))
       in if byte AND 0x80 = 0 then Ok (value', bs') else read_varint_loop eof k (Suc shift) value' bs')"

definition read_varint :: "io_error \<Rightarrow> bytes \<Rightarrow> (io_error, i32 \<times> bytes) res" where
  "read_varint eof bs = read_varint_loop eof MAX_VARINT_LEN 0 0 bs"

section \<open>Frames\<close>

definition write_frame :: "bytes \<Rightarrow> (io_error, bytes) res" where
  "write_frame payload =
     (case i32_of_len (length payload) of
        None \<Rightarrow> Err (io_err InvalidData ''packet too long'')
      | Some n \<Rightarrow> Ok (write_varint [] n @ payload))"

definition read_frame :: "io_error \<Rightarrow> nat \<Rightarrow> bytes \<Rightarrow> (io_error, bytes \<times> bytes) res" where
  "read_frame eof max_len bs =
     bind_res (read_varint eof bs) (\<lambda>(n, bs').
       case usize_of_i32 n of
         None \<Rightarrow> Err (io_err InvalidData ''negative frame length'')
       | Some len \<Rightarrow>
           if max_len < len
           then Err (io_err InvalidData
             (''frame of '' @ show_nat len @ '' bytes exceeds limit of '' @ show_nat max_len))
           else read_exact eof len bs')"

section \<open>Strings\<close>

text \<open>Writing a string of more than \<^verbatim>\<open>i32::MAX\<close> bytes panics.\<close>

definition write_string :: "bytes \<Rightarrow> string \<Rightarrow> ('e, bytes) res" where
  "write_string out s =
     bind_res (expect_some (i32_of_len (length s))) (\<lambda>n. Ok (write_varint out n @ as_bytes s))"

definition read_string :: "io_error \<Rightarrow> nat \<Rightarrow> bytes \<Rightarrow> (io_error, string \<times> bytes) res" where
  "read_string eof max_len bs =
     bind_res (read_varint eof bs) (\<lambda>(n, bs').
       case usize_of_i32 n of
         None \<Rightarrow> Err (io_err InvalidData ''negative string length'')
       | Some len \<Rightarrow>
           if max_len < len
           then Err (io_err InvalidData
             (''string of '' @ show_nat len @ '' bytes exceeds limit of '' @ show_nat max_len))
           else bind_res (read_exact eof len bs') (\<lambda>(b, rest).
             case from_utf8 b of
               Some s \<Rightarrow> Ok (s, rest)
             | None \<Rightarrow> Err (io_err InvalidData ''string is not UTF-8'')))"

section \<open>Variable-length integers: round trip and size\<close>

lemma bit_7F: "bit (0x7F :: u32) i \<longleftrightarrow> i < 7" "bit (0x7F :: u8) i \<longleftrightarrow> i < 7"
proof -
  have "(0x7F :: u32) = mask 7" "(0x7F :: u8) = mask 7" by (simp_all add: mask_eq_exp_minus_1)
  then show "bit (0x7F :: u32) i \<longleftrightarrow> i < 7" "bit (0x7F :: u8) i \<longleftrightarrow> i < 7"
    by (auto simp only: bit_mask_iff possible_bit_word) simp_all
qed

lemma bit_80: "bit (0x80 :: u8) i \<longleftrightarrow> i = 7"
proof -
  have "(0x80 :: u8) = 2 ^ 7" by simp
  then show ?thesis by (auto simp only: bit_exp_iff possible_bit_word) simp
qed

lemma bit_low7: "bit (low7 w) i \<longleftrightarrow> i < 7 \<and> bit w i"
  unfolding low7_def by (simp only: bit_ucast_iff bit_and_iff bit_7F possible_bit_word) auto

lemmas group_bits = bit_ucast_iff bit_and_iff bit_or_iff bit_7F bit_80 bit_low7 bit_take_bit_iff possible_bit_word

lemma low7_payload:
  "(ucast (low7 w AND 0x7F) :: u32) = take_bit 7 w"
  "(ucast ((low7 w OR 0x80) AND 0x7F) :: u32) = take_bit 7 w"
  by (rule bit_eqI, simp only: group_bits, auto)+

lemma low7_stop: "low7 w AND 0x80 = 0" "(low7 w OR 0x80) AND 0x80 \<noteq> 0"
proof -
  show "low7 w AND 0x80 = 0"
    by (rule bit_eqI) (simp only: group_bits bit_0_eq bot_apply, auto)
  have "bit ((low7 w OR 0x80) AND 0x80) 7" by (simp only: group_bits) simp
  then show "(low7 w OR 0x80) AND 0x80 \<noteq> 0" by auto
qed

lemma varint_loop_append: "varint_loop (out @ out') w = out @ varint_loop out' w"
proof (induction out' w rule: varint_loop.induct)
  case (1 out' w)
  then show ?case
    by (subst (1 2) varint_loop.simps) (simp add: Let_def)
qed

lemma write_varint_append: "write_varint out v = out @ write_varint [] v"
  using varint_loop_append [of out "[]" v] by (simp add: write_varint_def)

text \<open>Reading the low groups of \<open>v\<close> from group \<open>s\<close> on, with the groups below already collected.\<close>

lemma take_bit_step: "take_bit n v OR push_bit n (take_bit m (drop_bit n v)) = take_bit (n + m) (v :: 'a :: len word)"
  by (rule bit_eqI) (auto simp: bit_simps)

lemma drop_bit_35 [simp]: "35 \<le> n \<Longrightarrow> drop_bit n (v :: u32) = 0"
proof (rule bit_eqI)
  fix i assume "35 \<le> n"
  then show "bit (drop_bit n v) i \<longleftrightarrow> bit (0 :: u32) i"
    using bit_imp_le_length [of v "n + i"] by (auto simp: bit_simps)
qed

lemma read_varint_loop_write:
  assumes "s < 5"
  shows "read_varint_loop eof (5 - s) s (take_bit (7 * s) v) (varint_loop [] (drop_bit (7 * s) v) @ tail) = Ok (v, tail)"
  using assms
proof (induction "5 - s" arbitrary: s)
  case (Suc k)
  then obtain k' where k: "5 - s = Suc k'" and k': "k' = 5 - Suc s" by simp
  define N where "N = 7 * Suc s"
  let ?w = "drop_bit (7 * s) v"
  have step: "take_bit (7 * s) v OR push_bit (7 * s) (take_bit 7 ?w) = take_bit N v"
    using take_bit_step [of "7 * s" v 7] by (simp add: N_def add.commute)
  have next_w: "drop_bit 7 ?w = drop_bit N v" by (simp add: N_def drop_bit_drop_bit add.commute)
  show ?case
  proof (cases "drop_bit N v = 0")
    case True
    then have "take_bit N v = v"
      using bits_ident [of N v] by simp
    with True step next_w show ?thesis
      by (simp add: varint_loop.simps [of "[]" ?w] Let_def k read_exact_def low7_payload low7_stop)
  next
    case False
    have "\<not> 35 \<le> N"
    proof
      assume "35 \<le> N"
      then have "drop_bit N v = 0" by (rule drop_bit_35)
      with False show False ..
    qed
    then have "Suc s < 5" by (simp add: N_def)
    with Suc.hyps(1) [of "Suc s"] Suc.hyps(2) k k' have
      "read_varint_loop eof k' (Suc s) (take_bit N v) (varint_loop [] (drop_bit N v) @ tail) = Ok (v, tail)"
      by (simp add: N_def)
    with False step next_w show ?thesis
      by (simp add: varint_loop.simps [of "[]" ?w] Let_def k read_exact_def low7_payload low7_stop
          varint_loop_append [of "[_]" "[]", simplified])
  qed
qed simp

lemma read_write_varint: "read_varint eof (write_varint [] v @ tail) = Ok (v, tail)"
  using read_varint_loop_write [of 0 eof v tail] by (simp add: read_varint_def write_varint_def MAX_VARINT_LEN_def)

interpretation varint: wire_codec "write_varint []" "read_varint eof" "\<lambda>_. True" for eof
  by unfold_locales (rule read_write_varint)

lemma unat_drop_7: "unat (drop_bit 7 (w :: u32)) = unat w div 128"
  by (subst unat_drop_bit_eq) (simp add: drop_bit_eq_div)

lemma length_varint_loop: "length (varint_loop out w) = length out + length (varint_loop [] w)"
  using varint_loop_append [of out "[]" w] by simp

lemma varint_length_step:
  "length (varint_loop [] w) = (if drop_bit 7 w = 0 then 1 else Suc (length (varint_loop [] (drop_bit 7 w))))"
  by (simp only: varint_loop.simps [of "[]" w] Let_def length_varint_loop [of "[] @ [_]"] split: if_splits) simp

lemma varint_length_nonzero: "0 < length (varint_loop [] w)"
  by (subst varint_length_step) simp

lemma drop_7_zero: "drop_bit 7 (w :: u32) = 0 \<longleftrightarrow> unat w < 128"
  using unat_drop_7 [of w] by (metis div_eq_0_iff unat_eq_zero zero_neq_numeral)

text \<open>An integer takes at most \<open>k\<close> bytes exactly when it has at most \<open>7 k\<close> bits.\<close>

lemma varint_length_iff: "length (varint_loop [] w) \<le> Suc k \<longleftrightarrow> unat w < 128 ^ Suc k"
proof (induction k arbitrary: w)
  case 0
  then show ?case
    using varint_length_nonzero [of "drop_bit 7 w"] drop_7_zero [of w]
    by (simp add: varint_length_step [of w])
next
  case (Suc k)
  show ?case
  proof (cases "drop_bit 7 w = 0")
    case True
    then have "unat w < 128" by (simp add: drop_7_zero)
    also have "128 \<le> (128 :: nat) ^ Suc (Suc k)" by simp
    finally show ?thesis using True by (simp only: varint_length_step [of w]) simp
  next
    case False
    then have "length (varint_loop [] w) \<le> Suc (Suc k) \<longleftrightarrow> unat w div 128 < 128 ^ Suc k"
      using Suc.IH [of "drop_bit 7 w"] by (simp only: unat_drop_7 varint_length_step [of w]) simp
    also have "\<dots> \<longleftrightarrow> unat w < 128 ^ Suc (Suc k)"
      by (simp add: div_less_iff_less_mult mult.commute)
    finally show ?thesis .
  qed
qed

lemma varint_length_le_5: "length (write_varint [] v) \<le> 5"
proof -
  have "unat v < 2 ^ 32" using unsigned_less [of v, where ?'a = nat] by simp
  also have "\<dots> \<le> 128 ^ Suc 4" by simp
  finally show ?thesis using varint_length_iff [of v 4] by (simp add: write_varint_def)
qed

section \<open>What a reader consumes\<close>

lemma read_varint_loop_consumes:
  "read_varint_loop eof k s a bs = Ok (v, rest) \<Longrightarrow>
     \<exists>used. bs = used @ rest \<and> 0 < length used \<and> length used \<le> k"
proof (induction k arbitrary: s a bs)
  case (Suc k)
  then obtain b bs' where r: "bs = b @ bs'" "length b = 1"
    by (auto simp: res_simps read_exact_Ok split: prod.splits if_splits)
  show ?case
  proof (cases "hd b AND 0x80 = 0")
    case True
    with Suc.prems r have "bs' = rest" by (simp add: read_exact_def Let_def)
    with r show ?thesis by auto
  next
    case False
    with Suc.prems r obtain s' a' where "read_varint_loop eof k s' a' bs' = Ok (v, rest)"
      by (auto simp: read_exact_def Let_def)
    from Suc.IH [OF this] r show ?thesis
      by (metis append.assoc length_append add_less_cancel_left Suc_le_mono plus_1_eq_Suc zero_less_Suc)
  qed
qed simp

lemma read_varint_consumes:
  "read_varint eof bs = Ok (v, rest) \<Longrightarrow> \<exists>used. bs = used @ rest \<and> 0 < length used \<and> length used \<le> 5"
  using read_varint_loop_consumes by (auto simp: read_varint_def MAX_VARINT_LEN_def)

lemma read_varint_loop_not_panic [simp]: "read_varint_loop eof k s a bs \<noteq> Panic"
  by (induction k arbitrary: s a bs) (auto simp: res_simps Let_def split: if_splits)

lemma read_varint_not_panic [simp]: "read_varint eof bs \<noteq> Panic"
  by (simp add: read_varint_def)

lemma read_frame_not_panic [simp]: "read_frame eof m bs \<noteq> Panic"
  by (auto simp: read_frame_def res_simps split: option.splits if_splits)

lemma read_string_not_panic [simp]: "read_string eof m bs \<noteq> Panic"
  by (auto simp: read_string_def res_simps split: option.splits if_splits)

lemma read_frame_Ok:
  assumes "read_frame eof m bs = Ok (payload, rest)"
  shows "length payload \<le> m \<and> (\<exists>hdr. bs = hdr @ payload @ rest \<and> 0 < length hdr \<and> length hdr \<le> 5)"
proof -
  obtain n bs' len where r: "read_varint eof bs = Ok (n, bs')" "usize_of_i32 n = Some len" "len \<le> m"
      "read_exact eof len bs' = Ok (payload, rest)"
    using assms by (auto simp: read_frame_def res_simps split: option.splits if_splits)
  from r(4) have "bs' = payload @ rest" "length payload = len" by (simp_all add: read_exact_Ok)
  with r read_varint_consumes [OF r(1)] show ?thesis by auto
qed

lemma read_frame_shorter: "read_frame eof m bs = Ok (payload, rest) \<Longrightarrow> length rest < length bs"
  using read_frame_Ok by fastforce

section \<open>Frames and strings: round trips\<close>

lemma i32_of_len_usize: "i32_of_len n = Some w \<Longrightarrow> usize_of_i32 w = Some n"
  by (simp add: i32_of_len_def usize_of_i32_Some split: if_splits)

lemma write_frame_Ok: "length payload < 2 ^ 31 \<Longrightarrow>
    write_frame payload = Ok (write_varint [] (word_of_nat (length payload)) @ payload)"
  by (simp add: write_frame_def i32_of_len_def)

lemma read_write_frame:
  assumes "write_frame payload = Ok frame" and "length payload \<le> m"
  shows "read_frame eof m (frame @ rest) = Ok (payload, rest)"
proof -
  obtain n where n: "i32_of_len (length payload) = Some n" "frame = write_varint [] n @ payload"
    using assms(1) by (auto simp: write_frame_def split: option.splits)
  then show ?thesis
    using assms(2) by (simp add: read_frame_def read_write_varint i32_of_len_usize)
qed

lemma read_write_string:
  assumes "write_string [] s = (Ok bs :: ('e, bytes) res)" and "length s \<le> m" and "utf8 s"
  shows "read_string eof m (bs @ rest) = Ok (s, rest)"
proof -
  obtain n where n: "i32_of_len (length s) = Some n" "bs = write_varint [] n @ as_bytes s"
    using assms(1) by (cases "i32_of_len (length s)") (auto simp: write_string_def)
  moreover have "read_exact eof (length s) (as_bytes s @ rest) = Ok (as_bytes s, rest)"
    using read_exact_append [of eof "as_bytes s" rest] by simp
  ultimately show ?thesis
    using assms(2,3) by (simp add: read_string_def read_write_varint i32_of_len_usize)
qed

text \<open>The encodings as total functions on the values they accept, for the codec contract.\<close>

definition frame_of :: "bytes \<Rightarrow> bytes" where
  "frame_of payload = (case write_frame payload of Ok f \<Rightarrow> f | _ \<Rightarrow> [])"

definition string_field :: "string \<Rightarrow> bytes" where
  "string_field s = (case (write_string [] s :: (unit, bytes) res) of Ok b \<Rightarrow> b | _ \<Rightarrow> [])"

interpretation frame: wire_codec frame_of "read_frame eof m" "\<lambda>p. length p \<le> m \<and> length p < 2 ^ 31" for eof m
proof unfold_locales
  fix x :: bytes and rest
  assume "length x \<le> m \<and> length x < 2 ^ 31"
  then show "read_frame eof m (frame_of x @ rest) = Ok (x, rest)"
    using read_write_frame [OF write_frame_Ok] by (simp add: frame_of_def write_frame_Ok)
qed

lemma write_string_Ok:
  "length s < 2 ^ 31 \<Longrightarrow> write_string out s = Ok (out @ string_field s)"
  by (simp add: write_string_def string_field_def i32_of_len_def write_varint_append [of out])

interpretation str: wire_codec string_field "read_string eof m" "\<lambda>s. length s \<le> m \<and> length s < 2 ^ 31 \<and> utf8 s" for eof m
proof unfold_locales
  fix s rest
  assume "length s \<le> m \<and> length s < 2 ^ 31 \<and> utf8 s"
  then show "read_string eof m (string_field s @ rest) = Ok (s, rest)"
    using read_write_string [of s "string_field s" m eof rest, where ?'e = unit] write_string_Ok [of s "[]"] by simp
qed

end
