(* ===== verification/Mc_Bot.thy ===== *)
theory Mc_Bot
  imports Mc_Wire
begin

text \<open>
  The recording bot of \<^verbatim>\<open>packages/minecraft/bot\<close>: packet framing with and without compression
  (\<^verbatim>\<open>framing.rs\<close>), the packets it sends (\<^verbatim>\<open>packets.rs\<close>), the replay recorder (\<^verbatim>\<open>mcpr.rs\<close>) and the
  login, configuration and play states (\<^verbatim>\<open>session.rs\<close>). The zlib and MD5 crates are parameters.
\<close>

unbundle bit_operations_syntax

section \<open>Transport and framing\<close>

text \<open>
  A connection, as its two directions. Incoming bytes come in bursts, each with the error a read
  gives when it runs out of bytes (a time-out for a pause); after the last burst the peer has closed.
  Outgoing bytes accumulate, unless writing fails.
\<close>

record transport =
  t_bursts :: "(bytes \<times> io_error) list"
  t_out :: bytes
  t_fault :: "io_error option"

record framed =
  f_transport :: transport
  threshold :: "nat option"

record zlib =
  deflate :: "bytes \<Rightarrow> bytes"
  inflate_upto :: "nat \<Rightarrow> bytes \<Rightarrow> (io_error, bytes) res"

definition MAX_PACKET :: nat where
  "MAX_PACKET = 2 ^ 21 - 1"

definition invalid :: "string \<Rightarrow> io_error" where
  "invalid m = io_err InvalidData m"

definition new_framed :: "transport \<Rightarrow> framed" where
  "new_framed t = \<lparr>f_transport = t, threshold = None\<rparr>"

definition enable_compression :: "nat \<Rightarrow> framed \<Rightarrow> framed" where
  "enable_compression n f = f\<lparr>threshold := Some n\<rparr>"

definition write_all :: "framed \<Rightarrow> bytes \<Rightarrow> (io_error, framed) res" where
  "write_all f bs =
     (case t_fault (f_transport f) of
        Some e \<Rightarrow> Err e
      | None \<Rightarrow> Ok (f\<lparr>f_transport := (f_transport f)\<lparr>t_out := t_out (f_transport f) @ bs\<rparr>\<rparr>))"

definition send_payload :: "zlib \<Rightarrow> nat \<Rightarrow> bytes \<Rightarrow> (io_error, bytes) res" where
  "send_payload z th packet =
     (if length packet < th then Ok (write_varint [] 0 @ packet)
      else case i32_of_len (length packet) of
             None \<Rightarrow> Err (invalid ''packet too long to frame'')
           | Some n \<Rightarrow> Ok (write_varint [] n @ deflate z packet))"

definition send :: "zlib \<Rightarrow> framed \<Rightarrow> bytes \<Rightarrow> (io_error, framed) res" where
  "send z f packet =
     (case threshold f of
        None \<Rightarrow> bind_res (write_frame packet) (write_all f)
      | Some th \<Rightarrow>
          bind_res (send_payload z th packet) (\<lambda>payload.
          bind_res (write_frame payload) (write_all f)))"

text \<open>The current burst, and the connection after bytes of it were consumed.\<close>

definition current :: "framed \<Rightarrow> bytes \<times> io_error" where
  "current f = (case t_bursts (f_transport f) of [] \<Rightarrow> ([], slice_eof) | b # _ \<Rightarrow> b)"

definition set_bursts :: "(bytes \<times> io_error) list \<Rightarrow> framed \<Rightarrow> framed" where
  "set_bursts bs f = f\<lparr>f_transport := (f_transport f)\<lparr>t_bursts := bs\<rparr>\<rparr>"

definition rest_of_burst :: "bytes \<Rightarrow> framed \<Rightarrow> framed" where
  "rest_of_burst rest f =
     set_bursts (case t_bursts (f_transport f) of [] \<Rightarrow> [] | (_, e) # bs \<Rightarrow> (rest, e) # bs) f"

definition next_burst :: "framed \<Rightarrow> framed" where
  "next_burst f = set_bursts (tl (t_bursts (f_transport f))) f"

text \<open>The part of \<^verbatim>\<open>recv\<close> after the frame: undo the compressed framing of one payload.\<close>

definition unpack :: "zlib \<Rightarrow> bytes \<Rightarrow> (io_error, bytes) res" where
  "unpack z payload =
     bind_res (read_varint slice_eof payload) (\<lambda>(declared, body).
       if declared = 0 then Ok body
       else case usize_of_i32 declared of
              None \<Rightarrow> Err (invalid ''negative uncompressed length'')
            | Some expected \<Rightarrow>
                if MAX_PACKET < expected
                then Err (invalid (''uncompressed packet of '' @ show_nat expected @
                  '' bytes exceeds limit of '' @ show_nat MAX_PACKET))
                else bind_res (inflate_upto z (expected + 1) body) (\<lambda>packet.
                  if length packet \<noteq> expected
                  then Err (invalid (''packet inflated to '' @ show_nat (length packet) @
                    '' bytes, expected '' @ show_nat expected))
                  else Ok packet))"

definition recv :: "zlib \<Rightarrow> framed \<Rightarrow> framed \<times> (io_error, bytes) res" where
  "recv z f =
     (let (avail, eof) = current f
      in case read_frame eof MAX_PACKET avail of
           Err e \<Rightarrow> (next_burst f, Err e)
         | Panic \<Rightarrow> (f, Panic)
         | Ok (payload, rest) \<Rightarrow>
             (rest_of_burst rest f, if threshold f = None then Ok payload else unpack z payload))"

section \<open>Packets\<close>

definition CB_LOGIN_DISCONNECT :: i32 where "CB_LOGIN_DISCONNECT = 0x00"
definition CB_LOGIN_ENCRYPTION_REQUEST :: i32 where "CB_LOGIN_ENCRYPTION_REQUEST = 0x01"
definition CB_LOGIN_SUCCESS :: i32 where "CB_LOGIN_SUCCESS = 0x02"
definition CB_LOGIN_SET_COMPRESSION :: i32 where "CB_LOGIN_SET_COMPRESSION = 0x03"
definition CB_LOGIN_PLUGIN_REQUEST :: i32 where "CB_LOGIN_PLUGIN_REQUEST = 0x04"
definition CB_CONFIG_DISCONNECT :: i32 where "CB_CONFIG_DISCONNECT = 0x02"
definition CB_CONFIG_FINISH_CONFIGURATION :: i32 where "CB_CONFIG_FINISH_CONFIGURATION = 0x03"
definition CB_CONFIG_KEEP_ALIVE :: i32 where "CB_CONFIG_KEEP_ALIVE = 0x04"
definition CB_CONFIG_PING :: i32 where "CB_CONFIG_PING = 0x05"
definition CB_CONFIG_SELECT_KNOWN_PACKS :: i32 where "CB_CONFIG_SELECT_KNOWN_PACKS = 0x0E"
definition CB_PLAY_DISCONNECT :: i32 where "CB_PLAY_DISCONNECT = 0x20"
definition CB_PLAY_KEEP_ALIVE :: i32 where "CB_PLAY_KEEP_ALIVE = 0x2C"
definition CB_PLAY_PING :: i32 where "CB_PLAY_PING = 0x3D"
definition SB_LOGIN_START :: i32 where "SB_LOGIN_START = 0x00"
definition SB_LOGIN_PLUGIN_RESPONSE :: i32 where "SB_LOGIN_PLUGIN_RESPONSE = 0x02"
definition SB_LOGIN_ACKNOWLEDGED :: i32 where "SB_LOGIN_ACKNOWLEDGED = 0x03"
definition SB_CONFIG_FINISH_CONFIGURATION :: i32 where "SB_CONFIG_FINISH_CONFIGURATION = 0x03"
definition SB_CONFIG_KEEP_ALIVE :: i32 where "SB_CONFIG_KEEP_ALIVE = 0x04"
definition SB_CONFIG_PONG :: i32 where "SB_CONFIG_PONG = 0x05"
definition SB_CONFIG_SELECT_KNOWN_PACKS :: i32 where "SB_CONFIG_SELECT_KNOWN_PACKS = 0x07"
definition SB_PLAY_KEEP_ALIVE :: i32 where "SB_PLAY_KEEP_ALIVE = 0x1C"
definition SB_PLAY_PONG :: i32 where "SB_PLAY_PONG = 0x2D"

lemmas login_ids = CB_LOGIN_DISCONNECT_def CB_LOGIN_ENCRYPTION_REQUEST_def CB_LOGIN_SUCCESS_def
  CB_LOGIN_SET_COMPRESSION_def CB_LOGIN_PLUGIN_REQUEST_def
lemmas config_ids = CB_CONFIG_DISCONNECT_def CB_CONFIG_FINISH_CONFIGURATION_def CB_CONFIG_KEEP_ALIVE_def
  CB_CONFIG_PING_def CB_CONFIG_SELECT_KNOWN_PACKS_def
lemmas play_ids = CB_PLAY_DISCONNECT_def CB_PLAY_KEEP_ALIVE_def CB_PLAY_PING_def

definition packet :: "i32 \<Rightarrow> bytes \<Rightarrow> bytes" where
  "packet i body = write_varint [] i @ body"

definition handshake :: "i32 \<Rightarrow> string \<Rightarrow> u16 \<Rightarrow> ('e, bytes) res" where
  "handshake version host port =
     bind_res (write_string (write_varint [] version) host) (\<lambda>body.
       Ok (packet 0x00 (write_varint (body @ be_bytes 2 (unat port)) 2)))"

definition login_start :: "string \<Rightarrow> bytes \<Rightarrow> ('e, bytes) res" where
  "login_start username profile_id =
     bind_res (write_string [] username) (\<lambda>body. Ok (packet SB_LOGIN_START (body @ profile_id)))"

definition login_plugin_declined :: "i32 \<Rightarrow> bytes" where
  "login_plugin_declined message_id = packet SB_LOGIN_PLUGIN_RESPONSE (write_varint [] message_id @ [0])"

definition login_acknowledged :: bytes where
  "login_acknowledged = packet SB_LOGIN_ACKNOWLEDGED []"

definition select_known_packs_none :: bytes where
  "select_known_packs_none = packet SB_CONFIG_SELECT_KNOWN_PACKS (write_varint [] 0)"

definition finish_configuration_ack :: bytes where
  "finish_configuration_ack = packet SB_CONFIG_FINISH_CONFIGURATION []"

definition offline_profile_id :: "(bytes \<Rightarrow> bytes) \<Rightarrow> string \<Rightarrow> bytes" where
  "offline_profile_id md5 username =
     (let b = md5 (as_bytes (''OfflinePlayer:'' @ username))
      in (b[6 := (b ! 6 AND 0x0F) OR 0x30])[8 := (b ! 8 AND 0x3F) OR 0x80])"

section \<open>Recorder\<close>

text \<open>Instants are nanoseconds on the monotonic clock.\<close>

record recorder =
  rec_epoch :: "nat option"
  rec_stream :: bytes
  rec_packets :: nat
  rec_last_offset :: nat

definition new_recorder :: recorder where
  "new_recorder = \<lparr>rec_epoch = None, rec_stream = [], rec_packets = 0, rec_last_offset = 0\<rparr>"

definition saturating_millis :: "nat \<Rightarrow> u32" where
  "saturating_millis nanos = (if nanos div 10 ^ 6 < 2 ^ 32 then word_of_nat (nanos div 10 ^ 6) else - 1)"

definition saturating_len :: "nat \<Rightarrow> u32" where
  "saturating_len n = (if n < 2 ^ 32 then word_of_nat n else - 1)"

text \<open>
  The clock readings of the \<open>k\<close>-th call of \<^verbatim>\<open>record\<close>: the one that becomes the epoch if there is
  none yet, and the one that \<^verbatim>\<open>elapsed\<close> takes after it.
\<close>

type_synonym clock = "nat \<Rightarrow> nat \<times> nat"

definition record_packet :: "clock \<Rightarrow> recorder \<Rightarrow> bytes \<Rightarrow> recorder" where
  "record_packet clk r pkt =
     (let (t0, t1) = clk (rec_packets r);
          epoch = (case rec_epoch r of Some e \<Rightarrow> e | None \<Rightarrow> t0);
          offset = t1 - epoch;
          millis = saturating_millis offset;
          len = saturating_len (length pkt)
      in \<lparr>rec_epoch = Some epoch,
          rec_stream = rec_stream r @ be_bytes 4 (unat millis) @ be_bytes 4 (unat len) @ pkt,
          rec_packets = rec_packets r + 1,
          rec_last_offset = offset\<rparr>)"

definition recorder_is_empty :: "recorder \<Rightarrow> bool" where
  "recorder_is_empty r \<longleftrightarrow> rec_packets r = 0"

definition recorder_duration :: "recorder \<Rightarrow> nat" where
  "recorder_duration r = rec_last_offset r"

section \<open>Session\<close>

datatype session_error =
    IoE io_error
  | Bail string
  | Context string session_error

record config =
  username :: string
  protocol_version :: i32

definition split_id :: "bytes \<Rightarrow> (io_error, i32 \<times> bytes) res" where
  "split_id pkt = read_varint slice_eof pkt"

text \<open>The format \<^verbatim>\<open>{:#04x}\<close>: the bit pattern in at least two digits.\<close>

definition hex_id :: "i32 \<Rightarrow> string" where
  "hex_id i = ''0x'' @ (if unat i < 16 then ''0'' else '''') @ show_hex (unat i)"

text \<open>Sending one packet and going on, or leaving the state with the recorder as it is.\<close>

definition send_then ::
  "zlib \<Rightarrow> framed \<Rightarrow> bytes \<Rightarrow> recorder \<Rightarrow> (framed \<Rightarrow> recorder \<times> (session_error, 'a) res)
     \<Rightarrow> recorder \<times> (session_error, 'a) res" where
  "send_then z f pkt r k =
     (case send z f pkt of Ok f' \<Rightarrow> k f' | Err e \<Rightarrow> (r, Err (IoE e)) | Panic \<Rightarrow> (r, Panic))"

lemma send_then_cong [fundef_cong]:
  assumes "z = z'" "f = f'" "pkt = pkt'" "r = r'" and "\<And>g. send z' f' pkt' = Ok g \<Longrightarrow> k g = k' g"
  shows "send_then z f pkt r k = send_then z' f' pkt' r' k'"
  using assms by (auto simp: send_then_def split: res.splits)

text \<open>The amount of input left, which every received packet decreases.\<close>

definition input_size :: "framed \<Rightarrow> nat" where
  "input_size f = sum_list (map (\<lambda>(bs, e). length bs) (t_bursts (f_transport f)))"

lemma send_keeps_input: "send z f pkt = Ok f' \<Longrightarrow> t_bursts (f_transport f') = t_bursts (f_transport f) \<and> threshold f' = threshold f"
  by (auto simp: send_def write_all_def res_simps split: option.splits)

lemma recv_shrinks: "recv z f = (f', Ok pkt) \<Longrightarrow> input_size f' < input_size f"
  by (cases "t_bursts (f_transport f)")
    (auto simp: recv_def current_def input_size_def rest_of_burst_def set_bursts_def
      split: res.splits prod.splits if_splits dest: read_frame_shorter)

lemma input_size_send: "send z f pkt = Ok f' \<Longrightarrow> input_size f' = input_size f"
  by (simp add: input_size_def send_keeps_input)

lemma input_size_compression [simp]: "input_size (enable_compression n f) = input_size f"
  by (simp add: input_size_def enable_compression_def)

function login :: "zlib \<Rightarrow> clock \<Rightarrow> framed \<Rightarrow> recorder \<Rightarrow> recorder \<times> (session_error, framed) res" where
  "login z clk f r =
     (case recv z f of
        (f1, Err e) \<Rightarrow> (r, Err (IoE e))
      | (f1, Panic) \<Rightarrow> (r, Panic)
      | (f1, Ok pkt) \<Rightarrow>
          (case split_id pkt of
             Err e \<Rightarrow> (r, Err (IoE e))
           | Panic \<Rightarrow> (r, Panic)
           | Ok (i, body) \<Rightarrow>
               if i = CB_LOGIN_SET_COMPRESSION then
                 (case read_varint slice_eof body of
                    Err e \<Rightarrow> (r, Err (IoE e))
                  | Panic \<Rightarrow> (r, Panic)
                  | Ok (th, _) \<Rightarrow>
                      login z clk (case usize_of_i32 th of Some n \<Rightarrow> enable_compression n f1 | None \<Rightarrow> f1) r)
               else if i = CB_LOGIN_SUCCESS then
                 (let r1 = record_packet clk r pkt
                  in send_then z f1 login_acknowledged r1 (\<lambda>f2. (r1, Ok f2)))
               else if i = CB_LOGIN_PLUGIN_REQUEST then
                 (case read_varint slice_eof body of
                    Err e \<Rightarrow> (r, Err (IoE e))
                  | Panic \<Rightarrow> (r, Panic)
                  | Ok (message_id, _) \<Rightarrow>
                      send_then z f1 (login_plugin_declined message_id) r (\<lambda>f2. login z clk f2 r))
               else if i = CB_LOGIN_ENCRYPTION_REQUEST then
                 (r, Err (Bail ''server demands online-mode encryption; mc-bot only speaks offline login''))
               else if i = CB_LOGIN_DISCONNECT then
                 (case read_string slice_eof (2 ^ 16) body of
                    Err e \<Rightarrow> (r, Err (IoE e))
                  | Panic \<Rightarrow> (r, Panic)
                  | Ok (reason, _) \<Rightarrow> (r, Err (Bail (''kicked during login: '' @ reason))))
               else (r, Err (Bail (''unexpected login packet '' @ hex_id i)))))"
  by pat_completeness auto

termination
  by (relation "measure (\<lambda>(z, clk, f, r). input_size f)")
    (auto dest!: recv_shrinks [OF sym] simp: input_size_send split: option.splits)

declare login.simps [simp del]

function configure :: "zlib \<Rightarrow> clock \<Rightarrow> framed \<Rightarrow> recorder \<Rightarrow> recorder \<times> (session_error, framed) res" where
  "configure z clk f r =
     (case recv z f of
        (f1, Err e) \<Rightarrow> (r, Err (IoE e))
      | (f1, Panic) \<Rightarrow> (r, Panic)
      | (f1, Ok pkt) \<Rightarrow>
          (let r1 = record_packet clk r pkt in
           case split_id pkt of
             Err e \<Rightarrow> (r1, Err (IoE e))
           | Panic \<Rightarrow> (r1, Panic)
           | Ok (i, body) \<Rightarrow>
               if i = CB_CONFIG_SELECT_KNOWN_PACKS then
                 send_then z f1 select_known_packs_none r1 (\<lambda>f2. configure z clk f2 r1)
               else if i = CB_CONFIG_KEEP_ALIVE then
                 send_then z f1 (packet SB_CONFIG_KEEP_ALIVE body) r1 (\<lambda>f2. configure z clk f2 r1)
               else if i = CB_CONFIG_PING then
                 send_then z f1 (packet SB_CONFIG_PONG body) r1 (\<lambda>f2. configure z clk f2 r1)
               else if i = CB_CONFIG_FINISH_CONFIGURATION then
                 send_then z f1 finish_configuration_ack r1 (\<lambda>f2. (r1, Ok f2))
               else if i = CB_CONFIG_DISCONNECT then (r1, Err (Bail ''kicked during configuration''))
               else configure z clk f1 r1))"
  by pat_completeness auto

termination
  by (relation "measure (\<lambda>(z, clk, f, r). input_size f)")
    (auto dest!: recv_shrinks [OF sym] simp: input_size_send)

declare configure.simps [simp del]

text \<open>
  The play state. Each element of the list is one turn of the loop: the time left to the deadline at
  its start and the outcome of setting the read time-out; when the list ends, the deadline has passed.
\<close>

record turn =
  time_left :: nat
  timeout_fault :: "io_error option"

fun play :: "zlib \<Rightarrow> clock \<Rightarrow> turn list \<Rightarrow> framed \<Rightarrow> recorder \<Rightarrow> recorder \<times> (session_error, framed) res" where
  "play z clk [] f r = (r, Ok f)"
| "play z clk (t # ts) f r =
     (if time_left t = 0 then (r, Ok f)
      else case timeout_fault t of
        Some e \<Rightarrow> (r, Err (IoE e))
      | None \<Rightarrow>
          (case recv z f of
             (f1, Err e) \<Rightarrow>
               if err_kind e = WouldBlock \<or> err_kind e = TimedOut then play z clk ts f1 r
               else (r, Err (IoE e))
           | (f1, Panic) \<Rightarrow> (r, Panic)
           | (f1, Ok pkt) \<Rightarrow>
               (let r1 = record_packet clk r pkt in
                case split_id pkt of
                  Err e \<Rightarrow> (r1, Err (IoE e))
                | Panic \<Rightarrow> (r1, Panic)
                | Ok (i, body) \<Rightarrow>
                    if i = CB_PLAY_KEEP_ALIVE then
                      send_then z f1 (packet SB_PLAY_KEEP_ALIVE body) r1 (\<lambda>f2. play z clk ts f2 r1)
                    else if i = CB_PLAY_PING then
                      send_then z f1 (packet SB_PLAY_PONG body) r1 (\<lambda>f2. play z clk ts f2 r1)
                    else if i = CB_PLAY_DISCONNECT then (r1, Err (Bail ''kicked during play''))
                    else play z clk ts f1 r1)))"

definition with_context :: "string \<Rightarrow> recorder \<times> (session_error, 'a) res \<Rightarrow> recorder \<times> (session_error, 'a) res" where
  "with_context ctx = (\<lambda>(r, x). (r, map_err (Context ctx) x))"

fun then_state ::
  "recorder \<times> (session_error, framed) res \<Rightarrow> (framed \<Rightarrow> recorder \<Rightarrow> recorder \<times> (session_error, 'a) res)
     \<Rightarrow> recorder \<times> (session_error, 'a) res" where
  "then_state (r, Ok f) k = k f r"
| "then_state (r, Err e) k = (r, Err e)"
| "then_state (r, Panic) k = (r, Panic)"

definition run_session ::
  "zlib \<Rightarrow> (bytes \<Rightarrow> bytes) \<Rightarrow> clock \<Rightarrow> turn list \<Rightarrow> server_address \<Rightarrow> config \<Rightarrow> (io_error, transport) res
     \<Rightarrow> recorder \<Rightarrow> recorder \<times> (session_error, unit) res" where
  "run_session z md5 clk ts addr cfg connection r =
     (case connection of
        Err e \<Rightarrow> (r, Err (Context (''connecting to '' @ sa_host addr @ '':'' @ show_nat (unat (sa_port addr))) (IoE e)))
      | Panic \<Rightarrow> (r, Panic)
      | Ok stream \<Rightarrow>
          (case handshake (protocol_version cfg) (sa_host addr) (sa_port addr) of
             Err e \<Rightarrow> (r, Err (IoE e))
           | Panic \<Rightarrow> (r, Panic)
           | Ok hello \<Rightarrow>
               send_then z (new_framed stream) hello r (\<lambda>f1.
                 case login_start (username cfg) (offline_profile_id md5 (username cfg)) of
                   Err e \<Rightarrow> (r, Err (IoE e))
                 | Panic \<Rightarrow> (r, Panic)
                 | Ok start \<Rightarrow>
                     send_then z f1 start r (\<lambda>f2.
                       then_state (with_context ''login state'' (login z clk f2 r)) (\<lambda>f3 r3.
                       then_state (with_context ''configuration state'' (configure z clk f3 r3)) (\<lambda>f4 r4.
                       then_state (with_context ''play state'' (play z clk ts f4 r4)) (\<lambda>f5 r5. (r5, Ok ()))))))))"

end
