(* ===== verification/Mc_Bot_Properties.thy ===== *)
theory Mc_Bot_Properties
  imports Mc_Bot "HOL-Library.Code_Target_Nat"
begin

text \<open>
  The properties of the Minecraft wire format and of the recording bot: round trips and size bounds
  of the encodings, the bound on what a peer can make the bot allocate, what each state of a session
  answers and records, and the format of the recording.
\<close>

unbundle bit_operations_syntax

section \<open>Frames on the wire\<close>

text \<open>The bytes one packet becomes, given the compression threshold.\<close>

definition payload_of :: "zlib \<Rightarrow> nat \<Rightarrow> bytes \<Rightarrow> bytes" where
  "payload_of z th pkt =
     (if length pkt < th then write_varint [] 0 @ pkt
      else write_varint [] (word_of_nat (length pkt)) @ deflate z pkt)"

definition wire_of :: "zlib \<Rightarrow> nat option \<Rightarrow> bytes \<Rightarrow> bytes" where
  "wire_of z th pkt = (case th of None \<Rightarrow> frame_of pkt | Some n \<Rightarrow> frame_of (payload_of z n pkt))"

definition appended :: "framed \<Rightarrow> bytes \<Rightarrow> framed" where
  "appended f bs = f\<lparr>f_transport := (f_transport f)\<lparr>t_out := t_out (f_transport f) @ bs\<rparr>\<rparr>"

lemma write_frame_frame_of: "write_frame p = Ok w \<Longrightarrow> w = frame_of p"
  by (simp add: frame_of_def)

lemma send_Ok: "send z f pkt = Ok f' \<Longrightarrow> f' = appended f (wire_of z (threshold f) pkt)"
  by (auto simp: send_def write_all_def appended_def wire_of_def payload_of_def send_payload_def
      i32_of_len_def res_simps split: option.splits if_splits dest!: write_frame_frame_of)

lemma appended_simps [simp]:
  "t_bursts (f_transport (appended f bs)) = t_bursts (f_transport f)"
  "threshold (appended f bs) = threshold f"
  "t_out (f_transport (appended f bs)) = t_out (f_transport f) @ bs"
  by (simp_all add: appended_def)

lemma recv_keeps:
  "recv z f = (f', x) \<Longrightarrow> t_out (f_transport f') = t_out (f_transport f) \<and> threshold f' = threshold f"
  by (auto simp: recv_def Let_def next_burst_def rest_of_burst_def set_bursts_def split: res.splits prod.splits)

lemma send_not_panic [simp]: "send z f pkt \<noteq> Panic"
  by (auto simp: send_def write_all_def send_payload_def write_frame_def res_simps split: option.splits if_splits)

text \<open>A packet that a peer with the same threshold accepts.\<close>

definition packet_fits :: "zlib \<Rightarrow> nat option \<Rightarrow> bytes \<Rightarrow> bool" where
  "packet_fits z th pkt \<longleftrightarrow> pkt \<noteq> [] \<and> length pkt \<le> MAX_PACKET \<and>
     (case th of None \<Rightarrow> True | Some n \<Rightarrow> length (payload_of z n pkt) \<le> MAX_PACKET)"

lemma write_varint_zero: "write_varint [] 0 = [0]"
  by (simp add: write_varint_def varint_loop.simps [of "[]"] Let_def low7_def)

lemma MAX_PACKET_less: "n \<le> MAX_PACKET \<Longrightarrow> n < 2 ^ 31"
  by (simp add: MAX_PACKET_def)

lemma unpack_payload:
  assumes "\<forall>n. inflate_upto z n (deflate z pkt) = Ok (take n pkt)" and "pkt \<noteq> []" and "length pkt \<le> MAX_PACKET"
  shows "unpack z (payload_of z th pkt) = Ok pkt"
proof (cases "length pkt < th")
  case True
  then show ?thesis
    by (simp add: unpack_def payload_of_def read_write_varint)
next
  case False
  have n: "usize_of_i32 (word_of_nat (length pkt)) = Some (length pkt)"
    using assms(3) MAX_PACKET_less by (simp add: usize_of_i32_Some)
  then have "word_of_nat (length pkt) \<noteq> (0 :: i32)"
    using assms(2) by (auto simp: usize_of_i32_def)
  with False n assms show ?thesis
    by (simp add: unpack_def payload_of_def read_write_varint)
qed

section \<open>Sessions\<close>

definition packet_id :: "bytes \<Rightarrow> i32 option" where
  "packet_id pkt = (case split_id pkt of Ok (i, body) \<Rightarrow> Some i | _ \<Rightarrow> None)"

text \<open>What the protocol wants answered: in the configuration state and in the play state.\<close>

definition config_reply :: "bytes \<Rightarrow> bytes option" where
  "config_reply pkt =
     (case split_id pkt of
        Ok (i, body) \<Rightarrow>
          if i = CB_CONFIG_SELECT_KNOWN_PACKS then Some (packet SB_CONFIG_SELECT_KNOWN_PACKS [0])
          else if i = CB_CONFIG_KEEP_ALIVE then Some (packet SB_CONFIG_KEEP_ALIVE body)
          else if i = CB_CONFIG_PING then Some (packet SB_CONFIG_PONG body)
          else if i = CB_CONFIG_FINISH_CONFIGURATION then Some (packet SB_CONFIG_FINISH_CONFIGURATION [])
          else None
      | _ \<Rightarrow> None)"

definition play_reply :: "bytes \<Rightarrow> bytes option" where
  "play_reply pkt =
     (case split_id pkt of
        Ok (i, body) \<Rightarrow>
          if i = CB_PLAY_KEEP_ALIVE then Some (packet SB_PLAY_KEEP_ALIVE body)
          else if i = CB_PLAY_PING then Some (packet SB_PLAY_PONG body)
          else None
      | _ \<Rightarrow> None)"

definition wires :: "zlib \<Rightarrow> nat option \<Rightarrow> (bytes \<Rightarrow> bytes option) \<Rightarrow> bytes list \<Rightarrow> bytes" where
  "wires z th reply ps = concat (map (wire_of z th) (List.map_filter reply ps))"

lemma wires_simps [simp]:
  "wires z th reply [] = []"
  "wires z th reply (p # ps) = (case reply p of None \<Rightarrow> [] | Some a \<Rightarrow> wire_of z th a) @ wires z th reply ps"
  by (simp_all add: wires_def List.map_filter_simps split: option.splits)

definition record_all :: "clock \<Rightarrow> bytes list \<Rightarrow> recorder \<Rightarrow> recorder" where
  "record_all clk ps r = fold (\<lambda>p r. record_packet clk r p) ps r"

lemma record_all_simps [simp]:
  "record_all clk [] r = r"
  "record_all clk (p # ps) r = record_all clk ps (record_packet clk r p)"
  "record_all clk (ps @ qs) r = record_all clk qs (record_all clk ps r)"
  by (simp_all add: record_all_def)

text \<open>Receiving \<open>n\<close> packets in a row, and nothing else.\<close>

primrec recv_n :: "zlib \<Rightarrow> nat \<Rightarrow> framed \<Rightarrow> (bytes list \<times> framed) option" where
  "recv_n z 0 f = Some ([], f)"
| "recv_n z (Suc n) f =
     (case recv z f of
        (f1, Ok p) \<Rightarrow> map_option (\<lambda>(ps, f2). (p # ps, f2)) (recv_n z n f1)
      | _ \<Rightarrow> None)"

definition same_input :: "framed \<Rightarrow> framed \<Rightarrow> bool" where
  "same_input f g \<longleftrightarrow> t_bursts (f_transport f) = t_bursts (f_transport g) \<and> threshold f = threshold g"

lemma recv_same_input:
  assumes "same_input f g" and "recv z f = (f1, x)"
  obtains g1 where "recv z g = (g1, x)" "same_input f1 g1"
proof -
  have "snd (recv z g) = x \<and> same_input f1 (fst (recv z g))"
    using assms
    by (auto simp: recv_def current_def same_input_def Let_def next_burst_def rest_of_burst_def set_bursts_def
        split: res.splits prod.splits list.splits)
  then show thesis using that by (cases "recv z g") auto
qed

lemma recv_n_same_input:
  "same_input f g \<Longrightarrow> recv_n z n f = Some (ps, f') \<Longrightarrow> \<exists>g'. recv_n z n g = Some (ps, g') \<and> same_input f' g'"
proof (induction n arbitrary: f g ps)
  case (Suc n)
  then obtain p qs f1 where r: "recv z f = (f1, Ok p)" "recv_n z n f1 = Some (qs, f')" "ps = p # qs"
    by (auto split: prod.splits res.splits)
  from recv_same_input [OF Suc.prems(1) r(1)] obtain g1 where g1: "recv z g = (g1, Ok p)" "same_input f1 g1" .
  with Suc.IH [OF g1(2) r(2)] r(3) show ?case by auto
qed auto

definition config_goes_on :: "bytes \<Rightarrow> bool" where
  "config_goes_on pkt \<longleftrightarrow> (\<exists>i. packet_id pkt = Some i \<and> i \<noteq> CB_CONFIG_FINISH_CONFIGURATION \<and> i \<noteq> CB_CONFIG_DISCONNECT)"

text \<open>One turn of the configuration loop, as a fact about its packet.\<close>

lemma configure_step:
  assumes "recv z f = (f1, Ok p)"
  shows "configure z clk f r =
    (let r1 = record_packet clk r p in
     if packet_id p = Some CB_CONFIG_FINISH_CONFIGURATION then
       send_then z f1 (the (config_reply p)) r1 (\<lambda>f2. (r1, Ok f2))
     else if config_goes_on p then
       (case config_reply p of
          None \<Rightarrow> configure z clk f1 r1
        | Some a \<Rightarrow> send_then z f1 a r1 (\<lambda>f2. configure z clk f2 r1))
     else (r1, case split_id p of Err e \<Rightarrow> Err (IoE e) | Panic \<Rightarrow> Panic | Ok _ \<Rightarrow> Err (Bail ''kicked during configuration'')))"
  using assms
  by (subst configure.simps)
    (auto simp: Let_def packet_id_def config_goes_on_def config_reply_def select_known_packs_none_def
      finish_configuration_ack_def write_varint_zero config_ids split: res.splits)

lemma send_then_Ok:
  "send_then z f a r k = (r', Ok y) \<Longrightarrow> k (appended f (wire_of z (threshold f) a)) = (r', Ok y)"
  by (auto simp: send_then_def split: res.splits dest!: send_Ok)

lemma configure_answers_aux:
  assumes "configure z clk f r = (r', Ok f')"
  shows "\<exists>ps p g. recv_n z (Suc (length ps)) f = Some (ps @ [p], g) \<and> same_input g f' \<and>
     packet_id p = Some CB_CONFIG_FINISH_CONFIGURATION \<and> (\<forall>q \<in> set ps. config_goes_on q) \<and>
     r' = record_all clk (ps @ [p]) r \<and>
     t_out (f_transport f') = t_out (f_transport f) @ wires z (threshold f) config_reply (ps @ [p])"
  using assms
proof (induction "input_size f" arbitrary: f r rule: less_induct)
  case less
  obtain f1 p where r: "recv z f = (f1, Ok p)"
    using less.prems by (subst (asm) configure.simps) (auto split: prod.splits res.splits)
  note keep = recv_keeps [OF r]
  let ?r1 = "record_packet clk r p"
  show ?case
  proof (cases "packet_id p = Some CB_CONFIG_FINISH_CONFIGURATION")
    case True
    then obtain a where a: "config_reply p = Some a"
      by (auto simp: packet_id_def config_reply_def config_ids split: res.splits)
    with less.prems True configure_step [OF r, of clk r]
    have "r' = ?r1 \<and> f' = appended f1 (wire_of z (threshold f1) a)"
      by (auto simp: Let_def dest!: send_then_Ok)
    with r True a keep show ?thesis
      by (intro exI [of _ "[]"] exI [of _ p] exI [of _ f1]) (simp add: same_input_def)
  next
    case False
    with less.prems configure_step [OF r, of clk r] have on: "config_goes_on p"
      by (auto simp: Let_def split: res.splits if_splits)
    define f2 where "f2 = (case config_reply p of None \<Rightarrow> f1 | Some a \<Rightarrow> appended f1 (wire_of z (threshold f1) a))"
    have next_f: "configure z clk f2 ?r1 = (r', Ok f')"
      using less.prems False on configure_step [OF r, of clk r]
      by (auto simp: Let_def f2_def dest!: send_then_Ok split: option.splits)
    have same: "same_input f2 f1" and th: "threshold f2 = threshold f"
      and out: "t_out (f_transport f2) = t_out (f_transport f) @ wires z (threshold f) config_reply [p]"
      using keep by (auto simp: f2_def same_input_def split: option.splits)
    then have "input_size f2 < input_size f"
      using recv_shrinks [OF r] by (simp add: input_size_def same_input_def)
    from less.hyps [OF this next_f] obtain ps q g where IH: "recv_n z (Suc (length ps)) f2 = Some (ps @ [q], g)"
        "same_input g f'" "packet_id q = Some CB_CONFIG_FINISH_CONFIGURATION" "\<forall>x \<in> set ps. config_goes_on x"
        "r' = record_all clk (ps @ [q]) ?r1"
        "t_out (f_transport f') = t_out (f_transport f2) @ wires z (threshold f2) config_reply (ps @ [q])"
      by blast
    obtain g' where g': "recv_n z (Suc (length ps)) f1 = Some (ps @ [q], g')" "same_input g g'"
      using recv_n_same_input [OF same IH(1)] by blast
    have "recv_n z (Suc (length (p # ps))) f = Some ((p # ps) @ [q], g')"
      using r g'(1) by (simp only: recv_n.simps list.size prod.case res.case) simp
    moreover have "same_input g' f'" using g'(2) IH(2) by (simp add: same_input_def)
    ultimately show ?thesis
      using IH on out th by (intro exI [of _ "p # ps"] exI [of _ q] exI [of _ g']) simp
  qed
qed

definition play_goes_on :: "bytes \<Rightarrow> bool" where
  "play_goes_on pkt \<longleftrightarrow> (\<exists>i. packet_id pkt = Some i \<and> i \<noteq> CB_PLAY_DISCONNECT)"

lemma play_step:
  assumes "recv z f = (f1, Ok p)" and "time_left t \<noteq> 0" and "timeout_fault t = None"
  shows "play z clk (t # ts) f r =
    (let r1 = record_packet clk r p in
     if play_goes_on p then
       (case play_reply p of
          None \<Rightarrow> play z clk ts f1 r1
        | Some a \<Rightarrow> send_then z f1 a r1 (\<lambda>f2. play z clk ts f2 r1))
     else (r1, case split_id p of Err e \<Rightarrow> Err (IoE e) | Panic \<Rightarrow> Panic | Ok _ \<Rightarrow> Err (Bail ''kicked during play'')))"
  using assms
  by (auto simp: Let_def packet_id_def play_goes_on_def play_reply_def play_ids split: res.splits)

lemma play_answers_aux:
  assumes "play z clk ts f r = (r', Ok f')"
  shows "\<exists>ps. length ps \<le> length ts \<and> (\<forall>p \<in> set ps. play_goes_on p) \<and> r' = record_all clk ps r \<and>
     t_out (f_transport f') = t_out (f_transport f) @ wires z (threshold f) play_reply ps"
  using assms
proof (induction ts arbitrary: f r)
  case (Cons t ts)
  show ?case
  proof (cases "time_left t = 0")
    case False
    with Cons.prems have no_fault: "timeout_fault t = None" by (auto split: option.splits)
    obtain f1 x where r: "recv z f = (f1, x)" by (cases "recv z f")
    note keep = recv_keeps [OF r]
    show ?thesis
    proof (cases x)
      case (Ok p)
      note step = play_step [OF r [unfolded Ok] False no_fault, of clk ts r]
      have on: "play_goes_on p"
        using Cons.prems [unfolded step] by (auto simp: Let_def split: res.splits if_splits)
      define f2 where "f2 = (case play_reply p of None \<Rightarrow> f1 | Some a \<Rightarrow> appended f1 (wire_of z (threshold f1) a))"
      have "play z clk ts f2 (record_packet clk r p) = (r', Ok f')"
        using Cons.prems [unfolded step] on
        by (auto simp: Let_def f2_def dest!: send_then_Ok split: option.splits)
      from Cons.IH [OF this] obtain ps where "length ps \<le> length ts" "\<forall>p \<in> set ps. play_goes_on p"
          "r' = record_all clk ps (record_packet clk r p)"
          "t_out (f_transport f') = t_out (f_transport f2) @ wires z (threshold f2) play_reply ps"
        by blast
      with on keep show ?thesis
        by (intro exI [of _ "p # ps"]) (auto simp: f2_def split: option.splits)
    next
      case (Err e)
      with Cons.prems r no_fault False have "play z clk ts f1 r = (r', Ok f')" by (simp split: if_splits)
      from Cons.IH [OF this] obtain ps where "length ps \<le> length ts" "\<forall>p \<in> set ps. play_goes_on p"
          "r' = record_all clk ps r"
          "t_out (f_transport f') = t_out (f_transport f1) @ wires z (threshold f1) play_reply ps"
        by blast
      with keep show ?thesis by (intro exI [of _ ps]) simp
    next
      case Panic
      with Cons.prems r no_fault False show ?thesis by simp
    qed
  qed (use Cons.prems in \<open>auto intro: exI [of _ "[]"]\<close>)
qed (auto intro: exI [of _ "[]"])

text \<open>The recorder only ever grows, whatever the outcome.\<close>

lemma play_recorder: "\<exists>ps. fst (play z clk ts f r) = record_all clk ps r"
proof (induction ts arbitrary: f r)
  case (Cons t ts)
  have here: "\<exists>ps. r = record_all clk ps r" "\<exists>ps. record_packet clk r p = record_all clk ps r" for p
    by (rule exI [of _ "[]"], simp) (rule exI [of _ "[p]"], simp)
  have later: "\<exists>ps. fst (play z clk ts g (record_packet clk r p)) = record_all clk ps r" for g p
    using Cons [of g "record_packet clk r p"] by (metis record_all_simps(2))
  show ?case
    using here later Cons [of "fst (recv z f)" r]
    by (auto simp: Let_def send_then_def split: option.splits prod.splits res.splits)
qed (auto intro: exI [of _ "[]"])

lemma configure_recorder: "\<exists>ps. fst (configure z clk f r) = record_all clk ps r"
proof (induction "input_size f" arbitrary: f r rule: less_induct)
  case less
  have here: "\<exists>ps. r = record_all clk ps r" "\<exists>ps. record_packet clk r p = record_all clk ps r" for p
    by (rule exI [of _ "[]"], simp) (rule exI [of _ "[p]"], simp)
  show ?case
  proof (cases "recv z f")
    case (Pair f1 x)
    show ?thesis
    proof (cases x)
      case (Ok p)
      have later: "\<exists>ps. fst (configure z clk g (record_packet clk r p)) = record_all clk ps r"
        if "input_size g = input_size f1" for g
        using less [of g "record_packet clk r p"] that recv_shrinks [OF Pair [unfolded Ok]]
        by (metis record_all_simps(2))
      show ?thesis
        using here later input_size_send configure_step [OF Pair [unfolded Ok], of clk r]
        by (auto simp: Let_def send_then_def split: option.splits res.splits)
    qed (use here Pair in \<open>simp_all add: configure.simps [of z clk f]\<close>)
  qed
qed

lemma transport_compression [simp]: "f_transport (enable_compression n f) = f_transport f"
  by (simp add: enable_compression_def)

text \<open>The outcome of the login state, for what was recorded and sent before it.\<close>

definition login_post :: "zlib \<Rightarrow> clock \<Rightarrow> recorder \<Rightarrow> bytes \<Rightarrow> recorder \<times> (session_error, framed) res \<Rightarrow> bool" where
  "login_post z clk r out res \<longleftrightarrow>
     (case res of
        (r', Ok f') \<Rightarrow> \<exists>p. packet_id p = Some CB_LOGIN_SUCCESS \<and> r' = record_packet clk r p \<and>
          (\<exists>before. t_out (f_transport f') = out @ before @ wire_of z (threshold f') login_acknowledged)
      | (r', _) \<Rightarrow> r' = r \<or> (\<exists>p. packet_id p = Some CB_LOGIN_SUCCESS \<and> r' = record_packet clk r p))"

lemma login_post_weaken: "login_post z clk r (out @ w) res \<Longrightarrow> login_post z clk r out res"
  by (auto simp: login_post_def split: prod.splits res.splits)

lemma login_post_stop [simp]: "login_post z clk r out (r, Err e)" "login_post z clk r out (r, Panic)"
  by (simp_all add: login_post_def)

lemma login_meets_post: "login_post z clk r (t_out (f_transport f)) (login z clk f r)"
proof (induction "input_size f" arbitrary: f rule: less_induct)
  case less
  show ?case
  proof (cases "recv z f")
    case (Pair f1 x)
    note keep = recv_keeps [OF Pair]
    show ?thesis
    proof (cases x)
      case (Ok p)
      note size = recv_shrinks [OF Pair [unfolded Ok]]
      have compressed: "login_post z clk r (t_out (f_transport f)) (login z clk (enable_compression n f1) r)"
          "login_post z clk r (t_out (f_transport f)) (login z clk f1 r)" for n
        using less [of "enable_compression n f1"] less [of f1] size keep
        by simp_all
      have declined: "login_post z clk r (t_out (f_transport f)) (login z clk g r)" if "send z f1 a = Ok g" for a g
        using less [of g] that size keep input_size_send [OF that] send_Ok [OF that]
        by (auto intro: login_post_weaken)
      have success: "login_post z clk r (t_out (f_transport f))
          (send_then z f1 login_acknowledged (record_packet clk r p) (\<lambda>f2. (record_packet clk r p, Ok f2)))"
        if "split_id p = Ok (CB_LOGIN_SUCCESS, body)" for body
      proof -
        have id: "packet_id p = Some CB_LOGIN_SUCCESS" using that by (simp add: packet_id_def)
        show ?thesis
          using id keep by (cases "send z f1 login_acknowledged")
            (auto simp: login_post_def send_then_def dest!: send_Ok)
      qed
      show ?thesis
        using compressed declined success
        by (subst login.simps)
          (auto simp: Pair Ok Let_def send_then_def login_ids split: res.splits option.splits)
    qed (simp_all add: Pair login.simps [of z clk f])
  qed
qed

text \<open>What a piece of a session records: always only packets, and on success packets as wanted.\<close>

definition logs :: "clock \<Rightarrow> recorder \<Rightarrow> (bytes list \<Rightarrow> bool) \<Rightarrow> recorder \<times> (session_error, 'a) res \<Rightarrow> bool" where
  "logs clk r P res \<longleftrightarrow> (\<exists>ps. fst res = record_all clk ps r) \<and>
     (\<forall>y. snd res = Ok y \<longrightarrow> (\<exists>ps. fst res = record_all clk ps r \<and> P ps))"

lemma logs_stop: "logs clk r P (r, Err e)" "logs clk r P (r, Panic)"
  by (auto simp: logs_def intro: exI [of _ "[]"])

lemma logs_weaken: "logs clk r P res \<Longrightarrow> (\<And>ps. P ps \<Longrightarrow> Q ps) \<Longrightarrow> logs clk r Q res"
  unfolding logs_def by blast

lemma logs_send_then: "(\<And>g. logs clk r P (k g)) \<Longrightarrow> logs clk r P (send_then z f a r k)"
  by (cases "send z f a") (auto simp: send_then_def logs_stop)

lemma logs_context: "logs clk r P (with_context c res) \<longleftrightarrow> logs clk r P res"
  by (cases res) (simp add: logs_def with_context_def)

lemma logs_then:
  assumes "logs clk r P res" and "\<And>f r'. logs clk r' Q (k f r')"
  shows "logs clk r (\<lambda>ps. \<exists>a b. ps = a @ b \<and> P a \<and> Q b) (then_state res k)"
proof (cases "(res, k)" rule: then_state.cases)
  case (1 r' f k')
  then obtain a where a: "r' = record_all clk a r" "P a" using assms(1) by (auto simp: logs_def)
  have k: "k' = k" "res = (r', Ok f)" using 1 by auto
  obtain b where "fst (k f r') = record_all clk (a @ b) r"
    using assms(2) [of r' f] a(1) by (auto simp: logs_def)
  moreover have "\<exists>b. fst (k f r') = record_all clk (a @ b) r \<and> Q b" if "snd (k f r') = Ok y" for y
    using assms(2) [of r' f] a(1) that by (auto simp: logs_def)
  ultimately show ?thesis
    using a(2) k unfolding logs_def by (simp del: record_all_simps) blast
qed (use assms(1) in \<open>auto simp: logs_def\<close>)

lemma logs_play:
  "logs clk r (\<lambda>ps. (\<forall>x \<in> set ps. play_goes_on x) \<and> length ps \<le> length ts) (play z clk ts f r)"
  unfolding logs_def using play_recorder [of z clk ts f r] play_answers_aux [of z clk ts f r]
  by (metis prod.collapse)

lemma logs_configure:
  "logs clk r (\<lambda>ps. \<exists>cs q. ps = cs @ [q] \<and> (\<forall>c \<in> set cs. config_goes_on c) \<and>
     packet_id q = Some CB_CONFIG_FINISH_CONFIGURATION) (configure z clk f r)"
  unfolding logs_def using configure_recorder [of z clk f r] configure_answers_aux [of z clk f r]
  by (metis prod.collapse)

lemma logs_login:
  "logs clk r (\<lambda>ps. \<exists>p. ps = [p] \<and> packet_id p = Some CB_LOGIN_SUCCESS) (login z clk f r)"
proof -
  obtain r' x where l: "login z clk f r = (r', x)" by (cases "login z clk f r")
  have one: "\<exists>ps. record_packet clk r p = record_all clk ps r" for p by (rule exI [of _ "[p]"]) simp
  have none: "\<exists>ps. r = record_all clk ps r" by (rule exI [of _ "[]"]) simp
  note post = login_meets_post [of z clk r f, unfolded l login_post_def prod.case]
  have "\<exists>ps. r' = record_all clk ps r" using post one none by (cases x) auto
  moreover have "\<exists>p. r' = record_all clk [p] r \<and> packet_id p = Some CB_LOGIN_SUCCESS" if "x = Ok y" for y
    using post that by auto
  ultimately show ?thesis unfolding logs_def l fst_conv snd_conv by blast
qed

section \<open>The recording format\<close>

text \<open>A record as the replay format documents it, and its reader.\<close>

definition record_entry :: "nat \<times> bytes \<Rightarrow> bytes" where
  "record_entry = (\<lambda>(ms, p). be_bytes 4 ms @ be_bytes 4 (length p) @ p)"

definition read_record :: "bytes \<Rightarrow> (io_error, (nat \<times> bytes) \<times> bytes) res" where
  "read_record bs =
     bind_res (read_exact slice_eof 4 bs) (\<lambda>(ms, bs1).
     bind_res (read_exact slice_eof 4 bs1) (\<lambda>(len, bs2).
     bind_res (read_exact slice_eof (be_value len) bs2) (\<lambda>(p, rest).
       Ok ((be_value ms, p), rest))))"

primrec read_records :: "nat \<Rightarrow> bytes \<Rightarrow> (io_error, (nat \<times> bytes) list \<times> bytes) res" where
  "read_records 0 bs = Ok ([], bs)"
| "read_records (Suc n) bs =
     bind_res (read_record bs) (\<lambda>(e, rest).
     bind_res (read_records n rest) (\<lambda>(es, rest'). Ok (e # es, rest')))"

interpretation tmcpr: wire_codec record_entry read_record "\<lambda>(ms, p). ms < 2 ^ 32 \<and> length p < 2 ^ 32"
proof unfold_locales
  fix e :: "nat \<times> bytes" and rest
  assume "case e of (ms, p) \<Rightarrow> ms < 2 ^ 32 \<and> length p < 2 ^ 32"
  then show "read_record (record_entry e @ rest) = Ok (e, rest)"
    by (cases e) (simp add: read_record_def record_entry_def read_exact_def be_value_be_bytes)
qed

lemma read_records_entries:
  "\<forall>(ms, p) \<in> set es. ms < 2 ^ 32 \<and> length p < 2 ^ 32 \<Longrightarrow>
     read_records (length es) (concat (map record_entry es)) = Ok (es, [])"
proof (induction es)
  case (Cons e es)
  then have "read_record (record_entry e @ concat (map record_entry es)) = Ok (e, concat (map record_entry es))"
    by (intro tmcpr.dec_enc) auto
  with Cons show ?case by simp
qed simp

definition timestamp :: "clock \<Rightarrow> nat \<Rightarrow> nat" where
  "timestamp clk k = min ((snd (clk k) - fst (clk 0)) div 10 ^ 6) (2 ^ 32 - 1)"

definition timeline :: "clock \<Rightarrow> bytes list \<Rightarrow> (nat \<times> bytes) list" where
  "timeline clk ps = map (\<lambda>(k, p). (timestamp clk k, p)) (List.enumerate 0 ps)"

lemma unat_minus_one_32: "unat (- 1 :: u32) = 2 ^ 32 - 1"
  by (simp only: unsigned_minus_1_eq_mask) (simp add: mask_nat_def)

lemma unat_saturating_millis: "unat (saturating_millis n) = min (n div 10 ^ 6) (2 ^ 32 - 1)"
  by (simp add: saturating_millis_def unat_of_nat take_bit_nat_eq_self unat_minus_one_32 min_def)

lemma record_packet_entry:
  assumes "length p < 2 ^ 32" and "rec_epoch r = (if rec_packets r = 0 then None else Some (fst (clk 0)))"
  shows "rec_stream (record_packet clk r p) = rec_stream r @ record_entry (timestamp clk (rec_packets r), p)"
    and "rec_packets (record_packet clk r p) = Suc (rec_packets r)"
    and "rec_epoch (record_packet clk r p) = Some (fst (clk 0))"
  using assms
  by (auto simp: record_packet_def Let_def timestamp_def record_entry_def saturating_len_def unat_of_nat
      take_bit_nat_eq_self unat_saturating_millis case_prod_unfold)

lemma record_all_stream:
  assumes "\<forall>p \<in> set ps. length p < 2 ^ 32" and "rec_epoch r = (if rec_packets r = 0 then None else Some (fst (clk 0)))"
  shows "rec_stream (record_all clk ps r) =
      rec_stream r @ concat (map record_entry (map (\<lambda>(k, p). (timestamp clk k, p)) (List.enumerate (rec_packets r) ps)))
    \<and> rec_packets (record_all clk ps r) = rec_packets r + length ps"
  using assms
proof (induction ps arbitrary: r)
  case (Cons p ps)
  then have p: "length p < 2 ^ 32" by simp
  note e = record_packet_entry [of p r clk, OF p Cons.prems(2)]
  have "rec_epoch (record_packet clk r p) =
      (if rec_packets (record_packet clk r p) = 0 then None else Some (fst (clk 0)))"
    using e by simp
  from Cons.IH [OF _ this] Cons.prems(1) e show ?case by simp
qed simp

section \<open>Sample sessions\<close>

definition sample_zlib :: zlib where
  "sample_zlib = \<lparr>deflate = (\<lambda>x. x), inflate_upto = (\<lambda>n x. Ok (take n x))\<rparr>"

definition sample_md5 :: "bytes \<Rightarrow> bytes" where
  "sample_md5 = (\<lambda>_. replicate 16 0xFF)"

definition sample_clock :: clock where
  "sample_clock = (\<lambda>k. (5, 5 + k * 1000000))"

definition sample_peer :: "bytes \<Rightarrow> transport" where
  "sample_peer input = \<lparr>t_bursts = [(input, slice_eof)], t_out = [], t_fault = None\<rparr>"

definition sample_address :: server_address where
  "sample_address = \<lparr>sa_host = ''h'', sa_port = 25565\<rparr>"

definition sample_config :: config where
  "sample_config = \<lparr>username = ''bot'', protocol_version = 776\<rparr>"

text \<open>Compression with threshold 4, login success; then a known-packs request, a ping and the end.\<close>

definition sample_login :: bytes where
  "sample_login = [2, 3, 4, 2, 0, 2]"

definition sample_configuration :: bytes where
  "sample_configuration = [2, 0, 14, 3, 0, 5, 9, 2, 0, 3]"

section \<open>Properties\<close>

text \<open>
  C35: every 32-bit integer has an encoding of one to five bytes, as long as its bit length needs
  (at most \<open>k\<close> bytes exactly when it has at most \<open>7 k\<close> bits), appended to what was written before;
  and reading it back gives the integer and leaves exactly the bytes that follow.
\<close>

theorem varint_roundtrip:
  "write_varint out v = out @ write_varint [] v \<and>
   0 < length (write_varint [] v) \<and> length (write_varint [] v) \<le> 5 \<and>
   (length (write_varint [] v) \<le> Suc k \<longleftrightarrow> unat v < 128 ^ Suc k) \<and>
   read_varint eof (write_varint [] v @ rest) = Ok (v, rest)"
proof -
  have "0 < length (write_varint [] v) \<and> (length (write_varint [] v) \<le> Suc k \<longleftrightarrow> unat v < 128 ^ Suc k)"
    unfolding write_varint_def using varint_length_iff [of v k] varint_length_nonzero [of v] by blast
  then show ?thesis
    using write_varint_append [of out v] varint_length_le_5 [of v] read_write_varint [of eof v rest] by blast
qed



text \<open>
  C31: a frame of a payload is read back as exactly that payload, with the following bytes untouched,
  when the payload is within the reader's limit; when it is over the limit it is rejected as invalid
  data; and no frame whatsoever yields more than the limit.
\<close>

theorem frame_roundtrip_and_limit:
  assumes "write_frame payload = Ok frame"
  shows "read_frame eof m (frame @ rest) =
      (if length payload \<le> m then Ok (payload, rest)
       else Err (io_err InvalidData (''frame of '' @ show_nat (length payload) @
         '' bytes exceeds limit of '' @ show_nat m)))
    \<and> (\<forall>bs p r. read_frame eof m bs = Ok (p, r) \<longrightarrow> length p \<le> m)"
proof -
  obtain n where n: "i32_of_len (length payload) = Some n" "frame = write_varint [] n @ payload"
    using assms by (auto simp: write_frame_def split: option.splits)
  then have "\<not> length payload \<le> m \<Longrightarrow> read_frame eof m (frame @ rest) =
      Err (io_err InvalidData (''frame of '' @ show_nat (length payload) @ '' bytes exceeds limit of '' @ show_nat m))"
    by (simp add: read_frame_def read_write_varint i32_of_len_usize)
  then show ?thesis
    using read_write_frame [OF assms] read_frame_Ok by auto
qed

theorem frame_roundtrip_and_limit_witness:
  "write_frame [7, 8] = Ok [2, 7, 8] \<and> read_frame slice_eof 2 ([2, 7, 8] @ [1]) = Ok ([7, 8], [1])"
proof -
  have w: "write_frame [7, 8] = Ok [2, 7, 8]" by code_simp
  show ?thesis using frame_roundtrip_and_limit [OF w, of slice_eof 2 "[1]"] w by simp
qed

text \<open>
  C37: a string field written by \<open>write_string\<close> is read back exactly, with the following bytes untouched,
  when it is valid UTF-8 and within the reader's limit; and whatever the peer sends, a string that is
  read is valid UTF-8 and within the limit.
\<close>

theorem string_roundtrip:
  assumes "write_string [] s = Ok bs" and "utf8 s" and "length s \<le> m"
  shows "read_string eof m (bs @ rest) = Ok (s, rest) \<and>
     (\<forall>input t r. read_string eof m input = Ok (t, r) \<longrightarrow> utf8 t \<and> length t \<le> m)"
proof -
  have "utf8 t \<and> length t \<le> m" if "read_string eof m input = Ok (t, r)" for input t r
  proof -
    from that obtain b rest' len where "read_exact eof len rest' = Ok (b, r)" "from_utf8 b = Some t" "len \<le> m"
      by (auto simp: read_string_def res_simps split: option.splits if_splits)
    then show ?thesis by (auto simp: read_exact_Ok from_utf8_Some)
  qed
  then show ?thesis using read_write_string [OF assms(1,3,2)] by auto
qed

theorem string_roundtrip_witness:
  "read_string slice_eof 8 ([2, 104, 105] @ [0]) = Ok (''hi'', [0])"
proof -
  have w: "write_string [] ''hi'' = (Ok [2, 104, 105] :: (unit, bytes) res)" by code_simp
  show ?thesis using string_roundtrip [OF w, of 8 slice_eof "[0]"] by (simp add: utf8_def)
qed

text \<open>
  C9: what one end sends, the other receives. If both ends have the same compression threshold and
  the packet is within the protocol's limits, then receiving the bytes that \<open>send\<close> put on the wire gives
  back the same packet in either compression mode and leaves exactly the bytes that follow. (Assumed of
  the zlib crate: inflating what it deflated gives the input, up to the requested number of bytes.)
\<close>

theorem send_recv_roundtrip:
  assumes "\<forall>n. inflate_upto z n (deflate z pkt) = Ok (take n pkt)"
    and "send z f pkt = Ok f'" and "packet_fits z (threshold f) pkt"
    and "threshold g = threshold f"
    and "t_bursts (f_transport g) = (drop (length (t_out (f_transport f))) (t_out (f_transport f')) @ rest, eof) # bs"
  shows "recv z g = (rest_of_burst rest g, Ok pkt)"
proof -
  have wire: "drop (length (t_out (f_transport f))) (t_out (f_transport f')) = wire_of z (threshold f) pkt"
    using send_Ok [OF assms(2)] by simp
  have pkt: "pkt \<noteq> []" "length pkt \<le> MAX_PACKET" using assms(3) by (simp_all add: packet_fits_def)
  show ?thesis
  proof (cases "threshold f")
    case None
    have "read_frame eof MAX_PACKET (frame_of pkt @ rest) = Ok (pkt, rest)"
      using pkt MAX_PACKET_less by (intro frame.dec_enc) simp
    with None show ?thesis using assms(4,5) wire by (simp add: recv_def current_def wire_of_def)
  next
    case (Some th)
    then have "length (payload_of z th pkt) \<le> MAX_PACKET" using assms(3) by (simp add: packet_fits_def)
    then have "read_frame eof MAX_PACKET (frame_of (payload_of z th pkt) @ rest) = Ok (payload_of z th pkt, rest)"
      using MAX_PACKET_less by (intro frame.dec_enc) simp
    with Some show ?thesis
      using assms(4,5) wire unpack_payload [OF assms(1) pkt] by (simp add: recv_def current_def wire_of_def)
  qed
qed

theorem send_recv_roundtrip_witness:
  "recv sample_zlib (enable_compression 2 (new_framed (sample_peer [4, 3, 1, 2, 3]))) =
     (rest_of_burst [] (enable_compression 2 (new_framed (sample_peer [4, 3, 1, 2, 3]))), Ok [1, 2, 3])"
proof -
  have s: "send sample_zlib (enable_compression 2 (new_framed (sample_peer []))) [1, 2, 3] =
      Ok (appended (enable_compression 2 (new_framed (sample_peer []))) [4, 3, 1, 2, 3])" by code_simp
  show ?thesis
    using send_recv_roundtrip [OF _ s, of "enable_compression 2 (new_framed (sample_peer [4, 3, 1, 2, 3]))" "[]" slice_eof "[]"]
    by (simp add: sample_zlib_def packet_fits_def new_framed_def enable_compression_def sample_peer_def
        MAX_PACKET_def payload_of_def write_varint_def varint_loop.simps [of "[]"] low7_def Let_def)
qed

text \<open>
  C30: no peer can make the bot hold more than the packet limit. Whatever bytes arrive and whatever the
  zlib stream inflates to, a received packet has at most \<open>MAX_PACKET\<close> bytes, receiving never panics,
  and a received packet has used up input.
\<close>

theorem recv_bounded:
  assumes "\<forall>n x. inflate_upto z n x \<noteq> Panic"
  shows "(case recv z f of
            (f', Ok pkt) \<Rightarrow> length pkt \<le> MAX_PACKET \<and> input_size f' < input_size f
          | (f', Err e) \<Rightarrow> True
          | (f', Panic) \<Rightarrow> False)"
proof -
  have "length pkt \<le> MAX_PACKET" if got: "recv z f = (f', Ok pkt)" for f' pkt
  proof -
    obtain avail eof where cur: "current f = (avail, eof)" by (cases "current f")
    obtain payload rest where fr: "read_frame eof MAX_PACKET avail = Ok (payload, rest)"
      and p: "(if threshold f = None then Ok payload else unpack z payload) = Ok pkt"
      using got cur by (cases "read_frame eof MAX_PACKET avail") (auto simp: recv_def)
    have len: "length payload \<le> MAX_PACKET" using read_frame_Ok [OF fr] by simp
    show ?thesis
    proof (cases "threshold f = None")
      case False
      then obtain d body where d: "read_varint slice_eof payload = Ok (d, body)"
          "pkt = body \<or> length pkt \<le> MAX_PACKET"
        using p by (auto simp: unpack_def res_simps split: if_splits option.splits)
      with read_varint_consumes [OF d(1)] len show ?thesis by auto
    qed (use p len in simp)
  qed
  moreover have "unpack z payload \<noteq> Panic" for payload
    using assms by (auto simp: unpack_def res_simps split: if_splits option.splits)
  then have "snd (recv z f) \<noteq> Panic"
    by (auto simp: recv_def split: prod.splits res.splits)
  ultimately show ?thesis
    using recv_shrinks [of z f] by (auto split: prod.splits res.splits)
qed

theorem recv_bounded_witness:
  "snd (recv sample_zlib (new_framed (sample_peer [1, 7]))) = Ok [7] \<and> length [7 :: u8] \<le> MAX_PACKET"
proof -
  have "recv sample_zlib (new_framed (sample_peer [1, 7])) = (fst (recv sample_zlib (new_framed (sample_peer [1, 7]))), Ok [7])"
    by code_simp
  moreover have "\<forall>n x. inflate_upto sample_zlib n x \<noteq> Panic" by (simp add: sample_zlib_def)
  ultimately show ?thesis
    using recv_bounded [of sample_zlib "new_framed (sample_peer [1, 7])"] by (auto split: prod.splits)
qed

text \<open>
  C33: the configuration state does exactly what the protocol asks. When it ends well, it received a
  sequence of packets of which only the last is the end of configuration and none is a kick; the bytes it
  put on the wire are the frames of exactly the required answers (known packs, keep-alives and pings with
  their own body, the final acknowledgement), in order; and it recorded exactly the received packets.
\<close>

theorem configure_answers:
  assumes "configure z clk f r = (r', Ok f')"
  shows "\<exists>ps p g. recv_n z (Suc (length ps)) f = Some (ps @ [p], g) \<and> same_input g f' \<and>
     packet_id p = Some CB_CONFIG_FINISH_CONFIGURATION \<and> (\<forall>q \<in> set ps. config_goes_on q) \<and>
     r' = record_all clk (ps @ [p]) r \<and>
     t_out (f_transport f') = t_out (f_transport f) @ wires z (threshold f) config_reply (ps @ [p])"
  using configure_answers_aux [OF assms] .

abbreviation sample_config_start :: framed where
  "sample_config_start \<equiv> enable_compression 4 (new_framed (sample_peer sample_configuration))"

theorem configure_answers_witness:
  "\<exists>ps p f'. snd (configure sample_zlib sample_clock sample_config_start new_recorder) = Ok f' \<and>
     packet_id p = Some CB_CONFIG_FINISH_CONFIGURATION \<and>
     t_out (f_transport f') = wires sample_zlib (Some 4) config_reply (ps @ [p])"
proof -
  let ?c = "configure sample_zlib sample_clock sample_config_start new_recorder"
  have "(case snd ?c of Ok _ \<Rightarrow> True | _ \<Rightarrow> False)" by code_simp
  then obtain f' where "?c = (fst ?c, Ok f')" by (cases ?c; cases "snd ?c") auto
  from configure_answers [OF this] show ?thesis
    by (metis \<open>?c = (fst ?c, Ok f')\<close> snd_conv append_Nil enable_compression_def framed.select_convs(2)
        framed.update_convs(2) transport_compression new_framed_def framed.select_convs(1) sample_peer_def
        transport.select_convs(2) framed.surjective)
qed



text \<open>
  C38: the recording round trip. Reading the recorded stream as the replay format documents it gives back,
  for any sequence of packets, exactly these packets in order, each with the milliseconds since the
  first one, pinned to the largest 32-bit value, and nothing is left over.
\<close>

theorem recording_roundtrip:
  assumes "\<forall>p \<in> set ps. length p < 2 ^ 32"
  shows "read_records (length ps) (rec_stream (record_all clk ps new_recorder)) = Ok (timeline clk ps, []) \<and>
     rec_packets (record_all clk ps new_recorder) = length ps"
proof -
  have s: "rec_stream (record_all clk ps new_recorder) = concat (map record_entry (timeline clk ps))"
    "rec_packets (record_all clk ps new_recorder) = length ps"
    using record_all_stream [OF assms, of new_recorder clk] by (simp_all add: new_recorder_def timeline_def)
  have "\<forall>(ms, p) \<in> set (timeline clk ps). ms < 2 ^ 32 \<and> length p < 2 ^ 32"
    using assms by (auto simp: timeline_def timestamp_def in_set_enumerate_eq)
  from read_records_entries [OF this] show ?thesis
    using s by (simp add: timeline_def)
qed

theorem recording_roundtrip_witness:
  "read_records 2 (rec_stream (record_all sample_clock [[1], [2, 3]] new_recorder)) = Ok ([(0, [1]), (1, [2, 3])], [])"
proof -
  have "timeline sample_clock [[1], [2, 3]] = [(0, [1]), (1, [2, 3])]" by code_simp
  moreover have "read_records (length [[1], [2, 3 :: u8]]) (rec_stream (record_all sample_clock [[1], [2, 3]] new_recorder)) =
      Ok (timeline sample_clock [[1], [2, 3]], [])"
    by (rule recording_roundtrip [THEN conjunct1]) simp
  ultimately show ?thesis by (simp only: list.size) (simp add: numeral_2_eq_2)
qed

text \<open>
  The offline profile id is a well-formed name-based identifier: sixteen bytes that differ from the
  digest at most in the version and variant bits, with version 3 in the high half of byte 6 and the
  variant \<open>10\<close> in the top bits of byte 8. (The MD5 digest has sixteen bytes.)
\<close>

theorem offline_profile_id_rfc4122:
  assumes "\<forall>x. length (md5 x) = 16"
  shows "let b = offline_profile_id md5 name; d = md5 (as_bytes (''OfflinePlayer:'' @ name))
    in length b = 16 \<and> b ! 6 AND 0xF0 = 0x30 \<and> b ! 8 AND 0xC0 = 0x80 \<and>
       b ! 6 AND 0x0F = d ! 6 AND 0x0F \<and> b ! 8 AND 0x3F = d ! 8 AND 0x3F \<and>
       (\<forall>i < 16. i \<noteq> 6 \<longrightarrow> i \<noteq> 8 \<longrightarrow> b ! i = d ! i)"
proof -
  have v: "((x AND 0x0F) OR 0x30) AND 0xF0 = 0x30" "((x AND 0x3F) OR 0x80) AND 0xC0 = 0x80"
    "((x AND 0x0F) OR 0x30) AND 0x0F = x AND 0x0F" "((x AND 0x3F) OR 0x80) AND 0x3F = x AND 0x3F" for x :: u8
    by (simp_all add: bit.conj_disj_distrib2 and.assoc)
  show ?thesis
    using assms by (simp add: offline_profile_id_def Let_def v)
qed

theorem offline_profile_id_rfc4122_witness:
  "length (offline_profile_id sample_md5 ''bot'') = 16 \<and> offline_profile_id sample_md5 ''bot'' ! 6 AND 0xF0 = 0x30"
  using offline_profile_id_rfc4122 [of sample_md5 "''bot''"] by (simp add: sample_md5_def Let_def)

end
