(* ===== verification/Mc_Nbt.thy ===== *)
theory Mc_Nbt
  imports Byte_Text
begin

text \<open>
  The NBT encoder of \<^verbatim>\<open>packages/minecraft/nbt/src/lib.rs\<close>: from a JSON document to a tree of NBT tags.
  JSON values and NBT tags are the public enumerations of the crates \<^verbatim>\<open>serde_json\<close> and \<^verbatim>\<open>quartz_nbt\<close>;
  an object or a compound is the list of its entries in iteration order, with distinct keys. A JSON
  number is opaque: what \<^verbatim>\<open>as_i64\<close>, \<^verbatim>\<open>as_u64\<close>, \<^verbatim>\<open>is_f64\<close> and \<^verbatim>\<open>as_f64\<close> answer is an argument.
  Floating-point numbers are their IEEE 754 bit patterns. Errors are a datatype with the path the
  message starts with.
\<close>

section \<open>JSON and NBT trees\<close>

datatype 'n json =
    JNull
  | JBool bool
  | JNumber 'n
  | JString string
  | JArray "'n json list"
  | JObject "(string \<times> 'n json) list"

type_synonym f32 = "32 word"
type_synonym f64 = "64 word"

record 'n numbers =
  as_i64_of :: "'n \<Rightarrow> int option"
  as_u64_of :: "'n \<Rightarrow> nat option"
  is_f64 :: "'n \<Rightarrow> bool"
  as_f64_of :: "'n \<Rightarrow> f64 option"

datatype nbt =
    NByte u8
  | NShort u16
  | NInt u32
  | NLong u64
  | NFloat f32
  | NDouble f64
  | NByteArray "u8 list"
  | NString string
  | NList "nbt list"
  | NCompound "(string \<times> nbt) list"
  | NIntArray "u32 list"
  | NLongArray "u64 list"

datatype nbt_error =
    RootWithoutName
  | RootWithoutValue
  | RootNotCompound string
  | NullTag string
  | RootInside string
  | TagWithoutValue string string
  | NotAString string
  | NotAnArray string string
  | NotAnObject string
  | UnsupportedTag string string
  | MixedList string string string
  | NotFinite string string
  | FloatRange string string f64
  | OutOfRange string string int int int
  | TooLarge string string nat
  | NotAnInteger string string

fun tag_kind :: "nbt \<Rightarrow> string" where
  "tag_kind (NByte _) = ''byte''"
| "tag_kind (NShort _) = ''short''"
| "tag_kind (NInt _) = ''int''"
| "tag_kind (NLong _) = ''long''"
| "tag_kind (NFloat _) = ''float''"
| "tag_kind (NDouble _) = ''double''"
| "tag_kind (NByteArray _) = ''byteArray''"
| "tag_kind (NString _) = ''string''"
| "tag_kind (NList _) = ''list''"
| "tag_kind (NCompound _) = ''compound''"
| "tag_kind (NIntArray _) = ''intArray''"
| "tag_kind (NLongArray _) = ''longArray''"

section \<open>Floating-point bit patterns\<close>

definition f64_exponent :: "f64 \<Rightarrow> nat" where
  "f64_exponent x = unat x div 2 ^ 52 mod 2 ^ 11"

definition is_finite :: "f64 \<Rightarrow> bool" where
  "is_finite x \<longleftrightarrow> f64_exponent x \<noteq> 2047"

text \<open>Magnitudes are ordered like their bit patterns without the sign; the bound is the largest \<^verbatim>\<open>f32\<close> as \<^verbatim>\<open>f64\<close>.\<close>

definition in_f32_range :: "f64 \<Rightarrow> bool" where
  "in_f32_range x \<longleftrightarrow> unat x mod 2 ^ 63 \<le> 0x47EFFFFFE0000000"

text \<open>Dropping low bits, to the nearest and to even on a tie.\<close>

definition round_off :: "nat \<Rightarrow> nat \<Rightarrow> nat" where
  "round_off k n =
     (let q = n div 2 ^ k; r = n mod 2 ^ k in
      if 2 ^ k < 2 * r \<or> (2 ^ k = 2 * r \<and> odd q) then q + 1 else q)"

text \<open>
  \<^verbatim>\<open>value as f32\<close> of a finite value: 29 of the 52 fraction bits go, and more below the exponent of the
  smallest normal \<^verbatim>\<open>f32\<close>. A carry out of the fraction runs into the exponent.
\<close>

definition f32_of_f64 :: "f64 \<Rightarrow> f32" where
  "f32_of_f64 x =
     (let sign = unat x div 2 ^ 63; e = f64_exponent x; m = unat x mod 2 ^ 52;
          sig = (if e = 0 then m else 2 ^ 52 + m);
          mag = (if 897 \<le> e then (e - 897) * 2 ^ 23 + round_off 29 sig
                 else round_off (29 + (897 - max e 1)) sig) in
      word_of_nat (sign * 2 ^ 31 + mag))"

section \<open>Numbers\<close>

definition i64_max :: int where
  "i64_max = 2 ^ 63 - 1"

definition as_i64 :: "'n numbers \<Rightarrow> string \<Rightarrow> string \<Rightarrow> 'n json \<Rightarrow> (nbt_error, int) res" where
  "as_i64 k path tag v =
     (case v of
        JNumber n \<Rightarrow>
          (case as_i64_of k n of
             Some i \<Rightarrow> Ok i
           | None \<Rightarrow>
               (case as_u64_of k n of
                  Some u \<Rightarrow> if int u \<le> i64_max then Ok (int u) else Err (TooLarge path tag u)
                | None \<Rightarrow> Err (NotAnInteger path tag)))
      | _ \<Rightarrow> Err (NotAnInteger path tag))"

definition ranged_i64 :: "'n numbers \<Rightarrow> string \<Rightarrow> string \<Rightarrow> 'n json \<Rightarrow> int \<Rightarrow> int \<Rightarrow> (nbt_error, int) res" where
  "ranged_i64 k path tag v lo hi =
     bind_res (as_i64 k path tag v) (\<lambda>i. if lo \<le> i \<and> i \<le> hi then Ok i else Err (OutOfRange path tag i lo hi))"

definition integer_tag ::
  "'n numbers \<Rightarrow> string \<Rightarrow> string \<Rightarrow> 'n json \<Rightarrow> int \<Rightarrow> int \<Rightarrow> (int \<Rightarrow> nbt) \<Rightarrow> (nbt_error, nbt) res" where
  "integer_tag k path tag v lo hi build = bind_res (ranged_i64 k path tag v lo hi) (\<lambda>i. Ok (build i))"

definition index_path :: "string \<Rightarrow> nat \<Rightarrow> string" where
  "index_path path i = path @ ''['' @ show_nat i @ '']''"

fun ranged_array ::
  "'n numbers \<Rightarrow> string \<Rightarrow> string \<Rightarrow> int \<Rightarrow> int \<Rightarrow> nat \<Rightarrow> 'n json list \<Rightarrow> (nbt_error, int list) res" where
  "ranged_array k path tag lo hi i [] = Ok []"
| "ranged_array k path tag lo hi i (v # vs) =
     bind_res (ranged_i64 k (index_path path i) tag v lo hi) (\<lambda>x.
     bind_res (ranged_array k path tag lo hi (i + 1) vs) (\<lambda>xs. Ok (x # xs)))"

definition integer_array_tag ::
  "'n numbers \<Rightarrow> string \<Rightarrow> string \<Rightarrow> 'n json \<Rightarrow> int \<Rightarrow> int \<Rightarrow> (int list \<Rightarrow> nbt) \<Rightarrow> (nbt_error, nbt) res" where
  "integer_array_tag k path tag v lo hi build =
     (case v of
        JArray vs \<Rightarrow> bind_res (ranged_array k path tag lo hi 0 vs) (\<lambda>xs. Ok (build xs))
      | _ \<Rightarrow> Err (NotAnArray path tag))"

definition as_f64 :: "'n numbers \<Rightarrow> 'n json \<Rightarrow> f64 option" where
  "as_f64 k v = (case v of JNumber n \<Rightarrow> as_f64_of k n | _ \<Rightarrow> None)"

definition float_tag :: "'n numbers \<Rightarrow> string \<Rightarrow> string \<Rightarrow> 'n json \<Rightarrow> (f64 \<Rightarrow> (nbt_error, nbt) res) \<Rightarrow> (nbt_error, nbt) res" where
  "float_tag k path tag v build =
     (case as_f64 k v of
        Some x \<Rightarrow> if is_finite x then build x else Err (NotFinite path tag)
      | None \<Rightarrow> Err (NotFinite path tag))"

definition nbt_float :: "string \<Rightarrow> string \<Rightarrow> f64 \<Rightarrow> (nbt_error, nbt) res" where
  "nbt_float path tag x = (if in_f32_range x then Ok (NFloat (f32_of_f64 x)) else Err (FloatRange path tag x))"

definition decode_implicit_number :: "'n numbers \<Rightarrow> string \<Rightarrow> 'n \<Rightarrow> (nbt_error, nbt) res" where
  "decode_implicit_number k path n =
     (if is_f64 k n
      then (case as_f64_of k n of
              Some x \<Rightarrow> if is_finite x then Ok (NDouble x) else Err (NotFinite path ''number'')
            | None \<Rightarrow> Err (NotFinite path ''number''))
      else bind_res (as_i64 k path ''number'' (JNumber n)) (\<lambda>i.
        Ok (if - (2 ^ 31) \<le> i \<and> i \<le> 2 ^ 31 - 1 then NInt (word_of_int i) else NLong (word_of_int i))))"

section \<open>Tags\<close>

definition TAG_KEY :: string where
  "TAG_KEY = ''__minecraftNbt''"

definition VALUE_KEY :: string where
  "VALUE_KEY = ''value''"

definition tag_name :: "(string \<times> 'n json) list \<Rightarrow> string option" where
  "tag_name ob = (case map_of ob TAG_KEY of Some (JString s) \<Rightarrow> Some s | _ \<Rightarrow> None)"

definition tagged_value :: "(string \<times> 'n json) list \<Rightarrow> 'n json option" where
  "tagged_value ob = map_of ob VALUE_KEY"

text \<open>The scalar tags and arrays of \<^verbatim>\<open>decode_explicit_tag\<close>; the two nested ones are none here.\<close>

definition decode_flat_tag :: "'n numbers \<Rightarrow> string \<Rightarrow> string \<Rightarrow> 'n json \<Rightarrow> (nbt_error, nbt) res" where
  "decode_flat_tag k path tag v =
     (if tag = ''byte'' then integer_tag k path tag v (- (2 ^ 7)) (2 ^ 7 - 1) (\<lambda>i. NByte (word_of_int i))
      else if tag = ''short'' then integer_tag k path tag v (- (2 ^ 15)) (2 ^ 15 - 1) (\<lambda>i. NShort (word_of_int i))
      else if tag = ''int'' then integer_tag k path tag v (- (2 ^ 31)) (2 ^ 31 - 1) (\<lambda>i. NInt (word_of_int i))
      else if tag = ''long'' then integer_tag k path tag v (- (2 ^ 63)) i64_max (\<lambda>i. NLong (word_of_int i))
      else if tag = ''float'' then float_tag k path tag v (nbt_float path tag)
      else if tag = ''double'' then float_tag k path tag v (\<lambda>x. Ok (NDouble x))
      else if tag = ''string'' then (case v of JString s \<Rightarrow> Ok (NString s) | _ \<Rightarrow> Err (NotAString path))
      else if tag = ''byteArray'' then
        integer_array_tag k path tag v (- (2 ^ 7)) (2 ^ 7 - 1) (\<lambda>xs. NByteArray (map word_of_int xs))
      else if tag = ''intArray'' then
        integer_array_tag k path tag v (- (2 ^ 31)) (2 ^ 31 - 1) (\<lambda>xs. NIntArray (map word_of_int xs))
      else if tag = ''longArray'' then
        integer_array_tag k path tag v (- (2 ^ 63)) i64_max (\<lambda>xs. NLongArray (map word_of_int xs))
      else Err (UnsupportedTag path tag))"

text \<open>\<^verbatim>\<open>NbtCompound::insert\<close> on an insertion-ordered map.\<close>

fun compound_insert :: "string \<Rightarrow> nbt \<Rightarrow> (string \<times> nbt) list \<Rightarrow> (string \<times> nbt) list" where
  "compound_insert key t [] = [(key, t)]"
| "compound_insert key t ((key', t') # c) = (if key = key' then (key, t) # c else (key', t') # compound_insert key t c)"

lemma map_of_size: "map_of ob key = Some v \<Longrightarrow> size v < size (JObject ob)"
proof (induction ob)
  case (Cons e ob)
  then show ?case by (cases e) (auto split: if_splits)
qed simp

function decode_tag :: "'n numbers \<Rightarrow> string \<Rightarrow> 'n json \<Rightarrow> (nbt_error, nbt) res"
  and decode_compound :: "'n numbers \<Rightarrow> string \<Rightarrow> (string \<times> 'n json) list \<Rightarrow> (string \<times> nbt) list \<Rightarrow> (nbt_error, nbt) res"
  and decode_list :: "'n numbers \<Rightarrow> string \<Rightarrow> 'n json list \<Rightarrow> nat \<Rightarrow> string option \<Rightarrow> nbt list \<Rightarrow> (nbt_error, nbt) res" where
  "decode_tag k path (JObject ob) =
     (case tag_name ob of
        None \<Rightarrow> decode_compound k path ob []
      | Some tag \<Rightarrow>
          if tag = ''root'' then Err (RootInside path)
          else (case tagged_value ob of
             None \<Rightarrow> Err (TagWithoutValue path tag)
           | Some v \<Rightarrow>
               if tag = ''list'' then (case v of JArray vs \<Rightarrow> decode_list k path vs 0 None [] | _ \<Rightarrow> Err (NotAnArray path tag))
               else if tag = ''compound'' then (case v of JObject ob' \<Rightarrow> decode_compound k path ob' [] | _ \<Rightarrow> Err (NotAnObject path))
               else decode_flat_tag k path tag v))"
| "decode_tag k path (JArray vs) = decode_list k path vs 0 None []"
| "decode_tag k path (JString s) = Ok (NString s)"
| "decode_tag k path (JBool b) = Ok (NByte (if b then 1 else 0))"
| "decode_tag k path (JNumber n) = decode_implicit_number k path n"
| "decode_tag k path JNull = Err (NullTag path)"
| "decode_compound k path [] c = Ok (NCompound c)"
| "decode_compound k path ((key, v) # ob) c =
     bind_res (decode_tag k (path @ ''.'' @ key) v) (\<lambda>t. decode_compound k path ob (compound_insert key t c))"
| "decode_list k path [] i element_kind ts = Ok (NList ts)"
| "decode_list k path (v # vs) i element_kind ts =
     bind_res (decode_tag k (index_path path i) v) (\<lambda>t.
       case element_kind of
         Some expected \<Rightarrow>
           if tag_kind t = expected then decode_list k path vs (i + 1) element_kind (ts @ [t])
           else Err (MixedList (index_path path i) expected (tag_kind t))
       | None \<Rightarrow> decode_list k path vs (i + 1) (Some (tag_kind t)) (ts @ [t]))"
  by pat_completeness auto

termination
proof (relation "measure (\<lambda>x. case x of Inl (k, path, v) \<Rightarrow> size v
    | Inr (Inl (k, path, ob, c)) \<Rightarrow> size_list (size_prod (\<lambda>_. 0) size) ob
    | Inr (Inr (k, path, vs, i, e, ts)) \<Rightarrow> size_list size vs)", goal_cases)
qed (auto simp: tagged_value_def dest: map_of_size)

record nbt_document =
  root_name :: string
  root_compound :: "(string \<times> nbt) list"

definition document_root :: "'n json \<Rightarrow> string \<Rightarrow> (nbt_error, string \<times> 'n json) res" where
  "document_root v default_root_name =
     (case v of
        JObject ob \<Rightarrow>
          if tag_name ob = Some ''root'' then
            (case map_of ob ''name'' of
               Some (JString name) \<Rightarrow>
                 (case tagged_value ob of Some rv \<Rightarrow> Ok (name, rv) | None \<Rightarrow> Err RootWithoutValue)
             | _ \<Rightarrow> Err RootWithoutName)
          else Ok (default_root_name, v)
      | _ \<Rightarrow> Ok (default_root_name, v))"

definition as_document :: "string \<Rightarrow> nbt \<Rightarrow> (nbt_error, nbt_document) res" where
  "as_document name t =
     (case t of
        NCompound c \<Rightarrow> Ok \<lparr>root_name = name, root_compound = c\<rparr>
      | other \<Rightarrow> Err (RootNotCompound (tag_kind other)))"

definition decode_document :: "'n numbers \<Rightarrow> 'n json \<Rightarrow> string \<Rightarrow> (nbt_error, nbt_document) res" where
  "decode_document k v default_root_name =
     bind_res (document_root v default_root_name) (\<lambda>(name, rv).
     bind_res (decode_tag k ''$'' rv) (as_document name))"

end
