(* ===== verification/Mc_Nbt_Properties.thy ===== *)
theory Mc_Nbt_Properties
  imports Mc_Nbt "HOL-Library.Code_Target_Nat"
begin

text \<open>
  Correctness of the NBT encoder: what it returns is a tree NBT can hold, and every such tree can be
  written as a JSON document with explicit tags that is read back exactly.
\<close>

section \<open>Trees NBT can hold\<close>

fun homogeneous :: "nbt \<Rightarrow> bool" where
  "homogeneous (NList ts) \<longleftrightarrow> (\<forall>t \<in> set ts. homogeneous t) \<and> (\<forall>t \<in> set ts. tag_kind t = tag_kind (hd ts))"
| "homogeneous (NCompound c) \<longleftrightarrow> distinct (map fst c) \<and> (\<forall>e \<in> set c. homogeneous (snd e))"
| "homogeneous (NDouble x) \<longleftrightarrow> is_finite x"
| "homogeneous _ \<longleftrightarrow> True"

lemma compound_insert_new: "key \<notin> fst ` set c \<Longrightarrow> compound_insert key t c = c @ [(key, t)]"
  by (induction c) auto

lemma keys_compound_insert: "set (map fst (compound_insert key t c)) = insert key (set (map fst c))"
  by (induction key t c rule: compound_insert.induct) auto

lemma distinct_compound_insert: "distinct (map fst c) \<Longrightarrow> distinct (map fst (compound_insert key t c))"
proof (induction key t c rule: compound_insert.induct)
  case (2 key t key' t' c)
  then show ?case using keys_compound_insert [of key t c] by auto
qed simp

lemma set_compound_insert: "e \<in> set (compound_insert key t c) \<Longrightarrow> e = (key, t) \<or> e \<in> set c"
  by (induction c) (auto split: if_splits)

lemma flat_tag_homogeneous: "decode_flat_tag k path tag v = Ok t \<Longrightarrow> homogeneous t"
  by (auto simp: decode_flat_tag_def integer_tag_def integer_array_tag_def float_tag_def nbt_float_def res_simps
      split: if_splits json.splits option.splits)

lemma implicit_number_homogeneous: "decode_implicit_number k path n = Ok t \<Longrightarrow> homogeneous t"
  by (auto simp: decode_implicit_number_def res_simps split: if_splits option.splits)

definition list_so_far :: "string option \<Rightarrow> nbt list \<Rightarrow> bool" where
  "list_so_far element_kind ts \<longleftrightarrow>
     (\<forall>t \<in> set ts. homogeneous t) \<and>
     (case element_kind of None \<Rightarrow> ts = [] | Some e \<Rightarrow> ts \<noteq> [] \<and> (\<forall>t \<in> set ts. tag_kind t = e))"

lemma list_so_far_homogeneous: "list_so_far e ts \<Longrightarrow> homogeneous (NList ts)"
  by (cases ts) (auto simp: list_so_far_def split: option.splits)

lemma decode_homogeneous:
  "decode_tag k path v = Ok t \<Longrightarrow> homogeneous t"
  "decode_compound k path ob c = Ok t \<Longrightarrow> homogeneous (NCompound c) \<Longrightarrow> homogeneous t \<and> (\<exists>c'. t = NCompound c')"
  "decode_list k path vs i e ts = Ok t \<Longrightarrow> list_so_far e ts \<Longrightarrow> homogeneous t"
proof (induction k path v and k path ob c and k path vs i e ts arbitrary: t and t and t
    rule: decode_tag_decode_compound_decode_list.induct)
  case (1 k path ob)
  then show ?case
    by (auto simp: list_so_far_def split: option.splits if_splits json.splits dest: flat_tag_homogeneous)
next
  case (2 k path vs)
  then show ?case by (simp add: list_so_far_def)
next
  case (5 k path n)
  then show ?case by (simp add: implicit_number_homogeneous)
next
  case (8 k path key v ob c)
  then obtain u where u: "decode_tag k (path @ ''.'' @ key) v = Ok u" "homogeneous u"
      "decode_compound k path ob (compound_insert key u c) = Ok t" by (auto simp: res_simps)
  have "homogeneous (NCompound (compound_insert key u c))"
    using 8(4) u(2) distinct_compound_insert by (auto dest: set_compound_insert)
  with 8(2) u show ?case by simp
next
  case (9 k path i e ts)
  then show ?case using list_so_far_homogeneous by auto
next
  case (10 k path v vs i e ts)
  then obtain u where u: "decode_tag k (index_path path i) v = Ok u" "homogeneous u" by (auto simp: res_simps)
  show ?case
  proof (cases e)
    case None
    moreover have "list_so_far (Some (tag_kind u)) (ts @ [u])" using 10(5) u None by (auto simp: list_so_far_def)
    ultimately show ?thesis using 10(2) [OF u(1) None] 10(4) u(1) None by simp
  next
    case (Some x)
    then have x: "tag_kind u = x" "decode_list k path vs (i + 1) e (ts @ [u]) = Ok t"
      using 10(4) u(1) by (auto split: if_splits)
    moreover have "list_so_far e (ts @ [u])" using 10(5) u Some x by (auto simp: list_so_far_def)
    ultimately show ?thesis using 10(3) [OF u(1) Some] by simp
  qed
qed auto

section \<open>Widening a float\<close>

definition f32_exponent :: "f32 \<Rightarrow> nat" where
  "f32_exponent y = unat y div 2 ^ 23 mod 2 ^ 8"

text \<open>Zero, or a normal number.\<close>

definition plain_f32 :: "f32 \<Rightarrow> bool" where
  "plain_f32 y \<longleftrightarrow> f32_exponent y \<noteq> 255 \<and> (f32_exponent y = 0 \<longrightarrow> unat y mod 2 ^ 23 = 0)"

definition f64_bits :: "nat \<Rightarrow> nat \<Rightarrow> nat \<Rightarrow> f64" where
  "f64_bits s e m = word_of_nat (s * 2 ^ 63 + e * 2 ^ 52 + m)"

definition f64_of_f32 :: "f32 \<Rightarrow> f64" where
  "f64_of_f32 y =
     f64_bits (unat y div 2 ^ 31) (if f32_exponent y = 0 then 0 else f32_exponent y + 896) (unat y mod 2 ^ 23 * 2 ^ 29)"

lemma f64_bits_fields:
  assumes "s < 2" and "e < 2048" and "m < 2 ^ 52"
  shows "unat (f64_bits s e m) div 2 ^ 63 = s" and "f64_exponent (f64_bits s e m) = e"
    and "unat (f64_bits s e m) mod 2 ^ 52 = m" and "unat (f64_bits s e m) mod 2 ^ 63 = e * 2 ^ 52 + m"
proof -
  have em: "e * 2 ^ 52 + m < 2 ^ 63" using assms(2,3) by simp
  then have "s * 2 ^ 63 + e * 2 ^ 52 + m < 2 ^ 64" using assms(1) by simp
  moreover have "unat (word_of_nat n :: f64) = n" if "n < 2 ^ 64" for n
    using that by (simp add: unat_of_nat take_bit_nat_eq_self)
  ultimately have u: "unat (f64_bits s e m) = s * 2 ^ 63 + (e * 2 ^ 52 + m)"
    unfolding f64_bits_def add.assoc by blast
  show "unat (f64_bits s e m) div 2 ^ 63 = s" "unat (f64_bits s e m) mod 2 ^ 63 = e * 2 ^ 52 + m"
    unfolding u using em by simp_all
  have "s * 2 ^ 63 + (e * 2 ^ 52 + m) = (s * 2 ^ 11 + e) * 2 ^ 52 + m" by (simp add: algebra_simps)
  with u have u2: "unat (f64_bits s e m) = (s * 2 ^ 11 + e) * 2 ^ 52 + m" by simp
  show "unat (f64_bits s e m) mod 2 ^ 52 = m" unfolding u2 using assms(3) by (simp only: mod_mult_self3 mod_less)
  have "((s * 2 ^ 11 + e) * 2 ^ 52 + m) div 2 ^ 52 = s * 2 ^ 11 + e"
    using assms(3) by (subst div_mult_self3) simp_all
  moreover have "(s * 2 ^ 11 + e) mod 2 ^ 11 = e" using assms(2) by simp
  ultimately show "f64_exponent (f64_bits s e m) = e" unfolding f64_exponent_def u2 by (simp only:)
qed

lemma f32_fields: "unat (y :: f32) = unat y div 2 ^ 31 * 2 ^ 31 + (f32_exponent y * 2 ^ 23 + unat y mod 2 ^ 23)"
proof -
  have "unat y div 2 ^ 31 = unat y div 2 ^ 23 div 2 ^ 8" by (simp add: div_mult2_eq [symmetric])
  then have "unat y div 2 ^ 23 = unat y div 2 ^ 31 * 2 ^ 8 + f32_exponent y"
    unfolding f32_exponent_def by (simp only: div_mult_mod_eq)
  then have "unat y = (unat y div 2 ^ 31 * 2 ^ 8 + f32_exponent y) * 2 ^ 23 + unat y mod 2 ^ 23"
    by (metis div_mult_mod_eq)
  then show ?thesis by (simp add: algebra_simps)
qed

lemma round_off_exact: "round_off k (n * 2 ^ k) = n"
  by (simp add: round_off_def Let_def)

lemma widened:
  assumes "plain_f32 y"
  shows "is_finite (f64_of_f32 y)" and "in_f32_range (f64_of_f32 y)" and "f32_of_f64 (f64_of_f32 y) = y"
proof -
  define s e m where "s = unat y div 2 ^ 31" and "e = f32_exponent y" and "m = unat y mod 2 ^ 23"
  have y: "unat y = s * 2 ^ 31 + (e * 2 ^ 23 + m)" unfolding s_def e_def m_def by (rule f32_fields)
  have "unat y < 2 ^ 32" using unsigned_less [of y, where ?'a = nat] by simp
  then have s: "s < 2" by (simp add: s_def less_mult_imp_div_less)
  have "e < 256" by (simp add: e_def f32_exponent_def)
  moreover have "e \<noteq> 255" using assms by (simp add: plain_f32_def e_def)
  ultimately have e: "e < 255" by linarith
  have m: "m < 2 ^ 23" by (simp add: m_def)
  let ?e = "if e = 0 then 0 else e + 896"
  have x: "f64_of_f32 y = f64_bits s ?e (m * 2 ^ 29)" by (simp add: f64_of_f32_def s_def e_def m_def)
  have m29: "m * 2 ^ 29 < 2 ^ 52" using m by simp
  have e': "?e < 2048" using e by simp
  note fields = f64_bits_fields [OF s e' m29, folded x]
  show "is_finite (f64_of_f32 y)" using fields(2) e by (simp add: is_finite_def)
  show "in_f32_range (f64_of_f32 y)" using e m29 m unfolding in_f32_range_def fields(4) by (simp split: if_splits)
  have "(if 897 \<le> ?e then (?e - 897) * 2 ^ 23 + round_off 29 (if ?e = 0 then m * 2 ^ 29 else 2 ^ 52 + m * 2 ^ 29)
      else round_off (29 + (897 - max ?e 1)) (if ?e = 0 then m * 2 ^ 29 else 2 ^ 52 + m * 2 ^ 29)) = e * 2 ^ 23 + m"
  proof (cases "e = 0")
    case True
    then have "m = 0" using assms by (simp add: plain_f32_def e_def m_def)
    with True show ?thesis using round_off_exact [of "29 + 896" 0] by simp
  next
    case False
    have "2 ^ 52 + m * 2 ^ 29 = (2 ^ 23 + m) * 2 ^ 29" by simp
    then have "round_off 29 (2 ^ 52 + m * 2 ^ 29) = 2 ^ 23 + m" by (simp only: round_off_exact)
    moreover obtain d where "e = Suc d" using False by (cases e) auto
    ultimately show ?thesis by simp
  qed
  then have "f32_of_f64 (f64_of_f32 y) = word_of_nat (s * 2 ^ 31 + (e * 2 ^ 23 + m))"
    unfolding f32_of_f64_def Let_def fields(1-3) by simp
  then show "f32_of_f64 (f64_of_f32 y) = y" unfolding y [symmetric] by simp
qed

section \<open>Explicit documents\<close>

definition wrap :: "string \<Rightarrow> 'n json \<Rightarrow> 'n json" where
  "wrap tag v = JObject [(TAG_KEY, JString tag), (VALUE_KEY, v)]"

text \<open>The document of a tree, given how integers and floating-point values are written as JSON numbers.\<close>

fun explicit :: "(int \<Rightarrow> 'n) \<Rightarrow> (f64 \<Rightarrow> 'n) \<Rightarrow> nbt \<Rightarrow> 'n json" where
  "explicit ni nf (NByte b) = wrap ''byte'' (JNumber (ni (sint b)))"
| "explicit ni nf (NShort b) = wrap ''short'' (JNumber (ni (sint b)))"
| "explicit ni nf (NInt b) = wrap ''int'' (JNumber (ni (sint b)))"
| "explicit ni nf (NLong b) = wrap ''long'' (JNumber (ni (sint b)))"
| "explicit ni nf (NFloat y) = wrap ''float'' (JNumber (nf (f64_of_f32 y)))"
| "explicit ni nf (NDouble x) = wrap ''double'' (JNumber (nf x))"
| "explicit ni nf (NByteArray bs) = wrap ''byteArray'' (JArray (map (\<lambda>b. JNumber (ni (sint b))) bs))"
| "explicit ni nf (NString s) = wrap ''string'' (JString s)"
| "explicit ni nf (NList ts) = wrap ''list'' (JArray (map (explicit ni nf) ts))"
| "explicit ni nf (NCompound c) = wrap ''compound'' (JObject (map (\<lambda>e. (fst e, explicit ni nf (snd e))) c))"
| "explicit ni nf (NIntArray bs) = wrap ''intArray'' (JArray (map (\<lambda>b. JNumber (ni (sint b))) bs))"
| "explicit ni nf (NLongArray bs) = wrap ''longArray'' (JArray (map (\<lambda>b. JNumber (ni (sint b))) bs))"

definition explicit_document :: "(int \<Rightarrow> 'n) \<Rightarrow> (f64 \<Rightarrow> 'n) \<Rightarrow> nbt_document \<Rightarrow> 'n json" where
  "explicit_document ni nf d =
     JObject [(TAG_KEY, JString ''root''), (''name'', JString (root_name d)),
       (VALUE_KEY, explicit ni nf (NCompound (root_compound d)))]"

fun plain_floats :: "nbt \<Rightarrow> bool" where
  "plain_floats (NFloat y) \<longleftrightarrow> plain_f32 y"
| "plain_floats (NList ts) \<longleftrightarrow> (\<forall>t \<in> set ts. plain_floats t)"
| "plain_floats (NCompound c) \<longleftrightarrow> (\<forall>e \<in> set c. plain_floats (snd e))"
| "plain_floats _ \<longleftrightarrow> True"

text \<open>
  What the round trip asks of the JSON library: a number written from a 64-bit signed integer is read as
  that integer, one written from a finite floating-point value as that value.
\<close>

definition numbers_kept :: "'n numbers \<Rightarrow> (int \<Rightarrow> 'n) \<Rightarrow> (f64 \<Rightarrow> 'n) \<Rightarrow> bool" where
  "numbers_kept k ni nf \<longleftrightarrow>
     (\<forall>i. - (2 ^ 63) \<le> i \<and> i \<le> i64_max \<longrightarrow> as_i64_of k (ni i) = Some i)
     \<and> (\<forall>x. is_finite x \<longrightarrow> as_f64_of k (nf x) = Some x)"

lemma wrap_keys [simp]: "tag_name [(TAG_KEY, JString tag), (VALUE_KEY, v)] = Some tag"
  "tagged_value [(TAG_KEY, JString tag), (VALUE_KEY, v)] = Some v"
  by (simp_all add: tag_name_def tagged_value_def TAG_KEY_def VALUE_KEY_def)

lemma ranged_kept:
  assumes "numbers_kept k ni nf" and "lo \<le> i" and "i \<le> hi" and "- (2 ^ 63) \<le> lo" and "hi \<le> i64_max"
  shows "ranged_i64 k path tag (JNumber (ni i)) lo hi = Ok i"
  using assms by (simp add: ranged_i64_def as_i64_def numbers_kept_def)

lemma ranged_array_kept:
  assumes "numbers_kept k ni nf" and "- (2 ^ 63) \<le> lo" and "hi \<le> i64_max" and "\<And>i. i \<in> set xs \<Longrightarrow> lo \<le> i \<and> i \<le> hi"
  shows "ranged_array k path tag lo hi n (map (\<lambda>i. JNumber (ni i)) xs) = Ok xs"
  using assms(4) by (induction xs arbitrary: n) (simp_all add: ranged_kept [OF assms(1) _ _ assms(2,3)])

lemma sint_bounds:
  "- (2 ^ 7) \<le> sint (b :: u8)" "sint b \<le> 2 ^ 7 - 1"
  "- (2 ^ 15) \<le> sint (h :: u16)" "sint h \<le> 2 ^ 15 - 1"
  "- (2 ^ 31) \<le> sint (w :: u32)" "sint w \<le> 2 ^ 31 - 1"
  "- (2 ^ 63) \<le> sint (l :: u64)" "sint l \<le> i64_max"
  using sint_greater_eq [of b] sint_less [of b] sint_greater_eq [of h] sint_less [of h]
    sint_greater_eq [of w] sint_less [of w] sint_greater_eq [of l] sint_less [of l]
  by (simp_all add: i64_max_def)

lemma integer_array_kept:
  fixes bs :: "'w :: len word list"
  assumes "numbers_kept k ni nf" and "- (2 ^ 63) \<le> lo" and "hi \<le> i64_max"
    and "\<And>b :: 'w word. lo \<le> sint b" and "\<And>b :: 'w word. sint b \<le> hi"
  shows "integer_array_tag k path tag (JArray (map (\<lambda>b. JNumber (ni (sint b))) bs)) lo hi (\<lambda>xs. build (map word_of_int xs))
    = Ok (build bs)"
proof -
  have "ranged_array k path tag lo hi 0 (map (\<lambda>i. JNumber (ni i)) (map sint bs)) = Ok (map sint bs)"
    using assms(4,5) by (intro ranged_array_kept [OF assms(1-3)]) auto
  then show ?thesis by (simp add: integer_array_tag_def comp_def)
qed

text \<open>The loops over the entries of a compound and the elements of a list, given the round trip of each.\<close>

lemma decode_compound_explicit:
  assumes "\<And>e path. e \<in> set c \<Longrightarrow> decode_tag k path (f (snd e)) = Ok (snd e)" and "distinct (map fst (before @ c))"
  shows "decode_compound k path (map (\<lambda>e. (fst e, f (snd e))) c) before = Ok (NCompound (before @ c))"
  using assms
proof (induction c arbitrary: before)
  case (Cons e c)
  have "compound_insert (fst e) (snd e) before = before @ [e]"
    using Cons.prems(2) by (intro trans [OF compound_insert_new]) auto
  with Cons.IH [of "before @ [e]"] Cons.prems show ?case by simp
qed simp

lemma decode_list_explicit:
  assumes "\<And>t path. t \<in> set ts \<Longrightarrow> decode_tag k path (f t) = Ok t"
    and "\<And>t. t \<in> set ts \<Longrightarrow> tag_kind t = kd" and "e = (if before = [] then None else Some kd)"
  shows "decode_list k path (map f ts) i e before = Ok (NList (before @ ts))"
  using assms
proof (induction ts arbitrary: i e before)
  case (Cons t ts)
  have "decode_list k path (map f ts) (i + 1) (Some kd) (before @ [t]) = Ok (NList ((before @ [t]) @ ts))"
    using Cons.prems by (intro Cons.IH) auto
  with Cons.prems show ?case by (cases "before = []") simp_all
qed simp

lemma decode_explicit:
  assumes "numbers_kept k ni nf" and "homogeneous t" and "plain_floats t"
  shows "decode_tag k path (explicit ni nf t) = Ok t"
  using assms(2,3)
proof (induction t arbitrary: path)
  case (NFloat y)
  then show ?case
    using assms(1) widened [of y]
    by (simp add: wrap_def decode_flat_tag_def float_tag_def as_f64_def numbers_kept_def nbt_float_def)
next
  case (NDouble x)
  then show ?case
    using assms(1) by (simp add: wrap_def decode_flat_tag_def float_tag_def as_f64_def numbers_kept_def)
next
  case (NList ts)
  then have "decode_list k path (map (explicit ni nf) ts) 0 None [] = Ok (NList ([] @ ts))"
    by (intro decode_list_explicit [where kd = "tag_kind (hd ts)"]) auto
  then show ?case by (simp add: wrap_def)
next
  case (NCompound c)
  then have "decode_compound k path (map (\<lambda>e. (fst e, explicit ni nf (snd e))) c) [] = Ok (NCompound ([] @ c))"
    by (intro decode_compound_explicit) (auto simp: snds.simps intro: prod_set_simps)
  then show ?case by (simp add: wrap_def)
next
  case (NByteArray bs)
  show ?case using integer_array_kept [OF assms(1) _ _ sint_bounds(1,2), of path _ bs NByteArray]
    by (simp add: wrap_def decode_flat_tag_def i64_max_def)
next
  case (NIntArray bs)
  show ?case using integer_array_kept [OF assms(1) _ _ sint_bounds(5,6), of path _ bs NIntArray]
    by (simp add: wrap_def decode_flat_tag_def i64_max_def)
next
  case (NLongArray bs)
  show ?case using integer_array_kept [OF assms(1) _ _ sint_bounds(7,8), of path _ bs NLongArray]
    by (simp add: wrap_def decode_flat_tag_def i64_max_def)
qed (use ranged_kept [OF assms(1)] sint_bounds in
    \<open>simp_all add: wrap_def decode_flat_tag_def integer_tag_def i64_max_def\<close>)


definition sample_numbers :: "(int + f64) numbers" where
  "sample_numbers = \<lparr>as_i64_of = (\<lambda>n. case n of Inl i \<Rightarrow> Some i | Inr _ \<Rightarrow> None), as_u64_of = (\<lambda>_. None),
     is_f64 = (\<lambda>n. case n of Inl _ \<Rightarrow> False | Inr _ \<Rightarrow> True),
     as_f64_of = (\<lambda>n. case n of Inl _ \<Rightarrow> None | Inr x \<Rightarrow> Some x)\<rparr>"

definition sample_document :: nbt_document where
  "sample_document = \<lparr>root_name = ''ix'', root_compound =
     [(''health'', NShort 20), (''flags'', NByteArray [1, 0, -1]), (''speed'', NFloat 0x3FC00000),
      (''list'', NList [NString ''a'', NString ''b''])]\<rparr>"


end
