(* ===== verification/Mc_Status.thy ===== *)
theory Mc_Status
  imports Mc_Wire Mc_Nbt
begin

text \<open>
  The server list ping of \<^verbatim>\<open>packages/minecraft/protocol/src/slp.rs\<close> and the formatting codes of
  \<^verbatim>\<open>text.rs\<close>. A connection is the bytes the server will send, the error reading behind them gives,
  the bytes written so far and an error writing may fail with. Parsing JSON text is an argument. Errors
  about an address quote it, so they are a datatype; all others are the \<^verbatim>\<open>io::Error\<close> of the source.
\<close>

section \<open>Addresses\<close>

datatype address_error =
    NoHost string
  | InvalidPort string string
  | UnclosedBracket string
  | GarbageAfterBracket string

definition DEFAULT_PORT :: u16 where
  "DEFAULT_PORT = 25565"

text \<open>\<^verbatim>\<open>str::parse::<u16>\<close>: decimal digits behind at most one plus sign.\<close>

definition parse_u16 :: "string \<Rightarrow> u16 option" where
  "parse_u16 s =
     (let ds = (case s of c # r \<Rightarrow> if c = CHR ''+'' then r else s | [] \<Rightarrow> s)
      in if ds \<noteq> [] \<and> list_all is_digit ds \<and> nat_of_digits ds < 2 ^ 16 then Some (word_of_nat (nat_of_digits ds)) else None)"

text \<open>\<^verbatim>\<open>split_once\<close> and \<^verbatim>\<open>rsplit_once\<close> at a character.\<close>

definition split_once :: "char \<Rightarrow> string \<Rightarrow> (string \<times> string) option" where
  "split_once c s = (if c \<in> set s then Some (takeWhile (\<lambda>x. x \<noteq> c) s, tl (dropWhile (\<lambda>x. x \<noteq> c) s)) else None)"

definition rsplit_once :: "char \<Rightarrow> string \<Rightarrow> (string \<times> string) option" where
  "rsplit_once c s = map_option (\<lambda>(a, b). (rev b, rev a)) (split_once c (rev s))"

definition parse_port :: "string \<Rightarrow> string \<Rightarrow> (address_error, u16) res" where
  "parse_port address raw = (case parse_u16 raw of Some p \<Rightarrow> Ok p | None \<Rightarrow> Err (InvalidPort raw address))"

definition split_bracketed :: "string \<Rightarrow> string \<Rightarrow> (address_error, string \<times> u16) res" where
  "split_bracketed address rest =
     (case split_once (CHR '']'') rest of
        None \<Rightarrow> Err (UnclosedBracket address)
      | Some (host, after) \<Rightarrow>
          (case after of
             [] \<Rightarrow> Ok (host, DEFAULT_PORT)
           | c # raw \<Rightarrow>
               if c = CHR '':'' then bind_res (parse_port address raw) (\<lambda>p. Ok (host, p))
               else Err (GarbageAfterBracket address)))"

definition split_host_port :: "string \<Rightarrow> (address_error, string \<times> u16) res" where
  "split_host_port address =
     (case address of
        CHR ''['' # rest \<Rightarrow> split_bracketed address rest
      | _ \<Rightarrow>
          (case rsplit_once (CHR '':'') address of
             Some (host, raw) \<Rightarrow>
               if CHR '':'' \<in> set host then Ok (address, DEFAULT_PORT)
               else bind_res (parse_port address raw) (\<lambda>p. Ok (host, p))
           | None \<Rightarrow> Ok (address, DEFAULT_PORT)))"

definition parse_address :: "string \<Rightarrow> (address_error, server_address) res" where
  "parse_address address =
     bind_res (split_host_port address) (\<lambda>(host, port).
       if host = [] then Err (NoHost address) else Ok \<lparr>sa_host = host, sa_port = port\<rparr>)"

text \<open>
  \<^verbatim>\<open>connect\<close> over the resolved socket addresses: what connecting to one and setting the read and the
  write timeout answer are arguments.
\<close>

fun connect_loop ::
  "('a \<Rightarrow> (io_error, 's) res) \<Rightarrow> ('s \<Rightarrow> (io_error, unit) res) \<Rightarrow> ('s \<Rightarrow> (io_error, unit) res) \<Rightarrow> io_error option \<Rightarrow> 'a list
     \<Rightarrow> io_error \<Rightarrow> (io_error, 's) res" where
  "connect_loop conn set_read set_write last_error [] none = Err (case last_error of Some e \<Rightarrow> e | None \<Rightarrow> none)"
| "connect_loop conn set_read set_write last_error (a # as) none =
     (case conn a of
        Ok s \<Rightarrow> bind_res (set_read s) (\<lambda>_. bind_res (set_write s) (\<lambda>_. Ok s))
      | Err e \<Rightarrow> connect_loop conn set_read set_write (Some e) as none
      | Panic \<Rightarrow> Panic)"

definition no_addresses :: "server_address \<Rightarrow> io_error" where
  "no_addresses a =
     io_err AddrNotAvailable (sa_host a @ '':'' @ show_nat (unat (sa_port a)) @ '' resolved to no addresses'')"

definition connect ::
  "(io_error, 'a list) res \<Rightarrow> ('a \<Rightarrow> (io_error, 's) res) \<Rightarrow> ('s \<Rightarrow> (io_error, unit) res) \<Rightarrow> ('s \<Rightarrow> (io_error, unit) res)
     \<Rightarrow> server_address \<Rightarrow> (io_error, 's) res" where
  "connect resolved conn set_read set_write a =
     bind_res resolved (\<lambda>as. connect_loop conn set_read set_write None as (no_addresses a))"

section \<open>The status document\<close>

record slp_status =
  version_name :: string
  protocol_version :: i32
  players_online :: int
  players_max :: int
  motd :: string
  raw_json :: string
  latency :: nat

fun json_get :: "string \<Rightarrow> 'n json \<Rightarrow> 'n json option" where
  "json_get key (JObject ob) = map_of ob key"
| "json_get key _ = None"

text \<open>\<^verbatim>\<open>pointer(\"/a/b\")\<close> with keys that are no array index.\<close>

definition pointer2 :: "string \<Rightarrow> string \<Rightarrow> 'n json \<Rightarrow> 'n json option" where
  "pointer2 a b v = Option.bind (json_get a v) (json_get b)"

definition malformed :: "string \<Rightarrow> io_error" where
  "malformed what = io_err InvalidData (''status response '' @ what)"

definition str_at :: "string \<Rightarrow> string \<Rightarrow> 'n json \<Rightarrow> (io_error, string) res" where
  "str_at a b root =
     (case pointer2 a b root of
        Some (JString s) \<Rightarrow> Ok s
      | _ \<Rightarrow> Err (malformed (''lacks string field /'' @ a @ ''/'' @ b)))"

definition int_at :: "'n numbers \<Rightarrow> string \<Rightarrow> string \<Rightarrow> 'n json \<Rightarrow> (io_error, int) res" where
  "int_at k a b root =
     (case Option.bind (pointer2 a b root) (\<lambda>v. case v of JNumber n \<Rightarrow> as_i64_of k n | _ \<Rightarrow> None) of
        Some i \<Rightarrow> Ok i
      | None \<Rightarrow> Err (malformed (''lacks integer field /'' @ a @ ''/'' @ b)))"

function flatten_component :: "'n json \<Rightarrow> string" where
  "flatten_component (JString s) = s"
| "flatten_component (JArray items) = concat (map flatten_component items)"
| "flatten_component (JObject ob) =
     (case map_of ob ''text'' of Some (JString s) \<Rightarrow> s | _ \<Rightarrow> [])
     @ (case map_of ob ''extra'' of Some extra \<Rightarrow> flatten_component extra | None \<Rightarrow> [])"
| "flatten_component JNull = []"
| "flatten_component (JBool b) = []"
| "flatten_component (JNumber n) = []"
  by pat_completeness auto

termination
  by (relation "measure size") (auto dest: map_of_size simp: size_list_estimation' less_Suc_eq_le)

definition from_status_json ::
  "'n numbers \<Rightarrow> (string \<Rightarrow> (string, 'n json) res) \<Rightarrow> string \<Rightarrow> nat \<Rightarrow> (io_error, slp_status) res" where
  "from_status_json k from_str raw lat =
     bind_res (map_err (\<lambda>e. malformed (''is not JSON: '' @ e)) (from_str raw)) (\<lambda>root.
     bind_res (int_at k ''version'' ''protocol'' root) (\<lambda>protocol.
       if \<not> (- (2 ^ 31) \<le> protocol \<and> protocol \<le> 2 ^ 31 - 1) then Err (malformed ''has an out-of-range /version/protocol'')
       else
         let text' = (case json_get ''description'' root of Some d \<Rightarrow> flatten_component d | None \<Rightarrow> []) in
         bind_res (str_at ''version'' ''name'' root) (\<lambda>name.
         bind_res (int_at k ''players'' ''online'' root) (\<lambda>online.
         bind_res (int_at k ''players'' ''max'' root) (\<lambda>mx.
           Ok \<lparr>version_name = name, protocol_version = word_of_int protocol, players_online = online, players_max = mx,
             motd = text', raw_json = raw, latency = lat\<rparr>)))))"

section \<open>The exchange\<close>

record slp_stream =
  ss_in :: bytes
  ss_eof :: io_error
  ss_out :: bytes
  ss_fault :: "io_error option"

definition MAX_STATUS_FRAME :: nat where
  "MAX_STATUS_FRAME = 2 ^ 20"

definition STATUS_PROTOCOL_VERSION :: i32 where
  "STATUS_PROTOCOL_VERSION = - 1"

definition PING_NONCE :: nat where
  "PING_NONCE = 0x6D6370726F626531"

definition stream_write_frame :: "bytes \<Rightarrow> slp_stream \<Rightarrow> (io_error, slp_stream) res" where
  "stream_write_frame payload s =
     bind_res (write_frame payload) (\<lambda>bs.
       case ss_fault s of Some e \<Rightarrow> Err e | None \<Rightarrow> Ok (s\<lparr>ss_out := ss_out s @ bs\<rparr>))"

definition stream_read_frame :: "nat \<Rightarrow> slp_stream \<Rightarrow> (io_error, bytes \<times> slp_stream) res" where
  "stream_read_frame max_len s =
     bind_res (read_frame (ss_eof s) max_len (ss_in s)) (\<lambda>(payload, rest). Ok (payload, s\<lparr>ss_in := rest\<rparr>))"

definition handshake_payload :: "server_address \<Rightarrow> (io_error, bytes) res" where
  "handshake_payload a =
     bind_res (write_string (write_varint (write_varint [] 0x00) STATUS_PROTOCOL_VERSION) (sa_host a)) (\<lambda>payload.
       Ok (write_varint (payload @ be_bytes 2 (unat (sa_port a))) 1))"

definition status_text :: "bytes \<Rightarrow> (io_error, string) res" where
  "status_text response =
     bind_res (read_varint slice_eof response) (\<lambda>(packet_id, cursor).
       if packet_id \<noteq> 0x00
       then Err (io_err InvalidData (''expected status response packet 0x00, got 0x'' @ show_hex (unat packet_id)))
       else
         bind_res (read_varint slice_eof cursor) (\<lambda>(declared, cursor).
           case usize_of_i32 declared of
             None \<Rightarrow> Err (io_err InvalidData ''negative status JSON length'')
           | Some len \<Rightarrow>
               bind_res (read_exact slice_eof len cursor) (\<lambda>(b, _).
                 case from_utf8 b of Some s \<Rightarrow> Ok s | None \<Rightarrow> Err (io_err InvalidData ''status JSON is not UTF-8''))))"

definition read_status_response :: "slp_stream \<Rightarrow> (io_error, string \<times> slp_stream) res" where
  "read_status_response s =
     bind_res (stream_read_frame MAX_STATUS_FRAME s) (\<lambda>(response, s). bind_res (status_text response) (\<lambda>t. Ok (t, s)))"

definition ping_payload :: bytes where
  "ping_payload = write_varint [] 0x01 @ be_bytes 8 PING_NONCE"

text \<open>
  \<^verbatim>\<open>query\<close>: the connection is opened as \<^const>\<open>connect\<close> does and then carries the exchange; the answer comes
  with the connection, for what was written on it. The measured latency is an argument.
\<close>

definition slp_exchange ::
  "'n numbers \<Rightarrow> (string \<Rightarrow> (string, 'n json) res) \<Rightarrow> server_address \<Rightarrow> slp_stream \<Rightarrow> nat \<Rightarrow> (io_error, slp_status \<times> slp_stream) res" where
  "slp_exchange k from_str a s lat =
     bind_res (handshake_payload a) (\<lambda>hs.
     bind_res (stream_write_frame hs s) (\<lambda>s.
     bind_res (stream_write_frame [0x00] s) (\<lambda>s.
     bind_res (read_status_response s) (\<lambda>(raw, s).
     bind_res (stream_write_frame ping_payload s) (\<lambda>s.
     bind_res (stream_read_frame (length ping_payload) s) (\<lambda>(echoed, s).
       if echoed \<noteq> ping_payload then Err (io_err InvalidData ''pong did not echo the ping payload'')
       else bind_res (from_status_json k from_str raw lat) (\<lambda>st. Ok (st, s))))))))"

definition query ::
  "'n numbers \<Rightarrow> (string \<Rightarrow> (string, 'n json) res) \<Rightarrow> (io_error, 'a list) res \<Rightarrow> ('a \<Rightarrow> (io_error, slp_stream) res)
     \<Rightarrow> (slp_stream \<Rightarrow> (io_error, unit) res) \<Rightarrow> (slp_stream \<Rightarrow> (io_error, unit) res) \<Rightarrow> server_address \<Rightarrow> nat
     \<Rightarrow> (io_error, slp_status \<times> slp_stream) res" where
  "query k from_str resolved conn set_read set_write a lat =
     bind_res (connect resolved conn set_read set_write a) (\<lambda>s. slp_exchange k from_str a s lat)"

section \<open>Formatting codes\<close>

definition is_format_code :: "char \<Rightarrow> bool" where
  "is_format_code c \<longleftrightarrow>
     (let n = (of_char c :: nat); l = (if 65 \<le> n \<and> n \<le> 90 then n + 32 else n) in
      (48 \<le> n \<and> n \<le> 57) \<or> (97 \<le> l \<and> l \<le> 102) \<or> (107 \<le> l \<and> l \<le> 111) \<or> l = 114 \<or> l = 120)"

definition is_marker :: "string \<Rightarrow> bool" where
  "is_marker ch \<longleftrightarrow> ch = [CHR 0xC2, CHR 0xA7] \<or> ch = ''&''"

definition is_code_char :: "string \<Rightarrow> bool" where
  "is_code_char ch = (case ch of [c] \<Rightarrow> is_format_code c | _ \<Rightarrow> False)"

fun strip_loop :: "string list \<Rightarrow> string" where
  "strip_loop [] = []"
| "strip_loop [c] = c"
| "strip_loop (c # d # cs) = (if is_marker c \<and> is_code_char d then strip_loop cs else c @ strip_loop (d # cs))"

definition strip_format_codes :: "string \<Rightarrow> string" where
  "strip_format_codes s = strip_loop (chars s)"

end
