(* ===== verification/Mc_Status_Properties.thy ===== *)
theory Mc_Status_Properties
  imports Mc_Status Mc_Nbt_Properties "HOL-Library.Code_Target_Nat" "HOL-Library.Sublist"
begin

text \<open>
  Correctness of the server list ping: the forms of an address, formatting codes, and the exchange with a
  server.
\<close>

section \<open>Addresses\<close>

lemma split_once_append: "c \<notin> set a \<Longrightarrow> split_once c (a @ c # b) = Some (a, b)"
proof -
  assume "c \<notin> set a"
  then have "takeWhile (\<lambda>x. x \<noteq> c) (a @ c # b) = a" "dropWhile (\<lambda>x. x \<noteq> c) (a @ c # b) = c # b"
    by (induction a) auto
  then show ?thesis by (simp add: split_once_def)
qed

lemma rsplit_once_append: "c \<notin> set b \<Longrightarrow> rsplit_once c (a @ c # b) = Some (a, b)"
  using split_once_append [of c "rev b" "rev a"] by (simp add: rsplit_once_def)

lemma parse_u16_show: "parse_u16 (show_nat (unat (p :: u16))) = Some p"
proof -
  let ?s = "show_nat (unat p)"
  have digits: "list_all is_digit ?s" using show_nat_digits by (auto simp: list_all_iff)
  have "hd ?s \<noteq> CHR ''+''"
    using show_nat_digits [of "hd ?s" "unat p"] by (auto simp: is_digit_def)
  then have "(case ?s of c # r \<Rightarrow> if c = CHR ''+'' then r else ?s | [] \<Rightarrow> ?s) = ?s" by (cases ?s) auto
  moreover have "unat p < 2 ^ 16" using unsigned_less [of p, where ?'a = nat] by simp
  ultimately show ?thesis using digits by (simp add: parse_u16_def Let_def)
qed

text \<open>
  A host without a colon, alone or with a port; a bare address with several colons; an address in
  brackets, alone or with a port.
\<close>

lemma address_forms:
  assumes "host \<noteq> []"
  shows "CHR '':'' \<notin> set host \<Longrightarrow> hd host \<noteq> CHR ''['' \<Longrightarrow>
      parse_address host = Ok \<lparr>sa_host = host, sa_port = DEFAULT_PORT\<rparr>
      \<and> parse_address (host @ '':'' @ show_nat (unat port)) = Ok \<lparr>sa_host = host, sa_port = port\<rparr>"
    and "CHR '']'' \<notin> set host \<Longrightarrow>
      parse_address (''['' @ host @ '']'') = Ok \<lparr>sa_host = host, sa_port = DEFAULT_PORT\<rparr>
      \<and> parse_address (''['' @ host @ '']:'' @ show_nat (unat port)) = Ok \<lparr>sa_host = host, sa_port = port\<rparr>"
proof -
  have colon: "CHR '':'' \<notin> set (show_nat n)" for n
    using show_nat_digits [of "CHR '':''" n] by (auto simp: is_digit_def)
  assume h: "CHR '':'' \<notin> set host" "hd host \<noteq> CHR ''[''"
  obtain c r where c: "host = c # r" "c \<noteq> CHR ''[''" using assms h(2) by (cases host) auto
  have unbracketed: "split_host_port (c # s) = (case rsplit_once (CHR '':'') (c # s) of
      Some (host, raw) \<Rightarrow>
        if CHR '':'' \<in> set host then Ok (c # s, DEFAULT_PORT)
        else bind_res (parse_port (c # s) raw) (\<lambda>p. Ok (host, p))
    | None \<Rightarrow> Ok (c # s, DEFAULT_PORT))" for s
    using c(2) by (auto simp: split_host_port_def split: char.splits bool.splits)
  have "rsplit_once (CHR '':'') host = None" using h(1) by (simp add: rsplit_once_def split_once_def)
  moreover have "rsplit_once (CHR '':'') (host @ CHR '':'' # show_nat (unat port)) = Some (host, show_nat (unat port))"
    using colon by (rule rsplit_once_append)
  ultimately show "parse_address host = Ok \<lparr>sa_host = host, sa_port = DEFAULT_PORT\<rparr>
      \<and> parse_address (host @ '':'' @ show_nat (unat port)) = Ok \<lparr>sa_host = host, sa_port = port\<rparr>"
    using h(1) unbracketed c(1) by (simp add: parse_address_def parse_port_def parse_u16_show)
next
  assume h: "CHR '']'' \<notin> set host"
  then show "parse_address (''['' @ host @ '']'') = Ok \<lparr>sa_host = host, sa_port = DEFAULT_PORT\<rparr>
      \<and> parse_address (''['' @ host @ '']:'' @ show_nat (unat port)) = Ok \<lparr>sa_host = host, sa_port = port\<rparr>"
    using assms split_once_append [OF h]
    by (simp add: parse_address_def split_host_port_def split_bracketed_def parse_port_def parse_u16_show)
qed

section \<open>Formatting codes\<close>

text \<open>
  Text without a marker is kept as it is, and what is left of any text is a subsequence of its
  characters.
\<close>

lemma strip_loop_plain: "\<forall>c \<in> set cs. \<not> is_marker c \<Longrightarrow> strip_loop cs = concat cs"
  by (induction cs rule: strip_loop.induct) auto

lemma strip_format_codes_plain: "\<forall>c \<in> set (chars s). \<not> is_marker c \<Longrightarrow> strip_format_codes s = s"
  using strip_loop_plain [of "chars s"] by (simp add: strip_format_codes_def concat_chars)

lemma strip_loop_subseq: "\<exists>ds. subseq ds cs \<and> strip_loop cs = concat ds"
proof (induction cs rule: strip_loop.induct)
  case (2 c)
  show ?case by (rule exI [of _ "[c]"]) simp
next
  case (3 c d cs)
  show ?case
  proof (cases "is_marker c \<and> is_code_char d")
    case True
    then obtain ds where "subseq ds cs" "strip_loop cs = concat ds" using 3(1) by blast
    then show ?thesis using True by (intro exI [of _ ds]) (auto intro: list_emb_Cons)
  next
    case False
    then obtain ds where "subseq ds (d # cs)" "strip_loop (d # cs) = concat ds" using 3(2) by blast
    then show ?thesis using False by (intro exI [of _ "c # ds"]) auto
  qed
qed (auto intro: exI [of _ "[]"])

section \<open>The exchange\<close>

text \<open>What a server sends as the status response, and what the client sends.\<close>

definition status_packet :: "string \<Rightarrow> bytes" where
  "status_packet raw = write_varint [] 0x00 @ string_field raw"

definition handshake_of :: "server_address \<Rightarrow> bytes" where
  "handshake_of a =
     write_varint [] 0x00 @ write_varint [] STATUS_PROTOCOL_VERSION @ string_field (sa_host a)
     @ be_bytes 2 (unat (sa_port a)) @ write_varint [] 1"

lemma length_string_field: "length s < 2 ^ 31 \<Longrightarrow> length (string_field s) \<le> 5 + length s"
  using varint_length_le_5 by (simp add: string_field_def write_string_def i32_of_len_def)

lemma handshake_payload_Ok: "length (sa_host a) < 2 ^ 31 \<Longrightarrow> handshake_payload a = Ok (handshake_of a)"
  by (simp add: handshake_payload_def handshake_of_def write_string_Ok write_varint_append [of "_ @ _"]
      write_varint_append [of "write_varint [] _"])

lemma length_handshake_of: "length (sa_host a) < 2 ^ 30 \<Longrightarrow> length (handshake_of a) < 2 ^ 31"
  using length_string_field [of "sa_host a"] varint_length_le_5 [of 0] varint_length_le_5 [of STATUS_PROTOCOL_VERSION]
    varint_length_le_5 [of 1]
  by (simp add: handshake_of_def)

lemma stream_write_frame_Ok:
  "length payload < 2 ^ 31 \<Longrightarrow> ss_fault s = None \<Longrightarrow>
   stream_write_frame payload s = Ok (s\<lparr>ss_out := ss_out s @ frame_of payload\<rparr>)"
  by (simp add: stream_write_frame_def frame_of_def write_frame_Ok)

lemma stream_read_frame_Ok:
  assumes "length payload \<le> m" and "length payload < 2 ^ 31" and "ss_in s = frame_of payload @ rest"
  shows "stream_read_frame m s = Ok (payload, s\<lparr>ss_in := rest\<rparr>)"
  using frame.dec_enc [of payload m "ss_eof s" rest] assms by (simp add: stream_read_frame_def)

lemma status_text_packet:
  assumes "utf8 raw" and "length raw < 2 ^ 31"
  shows "status_text (status_packet raw) = Ok raw"
proof -
  have f: "string_field raw = write_varint [] (word_of_nat (length raw)) @ as_bytes raw"
    using assms(2) by (simp add: string_field_def write_string_def i32_of_len_def)
  have "i32_of_len (length raw) = Some (word_of_nat (length raw))" using assms(2) by (simp add: i32_of_len_def)
  then have "usize_of_i32 (word_of_nat (length raw)) = Some (length raw)" by (rule i32_of_len_usize)
  moreover have "read_exact slice_eof (length raw) (as_bytes raw) = Ok (as_bytes raw, [])"
    using read_exact_append [of slice_eof "as_bytes raw" "[]"] by simp
  moreover have "read_varint slice_eof (write_varint [] (word_of_nat (length raw)) @ as_bytes raw) = Ok (word_of_nat (length raw), as_bytes raw)"
    by (rule read_write_varint)
  ultimately show ?thesis
    using assms(1) by (simp add: status_text_def status_packet_def read_write_varint f)
qed

text \<open>
  A packet that declares more text than it holds ends with the end of the slice, which is
  \<^verbatim>\<open>UnexpectedEof\<close> and not \<^verbatim>\<open>InvalidData\<close>.
\<close>

lemma status_text_truncated:
  assumes "length body < n" and "n < 2 ^ 31"
  shows "status_text (write_varint [] 0x00 @ write_varint [] (word_of_nat n) @ body) = Err slice_eof"
proof -
  have "i32_of_len n = Some (word_of_nat n)" using assms(2) by (simp add: i32_of_len_def)
  then have "usize_of_i32 (word_of_nat n) = Some n" by (rule i32_of_len_usize)
  then show ?thesis using assms(1) by (simp add: status_text_def read_write_varint read_exact_def)
qed

lemma length_ping: "length ping_payload < 2 ^ 31"
  using varint_length_le_5 [of 1] by (simp add: ping_payload_def)

lemma slp_exchange_frames:
  assumes "length (sa_host a) < 2 ^ 30" and "ss_fault s = None"
    and "utf8 raw" and "length raw + 10 \<le> MAX_STATUS_FRAME" and "length pong \<le> length ping_payload"
    and "ss_in s = frame_of (status_packet raw) @ frame_of pong @ rest"
  shows "slp_exchange k from_str a s lat =
    (if pong \<noteq> ping_payload then Err (io_err InvalidData ''pong did not echo the ping payload'')
     else bind_res (from_status_json k from_str raw lat) (\<lambda>st.
       Ok (st, s\<lparr>ss_in := rest,
         ss_out := ss_out s @ frame_of (handshake_of a) @ frame_of [0x00] @ frame_of ping_payload\<rparr>)))"
proof -
  have raw: "length raw < 2 ^ 31" "length (status_packet raw) \<le> MAX_STATUS_FRAME" "length (status_packet raw) < 2 ^ 31"
    using assms(4) length_string_field [of raw] varint_length_le_5 [of 0]
    by (simp_all add: status_packet_def MAX_STATUS_FRAME_def)
  have pong: "length pong < 2 ^ 31" using assms(5) length_ping by linarith
  have hs: "handshake_payload a = Ok (handshake_of a)" using assms(1) by (intro handshake_payload_Ok) simp
  let ?s1 = "s\<lparr>ss_out := ss_out s @ frame_of (handshake_of a)\<rparr>"
  let ?s2 = "s\<lparr>ss_out := ss_out s @ frame_of (handshake_of a) @ frame_of [0x00]\<rparr>"
  let ?s3 = "?s2\<lparr>ss_in := frame_of pong @ rest\<rparr>"
  have "stream_write_frame (handshake_of a) s = Ok ?s1"
    using length_handshake_of [OF assms(1)] assms(2) by (rule stream_write_frame_Ok)
  moreover have "stream_write_frame [0x00] ?s1 = Ok ?s2" using assms(2) by (simp add: stream_write_frame_Ok)
  moreover have "stream_read_frame MAX_STATUS_FRAME ?s2 = Ok (status_packet raw, ?s3)"
    using raw assms(6) by (intro stream_read_frame_Ok) simp_all
  then have "read_status_response ?s2 = Ok (raw, ?s3)"
    using status_text_packet [OF assms(3) raw(1)] by (simp add: read_status_response_def)
  moreover have "stream_write_frame ping_payload ?s3 = Ok (?s3\<lparr>ss_out := ss_out ?s3 @ frame_of ping_payload\<rparr>)"
    using length_ping assms(2) by (simp add: stream_write_frame_Ok)
  moreover have "stream_read_frame (length ping_payload) (?s3\<lparr>ss_out := ss_out ?s3 @ frame_of ping_payload\<rparr>)
      = Ok (pong, ?s3\<lparr>ss_out := ss_out ?s3 @ frame_of ping_payload, ss_in := rest\<rparr>)"
    using pong assms(5) by (intro stream_read_frame_Ok) simp_all
  ultimately show ?thesis using hs by (cases s) (simp add: slp_exchange_def)
qed

text \<open>The sockets before the first that accepts a connection are passed over.\<close>

lemma connect_first:
  assumes "\<forall>x \<in> set as. \<exists>e. conn x = Err e" and "conn x = Ok s" and "set_read s = Ok ()" and "set_write s = Ok ()"
  shows "connect_loop conn set_read set_write last_error (as @ x # bs) none = Ok s"
  using assms by (induction as arbitrary: last_error) auto

text \<open>
  C29: the status query. The name resolves to a list of sockets, of which the first ones refuse the
  connection and the next one is a server that answers with a status packet of a JSON text and a second
  frame no longer than the ping. Then the client, on the connection to this server, writes exactly the
  handshake for the address (protocol version -1, host, port, next state status), the status request and
  the ping, in this order; it fails with invalid data when the second frame is not the ping; otherwise it
  returns what the JSON text says, the text itself included, and has consumed exactly the two frames.
\<close>

theorem query_exchange:
  assumes "\<forall>x \<in> set refused. \<exists>e. conn x = Err e" and "conn sock = Ok s"
    and "set_read s = Ok ()" and "set_write s = Ok ()"
    and "length (sa_host a) < 2 ^ 30" and "ss_fault s = None"
    and "utf8 raw" and "length raw + 10 \<le> MAX_STATUS_FRAME" and "length pong \<le> length ping_payload"
    and "ss_in s = frame_of (status_packet raw) @ frame_of pong @ rest"
  shows "query k from_str (Ok (refused @ sock # others)) conn set_read set_write a lat =
    (if pong \<noteq> ping_payload then Err (io_err InvalidData ''pong did not echo the ping payload'')
     else bind_res (from_status_json k from_str raw lat) (\<lambda>st.
       Ok (st, s\<lparr>ss_in := rest,
         ss_out := ss_out s @ frame_of (handshake_of a) @ frame_of [0x00] @ frame_of ping_payload\<rparr>)))"
  using connect_first [of refused conn sock s set_read set_write] assms(1-4) slp_exchange_frames [OF assms(5-10), of k from_str lat] by (simp add: query_def connect_def)

definition sample_address :: server_address where
  "sample_address = \<lparr>sa_host = ''mc'', sa_port = 25565\<rparr>"

text \<open>A number is its value; the JSON text is taken to be a status document with a chat component.\<close>

definition int_numbers :: "int numbers" where
  "int_numbers = \<lparr>as_i64_of = (\<lambda>i. if - (2 ^ 63) \<le> i \<and> i < 2 ^ 63 then Some i else None),
     as_u64_of = (\<lambda>i. if 0 \<le> i \<and> i < 2 ^ 64 then Some (nat i) else None), is_f64 = (\<lambda>_. False), as_f64_of = (\<lambda>_. None)\<rparr>"

definition sample_status :: "int json" where
  "sample_status = JObject
     [(''version'', JObject [(''name'', JString ''26.2''), (''protocol'', JNumber 776)]),
      (''players'', JObject [(''online'', JNumber 3), (''max'', JNumber 20)]),
      (''description'', JObject [(''text'', JString ''Hello ''), (''extra'', JArray [JString ''you''])])]"

definition sample_stream :: slp_stream where
  "sample_stream =
     \<lparr>ss_in = frame_of (status_packet ''{}'') @ frame_of ping_payload @ [], ss_eof = slice_eof, ss_out = [], ss_fault = None\<rparr>"

definition sample_conn :: "nat \<Rightarrow> (io_error, slp_stream) res" where
  "sample_conn n = (if n = 0 then Err slice_eof else Ok sample_stream)"

theorem query_exchange_witness:
  "query int_numbers (\<lambda>_. Ok sample_status) (Ok ([0] @ 1 # [])) sample_conn (\<lambda>_. Ok ()) (\<lambda>_. Ok ()) sample_address 7
    = Ok (\<lparr>version_name = ''26.2'', protocol_version = 776, players_online = 3, players_max = 20,
        motd = ''Hello you'', raw_json = ''{}'', latency = 7\<rparr>,
        sample_stream\<lparr>ss_in := [],
          ss_out := frame_of (handshake_of sample_address) @ frame_of [0x00] @ frame_of ping_payload\<rparr>)"
proof -
  have u: "utf8 ''{}''" by (rule utf8_ascii) simp
  have d: "from_status_json int_numbers (\<lambda>_. Ok sample_status) ''{}'' 7
    = Ok \<lparr>version_name = ''26.2'', protocol_version = 776, players_online = 3, players_max = 20,
        motd = ''Hello you'', raw_json = ''{}'', latency = 7\<rparr>"
    by (simp add: from_status_json_def sample_status_def int_at_def str_at_def pointer2_def int_numbers_def)
  show ?thesis
    using query_exchange [of "[0]" sample_conn 1 sample_stream "\<lambda>_. Ok ()" "\<lambda>_. Ok ()" sample_address "''{}''" ping_payload "[]"
        int_numbers "\<lambda>_. Ok sample_status" "[]" 7] u d
    by (simp add: sample_conn_def sample_address_def sample_stream_def MAX_STATUS_FRAME_def)
qed

end
