(* ===== verification/Flecs_Token.thy ===== *)
theory Flecs_Token
  imports Byte_Text
begin

text \<open>
  The tokenizer of \<^verbatim>\<open>packages/flecs-query/core\<close> (\<^verbatim>\<open>token.rs\<close>, \<^verbatim>\<open>error.rs\<close>): positions are byte offsets
  into the source string, and slicing the source off a character boundary panics, as in Rust.
\<close>

section \<open>Spans and errors\<close>

record span =
  span_start :: nat
  span_end :: nat

definition span_at :: "nat \<Rightarrow> span" where
  "span_at offset = \<lparr>span_start = offset, span_end = offset\<rparr>"

record parse_error =
  pe_message :: string
  pe_span :: span

definition new_error :: "string \<Rightarrow> span \<Rightarrow> parse_error" where
  "new_error m s = \<lparr>pe_message = m, pe_span = s\<rparr>"

definition display_error :: "parse_error \<Rightarrow> string" where
  "display_error e = pe_message e @ '' (at byte '' @ show_nat (span_start (pe_span e)) @ '')''"

section \<open>Tokens\<close>

datatype token_kind =
    Ident | Number | Str | Star | Comma | LParen | RParen | LBracket | RBracket | LBrace | RBrace
  | Bang | Question | Pipe | OrOr | EqEq | Neq | TMatch | At | Eof

fun describe :: "token_kind \<Rightarrow> string" where
  "describe Ident = ''identifier''"
| "describe Number = ''number''"
| "describe Str = ''string''"
| "describe Star = [CHR 0x27] @ ''*'' @ [CHR 0x27]"
| "describe Comma = [CHR 0x27] @ '','' @ [CHR 0x27]"
| "describe LParen = [CHR 0x27] @ ''('' @ [CHR 0x27]"
| "describe RParen = [CHR 0x27] @ '')'' @ [CHR 0x27]"
| "describe LBracket = [CHR 0x27] @ ''['' @ [CHR 0x27]"
| "describe RBracket = [CHR 0x27] @ '']'' @ [CHR 0x27]"
| "describe LBrace = [CHR 0x27] @ ''{'' @ [CHR 0x27]"
| "describe RBrace = [CHR 0x27] @ ''}'' @ [CHR 0x27]"
| "describe Bang = [CHR 0x27] @ ''!'' @ [CHR 0x27]"
| "describe Question = [CHR 0x27] @ ''?'' @ [CHR 0x27]"
| "describe Pipe = [CHR 0x27] @ ''|'' @ [CHR 0x27]"
| "describe OrOr = [CHR 0x27] @ ''||'' @ [CHR 0x27]"
| "describe EqEq = [CHR 0x27] @ ''=='' @ [CHR 0x27]"
| "describe Neq = [CHR 0x27] @ ''!='' @ [CHR 0x27]"
| "describe TMatch = [CHR 0x27] @ ''~='' @ [CHR 0x27]"
| "describe At = [CHR 0x27] @ ''@'' @ [CHR 0x27]"
| "describe Eof = ''end of expression''"

record token =
  tk_kind :: token_kind
  tk_text :: string
  tk_span :: span

section \<open>Source text\<close>

definition byte_at :: "string \<Rightarrow> nat \<Rightarrow> char option" where
  "byte_at s p = (if p < length s then Some (s ! p) else None)"

definition is_boundary :: "string \<Rightarrow> nat \<Rightarrow> bool" where
  "is_boundary s p \<longleftrightarrow> p = 0 \<or> p = length s \<or> (p < length s \<and> \<not> cont (of_char (s ! p)))"

definition slice_from :: "string \<Rightarrow> nat \<Rightarrow> ('e, string) res" where
  "slice_from s p = (if p \<le> length s \<and> is_boundary s p then Ok (drop p s) else Panic)"

definition slice_range :: "string \<Rightarrow> nat \<Rightarrow> nat \<Rightarrow> ('e, string) res" where
  "slice_range s a b =
     (if a \<le> b \<and> b \<le> length s \<and> is_boundary s a \<and> is_boundary s b then Ok (take (b - a) (drop a s)) else Panic)"

definition is_ascii_whitespace :: "char \<Rightarrow> bool" where
  "is_ascii_whitespace c \<longleftrightarrow> c \<in> {CHR '' '', CHR 0x09, CHR 0x0A, CHR 0x0C, CHR 0x0D}"

definition is_ascii_alphabetic :: "char \<Rightarrow> bool" where
  "is_ascii_alphabetic c \<longleftrightarrow>
     (let n = (of_char c :: nat) in (65 \<le> n \<and> n \<le> 90) \<or> (97 \<le> n \<and> n \<le> 122))"

definition is_ident_start :: "char \<Rightarrow> bool" where
  "is_ident_start c \<longleftrightarrow> is_ascii_alphabetic c \<or> c = CHR ''_'' \<or> c = CHR ''$'' \<or> c = CHR 0x23"

definition is_ident_continue :: "char \<Rightarrow> bool" where
  "is_ident_continue c \<longleftrightarrow> is_ident_start c \<or> is_digit c"

section \<open>Trivia\<close>

function skip_while :: "(char \<Rightarrow> bool) \<Rightarrow> string \<Rightarrow> nat \<Rightarrow> nat" where
  "skip_while P s pos = (if pos < length s \<and> P (s ! pos) then skip_while P s (pos + 1) else pos)"
  by pat_completeness auto

termination
  by (relation "measure (\<lambda>(P, s, pos). length s - pos)") auto

declare skip_while.simps [simp del]

lemma skip_while_ge: "pos \<le> skip_while P s pos"
proof (induction P s pos rule: skip_while.induct)
  case (1 P s pos)
  then show ?case by (subst skip_while.simps) (auto dest: Suc_leD)
qed

lemma skip_while_le: "pos \<le> length s \<Longrightarrow> skip_while P s pos \<le> length s"
proof (induction P s pos rule: skip_while.induct)
  case (1 P s pos)
  then show ?case by (subst skip_while.simps) auto
qed

text \<open>The end of a block comment whose opening is before \<open>pos\<close>.\<close>

function block_end :: "string \<Rightarrow> nat \<Rightarrow> nat option" where
  "block_end s pos =
     (if length s \<le> pos then None
      else if s ! pos = CHR ''*'' \<and> byte_at s (pos + 1) = Some (CHR ''/'') then Some (pos + 2)
      else block_end s (pos + 1))"
  by pat_completeness auto

termination
  by (relation "measure (\<lambda>(s, pos). length s - pos)") auto

declare block_end.simps [simp del]

lemma block_end_Some: "block_end s pos = Some q \<Longrightarrow> pos < q \<and> q \<le> length s"
proof (induction s pos rule: block_end.induct)
  case (1 s pos)
  then show ?case
    by (subst (asm) block_end.simps) (auto simp: byte_at_def split: if_splits)
qed

lemma skip_line_greater:
  assumes "byte_at s pos = Some (CHR ''/'')"
  shows "pos < skip_while (\<lambda>c. c \<noteq> CHR 0x0A) s pos"
proof -
  have "skip_while (\<lambda>c. c \<noteq> CHR 0x0A) s pos = skip_while (\<lambda>c. c \<noteq> CHR 0x0A) s (pos + 1)"
    using assms by (subst skip_while.simps) (auto simp: byte_at_def split: if_splits)
  then show ?thesis using skip_while_ge [of "pos + 1" "\<lambda>c. c \<noteq> CHR 0x0A" s] by simp
qed

lemma byte_at_Some: "byte_at s p = Some c \<longleftrightarrow> p < length s \<and> s ! p = c"
  by (auto simp: byte_at_def)

function skip_trivia :: "string \<Rightarrow> nat \<Rightarrow> (parse_error, nat) res" where
  "skip_trivia s pos0 =
     (let pos = skip_while is_ascii_whitespace s pos0 in
      if byte_at s pos = Some (CHR ''/'') \<and> byte_at s (pos + 1) = Some (CHR ''/'')
      then skip_trivia s (skip_while (\<lambda>c. c \<noteq> CHR 0x0A) s pos)
      else if byte_at s pos = Some (CHR ''/'') \<and> byte_at s (pos + 1) = Some (CHR ''*'')
      then (case block_end s (pos + 2) of
              None \<Rightarrow> Err (new_error ''missing */ for multiline comment'' (span_at pos))
            | Some q \<Rightarrow> skip_trivia s q)
      else Ok pos)"
  by pat_completeness auto

termination
proof (relation "measure (\<lambda>(s, pos). length s - pos)", goal_cases)
  case (2 s pos0 pos)
  then have "pos0 \<le> pos" "pos < length s" using skip_while_ge by (auto simp: byte_at_Some)
  with skip_line_greater [of s pos] 2 show ?case by simp
next
  case (3 s pos0 pos q)
  then have "pos0 \<le> pos" "pos < length s" using skip_while_ge by (auto simp: byte_at_Some)
  moreover have "pos + 2 < q" "q \<le> length s" using block_end_Some [of s "pos + 2" q] 3 by simp_all
  ultimately show ?case by simp
qed simp

declare skip_trivia.simps [simp del]

section \<open>Tokens from the source\<close>

definition punct_width :: "token_kind \<Rightarrow> nat \<Rightarrow> nat \<Rightarrow> token \<times> nat" where
  "punct_width k start width =
     (\<lparr>tk_kind = k, tk_text = [], tk_span = \<lparr>span_start = start, span_end = start + width\<rparr>\<rparr>, start + width)"

definition punct :: "token_kind \<Rightarrow> nat \<Rightarrow> token \<times> nat" where
  "punct k start = punct_width k start 1"

definition wide_punct :: "token_kind \<Rightarrow> nat \<Rightarrow> token \<times> nat" where
  "wide_punct k start = punct_width k start 2"

definition lex_number :: "string \<Rightarrow> nat \<Rightarrow> (parse_error, token \<times> nat) res" where
  "lex_number s start =
     (let p1 = (if s ! start = CHR ''-'' then start + 1 else start);
          pos = skip_while is_digit s p1
      in bind_res (slice_range s start pos) (\<lambda>text.
           Ok (\<lparr>tk_kind = Number, tk_text = text, tk_span = \<lparr>span_start = start, span_end = pos\<rparr>\<rparr>, pos)))"

lemma slice_next_char: "slice_from s pos = Ok rest \<Longrightarrow> next_char rest = Some ch \<Longrightarrow> pos < length s"
  by (cases "pos < length s") (auto simp: slice_from_def next_char_def split: if_splits)

lemma next_char_decreases:
  "next_char rest = Some ch \<Longrightarrow> pos < n \<Longrightarrow> n - (pos + length ch) < n - pos"
  "next_char rest = Some ch \<Longrightarrow> pos < n \<Longrightarrow> n - Suc (pos + length ch) < n - pos"
  using next_char_nonempty [of rest ch] by linarith+

function lex_string_loop :: "string \<Rightarrow> nat \<Rightarrow> string \<Rightarrow> nat \<Rightarrow> (parse_error, token \<times> nat) res" where
  "lex_string_loop s start text pos =
     (case byte_at s pos of
        None \<Rightarrow> Err (new_error ''unterminated string'' (span_at start))
      | Some c \<Rightarrow>
          if c = CHR 0x22 then
            Ok (\<lparr>tk_kind = Str, tk_text = text, tk_span = \<lparr>span_start = start, span_end = pos + 1\<rparr>\<rparr>, pos + 1)
          else if c = CHR 0x5C then
            bind_res (slice_from s (pos + 1)) (\<lambda>rest.
              case next_char rest of
                Some ch \<Rightarrow> lex_string_loop s start (text @ ch) (pos + 1 + length ch)
              | None \<Rightarrow> Err (new_error ''unterminated string'' (span_at start)))
          else
            bind_res (slice_from s pos) (\<lambda>rest.
              case next_char rest of
                Some ch \<Rightarrow> lex_string_loop s start (text @ ch) (pos + length ch)
              | None \<Rightarrow> Panic))"
  by pat_completeness auto

termination
  by (relation "measure (\<lambda>(s, start, text, pos). length s - pos)")
    (auto simp: byte_at_Some intro: next_char_decreases)

declare lex_string_loop.simps [simp del]

definition lex_string :: "string \<Rightarrow> nat \<Rightarrow> (parse_error, token \<times> nat) res" where
  "lex_string s start = lex_string_loop s start [] (start + 1)"

text \<open>A template argument list, copied through balanced.\<close>

function template_loop :: "string \<Rightarrow> nat \<Rightarrow> nat \<Rightarrow> string \<Rightarrow> nat \<Rightarrow> (parse_error, string \<times> nat) res" where
  "template_loop s start depth text pos =
     bind_res (slice_from s pos) (\<lambda>rest.
       case next_char rest of
         None \<Rightarrow> Err (new_error ''< without > in identifier'' (span_at start))
       | Some t \<Rightarrow>
           if t = ''>'' \<and> depth = 0 then Panic
           else
             (let depth' = (if t = ''<'' then depth + 1 else if t = ''>'' then depth - 1 else depth)
              in if depth' = 0 then Ok (text @ t, pos + length t)
                 else template_loop s start depth' (text @ t) (pos + length t)))"
  by pat_completeness auto

termination
proof (relation "measure (\<lambda>(s, start, depth, text, pos). length s - pos)", goal_cases)
  case (2 s _ _ _ pos rest t depth')
  then show ?case using slice_next_char [OF 2(1,2)] next_char_decreases(1) [OF 2(2)] by simp
qed simp

declare template_loop.simps [simp del]

definition finish_ident :: "nat \<Rightarrow> string \<Rightarrow> nat \<Rightarrow> (parse_error, token \<times> nat) res" where
  "finish_ident start text pos =
     Ok (\<lparr>tk_kind = Ident, tk_text = text, tk_span = \<lparr>span_start = start, span_end = pos\<rparr>\<rparr>, pos)"

function lex_ident_loop :: "string \<Rightarrow> nat \<Rightarrow> string \<Rightarrow> nat \<Rightarrow> (parse_error, token \<times> nat) res" where
  "lex_ident_loop s start text pos =
     (case byte_at s pos of
        None \<Rightarrow> finish_ident start text pos
      | Some c \<Rightarrow>
          if c = CHR ''.'' \<and> byte_at s (pos + 1) = Some (CHR ''.'') then finish_ident start text pos
          else if is_ident_continue c \<or> c = CHR ''.'' then lex_ident_loop s start (text @ [c]) (pos + 1)
          else if c = CHR 0x5C \<and> byte_at s (pos + 1) = Some (CHR ''.'') then
            lex_ident_loop s start (text @ [CHR 0x5C, CHR ''.'']) (pos + 2)
          else if c = CHR 0x5C then
            bind_res (slice_from s (pos + 1)) (\<lambda>rest.
              case next_char rest of
                None \<Rightarrow> finish_ident start text (pos + 1)
              | Some ch \<Rightarrow> lex_ident_loop s start (text @ ch) (pos + 1 + length ch))
          else if c = CHR ''*'' \<and> pos = 0 then Panic
          else if c = CHR ''*'' \<and> s ! (pos - 1) = CHR ''.'' then lex_ident_loop s start (text @ [c]) (pos + 1)
          else if c = CHR ''<'' then
            bind_res (template_loop s start 0 text pos) (\<lambda>(text', pos'). finish_ident start text' pos')
          else if c = CHR ''>'' then Err (new_error ''> without < in identifier'' (span_at pos))
          else finish_ident start text pos)"
  by pat_completeness auto

termination
  by (relation "measure (\<lambda>(s, start, text, pos). length s - pos)")
    (auto simp: byte_at_Some intro: next_char_decreases)

declare lex_ident_loop.simps [simp del]

definition lex_ident :: "string \<Rightarrow> nat \<Rightarrow> (parse_error, token \<times> nat) res" where
  "lex_ident s start = lex_ident_loop s start [] start"

section \<open>The lexer\<close>

definition lex_token :: "string \<Rightarrow> nat \<Rightarrow> char \<Rightarrow> (parse_error, token \<times> nat) res" where
  "lex_token s start c =
     (let nxt = byte_at s (start + 1) in
      if c = CHR '','' then Ok (punct Comma start)
      else if c = CHR ''('' then Ok (punct LParen start)
      else if c = CHR '')'' then Ok (punct RParen start)
      else if c = CHR ''['' then Ok (punct LBracket start)
      else if c = CHR '']'' then Ok (punct RBracket start)
      else if c = CHR ''{'' then Ok (punct LBrace start)
      else if c = CHR ''}'' then Ok (punct RBrace start)
      else if c = CHR ''?'' then Ok (punct Question start)
      else if c = CHR ''@'' then Ok (punct At start)
      else if c = CHR ''*'' then Ok (punct Star start)
      else if c = CHR ''|'' \<and> nxt = Some (CHR ''|'') then Ok (wide_punct OrOr start)
      else if c = CHR ''|'' then Ok (punct Pipe start)
      else if c = CHR ''='' \<and> nxt = Some (CHR ''='') then Ok (wide_punct EqEq start)
      else if c = CHR ''!'' \<and> nxt = Some (CHR ''='') then Ok (wide_punct Neq start)
      else if c = CHR ''!'' then Ok (punct Bang start)
      else if c = CHR ''~'' \<and> nxt = Some (CHR ''='') then Ok (wide_punct TMatch start)
      else if c = CHR 0x22 then lex_string s start
      else if c = CHR ''-'' \<and> (case nxt of Some d \<Rightarrow> is_digit d | None \<Rightarrow> False) then lex_number s start
      else if is_digit c then lex_number s start
      else if is_ident_start c then lex_ident s start
      else bind_res (slice_from s start) (\<lambda>rest.
        bind_res (expect_some (next_char rest)) (\<lambda>offender.
          Err (new_error (''unknown token '' @ [CHR 0x27] @ offender @ [CHR 0x27]) (span_at start)))))"

subsection \<open>Progress of the lexer\<close>

text \<open>A token lexed at \<open>start\<close> and the position after it.\<close>

definition token_at :: "string \<Rightarrow> nat \<Rightarrow> token \<times> nat \<Rightarrow> bool" where
  "token_at s start r \<longleftrightarrow>
     tk_span (fst r) = \<lparr>span_start = start, span_end = snd r\<rparr> \<and> start < snd r \<and> snd r \<le> length s \<and> tk_kind (fst r) \<noteq> Eof"

lemma next_char_length: "next_char rest = Some ch \<Longrightarrow> length ch \<le> length rest"
  by (cases rest) (auto simp: next_char_def)

lemma slice_from_Ok: "slice_from s p = Ok rest \<Longrightarrow> rest = drop p s \<and> p \<le> length s"
  by (auto simp: slice_from_def split: if_splits)

lemma slice_next_le:
  "slice_from s pos = Ok rest \<Longrightarrow> next_char rest = Some ch \<Longrightarrow> pos < pos + length ch \<and> pos + length ch \<le> length s"
  by (drule slice_from_Ok) (auto dest: next_char_length next_char_nonempty)

lemma lex_string_loop_token:
  assumes "lex_string_loop s start acc pos = Ok r" and "start < pos"
  shows "token_at s start r"
  using assms
proof (induction "length s - pos" arbitrary: acc pos rule: less_induct)
  case less
  show ?case
  proof (cases "byte_at s pos")
    case None
    with less.prems(1) show ?thesis by (simp add: lex_string_loop.simps [of s start acc pos])
  next
    case (Some c)
    then have pos: "pos < length s" by (simp add: byte_at_Some)
    note unfold = less.prems(1) [unfolded lex_string_loop.simps [of s start acc pos] Some option.case]
    consider "c = CHR 0x22" | "c = CHR 0x5C" | "c \<noteq> CHR 0x22" "c \<noteq> CHR 0x5C" by blast
    then show ?thesis
    proof cases
      case 1
      then show ?thesis using unfold pos less.prems(2) by (auto simp: token_at_def)
    next
      case 2
      with unfold obtain rest ch where ch: "next_char rest = Some ch"
          "lex_string_loop s start (acc @ ch) (pos + 1 + length ch) = Ok r"
        by (auto simp: res_simps split: option.splits)
      from less.hyps [OF _ ch(2)] less.prems(2) next_char_decreases(2) [OF ch(1) pos] show ?thesis by simp
    next
      case 3
      with unfold obtain rest ch where ch: "next_char rest = Some ch"
          "lex_string_loop s start (acc @ ch) (pos + length ch) = Ok r"
        by (auto simp: res_simps split: option.splits)
      from less.hyps [OF _ ch(2)] less.prems(2) next_char_decreases(1) [OF ch(1) pos] show ?thesis by simp
    qed
  qed
qed

lemma template_loop_step:
  assumes "template_loop s start depth acc pos = Ok r"
  obtains rest t d where "slice_from s pos = (Ok rest :: (parse_error, string) res)" and "next_char rest = Some t"
    and "r = (acc @ t, pos + length t) \<or> template_loop s start d (acc @ t) (pos + length t) = Ok r"
proof (cases "slice_from s pos :: (parse_error, string) res")
  case (Ok rest)
  note un = assms [unfolded template_loop.simps [of s start depth acc pos] Ok bind_res.simps]
  then obtain t where t: "next_char rest = Some t" by (cases "next_char rest") auto
  show ?thesis
    by (rule that [OF Ok t, where d = "if t = ''<'' then depth + 1 else if t = ''>'' then depth - 1 else depth"])
      (use un t in \<open>simp add: Let_def split: if_splits\<close>)
qed (use assms in \<open>simp_all add: template_loop.simps [of s start depth acc pos]\<close>)

lemma template_loop_progress:
  assumes "template_loop s start depth acc pos = Ok r"
  shows "pos < snd r \<and> snd r \<le> length s"
  using assms
proof (induction "length s - pos" arbitrary: depth acc pos rule: less_induct)
  case less
  from less.prems show ?case
  proof (rule template_loop_step)
    fix rest t d
    assume sl: "slice_from s pos = (Ok rest :: (parse_error, string) res)" "next_char rest = Some t"
      and "r = (acc @ t, pos + length t) \<or> template_loop s start d (acc @ t) (pos + length t) = Ok r"
    note le = slice_next_le [OF sl]
    then have dec: "length s - (pos + length t) < length s - pos" by linarith
    from \<open>r = _ \<or> _\<close> show ?thesis
    proof
      assume "template_loop s start d (acc @ t) (pos + length t) = Ok r"
      from less.hyps [OF dec this] le show ?thesis by linarith
    qed (use le in simp)
  qed
qed

lemma finish_ident_token:
  "finish_ident start acc q = Ok r \<Longrightarrow> start < q \<Longrightarrow> q \<le> length s \<Longrightarrow> token_at s start r"
  by (auto simp: finish_ident_def token_at_def)

text \<open>One turn of the identifier loop either stops with a token, fails or goes on further right.\<close>

lemma lex_ident_loop_step:
  assumes "lex_ident_loop s start acc pos = Ok r" and "pos \<le> length s"
  obtains (stop) a q where "finish_ident start a q = Ok r" and "pos \<le> q" and "q \<le> length s"
      and "byte_at s pos = Some CHR ''<'' \<Longrightarrow> pos < q"
    | (go) a q where "lex_ident_loop s start a q = Ok r" and "pos < q" and "q \<le> length s"
proof (cases "byte_at s pos")
  case None
  then show ?thesis using assms stop [of acc pos] by (simp add: lex_ident_loop.simps [of s start acc pos])
next
  case (Some c)
  then have pos: "pos < length s" by (simp add: byte_at_Some)
  note un = assms(1) [unfolded lex_ident_loop.simps [of s start acc pos] Some option.case]
  have nxt: "pos + 2 \<le> length s" if "byte_at s (pos + 1) = Some d" for d
    using that by (simp add: byte_at_Some)
  consider "c = CHR ''.'' \<and> byte_at s (pos + 1) = Some (CHR ''.'')"
    | "is_ident_continue c \<or> c = CHR ''.''" "\<not> (c = CHR ''.'' \<and> byte_at s (pos + 1) = Some (CHR ''.''))"
    | "c = CHR 0x5C" | "c = CHR ''*''" | "c = CHR ''<''" | "c = CHR ''>''"
    | "\<not> (is_ident_continue c \<or> c = CHR ''.'')" "c \<noteq> CHR 0x5C" "c \<noteq> CHR ''*''" "c \<noteq> CHR ''<''" "c \<noteq> CHR ''>''"
    by blast
  then show ?thesis
  proof cases
    case 1
    then show ?thesis using un pos Some by (intro stop [of acc pos]) auto
  next
    case 2
    then show ?thesis using un pos by (intro go [of "acc @ [c]" "pos + 1"]) auto
  next
    case 3
    show ?thesis
    proof (cases "byte_at s (pos + 1) = Some (CHR ''.'')")
      case True
      then show ?thesis using un 3 nxt
        by (intro go [of "acc @ [CHR 0x5C, CHR ''.'']" "pos + 2"]) (auto simp: is_ident_continue_def is_ident_start_def is_ascii_alphabetic_def is_digit_def)
    next
      case False
      with un 3 obtain rest where rest: "slice_from s (pos + 1) = (Ok rest :: (parse_error, string) res)"
          "(case next_char rest of None \<Rightarrow> finish_ident start acc (pos + 1)
            | Some ch \<Rightarrow> lex_ident_loop s start (acc @ ch) (pos + 1 + length ch)) = Ok r"
        by (auto simp: is_ident_continue_def is_ident_start_def is_ascii_alphabetic_def is_digit_def res_simps)
      show ?thesis
      proof (cases "next_char rest")
        case None
        then show ?thesis using rest pos 3 Some by (intro stop [of acc "pos + 1"]) auto
      next
        case ch: (Some ch)
        then show ?thesis using rest slice_next_le [OF rest(1) ch]
          by (intro go [of "acc @ ch" "pos + 1 + length ch"]) auto
      qed
    qed
  next
    case 4
    then show ?thesis using un pos Some stop [of acc pos] go [of "acc @ [c]" "pos + 1"]
      by (auto split: if_splits)
  next
    case 5
    with un obtain r1 where r1: "template_loop s start 0 acc pos = Ok r1" "finish_ident start (fst r1) (snd r1) = Ok r"
      by (auto simp: is_ident_continue_def is_ident_start_def is_ascii_alphabetic_def is_digit_def res_simps split: prod.splits)
    then show ?thesis using template_loop_progress [OF r1(1)] by (intro stop [of "fst r1" "snd r1"]) auto
  next
    case 6
    then show ?thesis using un
      by (auto simp: is_ident_continue_def is_ident_start_def is_ascii_alphabetic_def is_digit_def)
  next
    case 7
    then show ?thesis using un pos Some by (intro stop [of acc pos]) auto
  qed
qed

lemma lex_ident_loop_token:
  assumes "lex_ident_loop s start acc pos = Ok r" and "start < pos" and "pos \<le> length s"
  shows "token_at s start r"
  using assms
proof (induction "length s - pos" arbitrary: acc pos rule: less_induct)
  case less
  from less.prems(1,3) show ?case
  proof (cases rule: lex_ident_loop_step)
    case (stop a q)
    then show ?thesis using less.prems(2) by (intro finish_ident_token [OF stop(1)]) auto
  next
    case (go a q)
    have "length s - q < length s - pos" using go(2,3) by linarith
    from less.hyps [OF this go(1)] go(2,3) less.prems(2) show ?thesis by linarith
  qed
qed

lemma lex_ident_token:
  assumes "lex_ident s start = Ok r" and "byte_at s start = Some c" and "is_ident_start c"
  shows "token_at s start r"
proof -
  have "c \<noteq> CHR ''.''" using assms(3) by (auto simp: is_ident_start_def is_ascii_alphabetic_def)
  then have "lex_ident_loop s start [c] (start + 1) = Ok r"
    using assms by (simp add: lex_ident_def lex_ident_loop.simps [of s start "[]" start] is_ident_continue_def)
  then show ?thesis using assms(2) by (intro lex_ident_loop_token) (auto simp: byte_at_Some)
qed

lemma skip_while_greater: "byte_at s pos = Some c \<Longrightarrow> P c \<Longrightarrow> pos < skip_while P s pos"
  using skip_while_ge [of "pos + 1" P s] by (subst skip_while.simps) (auto simp: byte_at_Some)

lemma lex_number_token:
  assumes "lex_number s start = Ok r" and "byte_at s start = Some c"
    and "is_digit c \<or> c = CHR ''-''"
  shows "token_at s start r"
proof -
  let ?p = "if s ! start = CHR ''-'' then start + 1 else start"
  have start: "start < length s" "s ! start = c" using assms(2) by (auto simp: byte_at_Some)
  have "start < skip_while is_digit s ?p"
    using skip_while_ge [of ?p is_digit s] skip_while_greater [OF assms(2), of is_digit] assms(3) start by auto
  moreover have "skip_while is_digit s ?p \<le> length s" using start by (intro skip_while_le) auto
  ultimately show ?thesis using assms(1) by (auto simp: lex_number_def Let_def token_at_def res_simps)
qed

lemma punct_token: "byte_at s start = Some c \<Longrightarrow> k \<noteq> Eof \<Longrightarrow> token_at s start (punct k start)"
  by (simp add: punct_def punct_width_def token_at_def byte_at_Some)

lemma wide_punct_token: "byte_at s (start + 1) = Some c \<Longrightarrow> k \<noteq> Eof \<Longrightarrow> token_at s start (wide_punct k start)"
  by (simp add: wide_punct_def punct_width_def token_at_def byte_at_Some)

lemma lex_token_token:
  assumes "lex_token s start c = Ok r" and c: "byte_at s start = Some c"
  shows "token_at s start r"
proof -
  note intros = punct_token [OF c] wide_punct_token lex_string_loop_token [of s start "[]" "start + 1"]
    lex_number_token [OF _ c] lex_ident_token [OF _ c]
  show ?thesis
    using assms(1) unfolding lex_token_def Let_def
    by (auto simp: lex_string_def res_simps split: if_splits intro: intros)
qed

lemma skip_trivia_le:
  assumes "skip_trivia s pos = Ok q" shows "pos \<le> q"
  using assms
proof (induction s pos rule: skip_trivia.induct)
  case (1 s pos0)
  define pos where "pos = skip_while is_ascii_whitespace s pos0"
  have ge: "pos0 \<le> pos" by (simp add: pos_def skip_while_ge)
  note un = 1(3) [unfolded skip_trivia.simps [of s pos0] Let_def, folded pos_def]
  show ?case
  proof (cases "byte_at s pos = Some (CHR ''/'') \<and> byte_at s (pos + 1) = Some (CHR ''/'')")
    case True
    then show ?thesis using 1(1) [OF pos_def True] un ge skip_while_ge [of pos "\<lambda>c. c \<noteq> CHR 0x0A" s] by simp
  next
    case False
    show ?thesis
    proof (cases "byte_at s pos = Some (CHR ''/'') \<and> byte_at s (pos + 1) = Some (CHR ''*'')")
      case True
      with un False obtain q' where q': "block_end s (pos + 2) = Some q'" "skip_trivia s q' = Ok q"
        by (auto split: option.splits)
      show ?thesis using 1(2) [OF pos_def False True q'] block_end_Some [OF q'(1)] ge by simp
    next
      case F: False
      with un False ge show ?thesis by auto
    qed
  qed
qed

subsection \<open>The token stream\<close>

definition eof_token :: "nat \<Rightarrow> token" where
  "eof_token pos = \<lparr>tk_kind = Eof, tk_text = [], tk_span = span_at pos\<rparr>"

function lex_loop :: "string \<Rightarrow> token list \<Rightarrow> nat \<Rightarrow> (parse_error, token list) res" where
  "lex_loop s tokens pos0 =
     bind_res (skip_trivia s pos0) (\<lambda>pos.
       case byte_at s pos of
         None \<Rightarrow> Ok (tokens @ [eof_token pos])
       | Some c \<Rightarrow> bind_res (lex_token s pos c) (\<lambda>(token, pos'). lex_loop s (tokens @ [token]) pos'))"
  by pat_completeness auto

termination
proof (relation "measure (\<lambda>(s, tokens, pos). length s - pos)", goal_cases)
  case (2 s tokens pos0 pos c r token pos')
  then show ?case using skip_trivia_le [of s pos0 pos] lex_token_token [of s pos c r]
    by (auto simp: token_at_def byte_at_Some)
qed simp

declare lex_loop.simps [simp del]

definition lex :: "string \<Rightarrow> (parse_error, token list) res" where
  "lex s = lex_loop s [] 0"

end
