(* ===== verification/Flecs_Lexing.thy ===== *)
theory Flecs_Lexing
  imports Flecs_Token
begin

text \<open>
  The lexer on valid text: every position it stops at is a character boundary, so no slice of the
  source panics; every token is a non-empty piece of the source and holds valid text; the spans of
  tokens and errors are on character boundaries, as \<^verbatim>\<open>error.rs\<close> states.
\<close>

section \<open>Characters of valid text\<close>

text \<open>The codes of one character, the unit that UTF-8 validity is made of.\<close>

definition utf8_char :: "nat list \<Rightarrow> bool" where
  "utf8_char ch \<longleftrightarrow> ch \<noteq> [] \<and> \<not> cont (hd ch) \<and> (\<forall>b \<in> set (tl ch). cont b)
     \<and> (\<forall>r. utf8_codes (ch @ r) \<longleftrightarrow> utf8_codes r)
     \<and> length ch = (if hd ch < 128 then 1 else if hd ch < 224 then 2 else if hd ch < 240 then 3 else 4)"

lemma utf8_codes_cases:
  assumes "utf8_codes cs" and "cs \<noteq> []"
  obtains ch r where "cs = ch @ r" and "utf8_char ch" and "utf8_codes r"
proof -
  obtain a bs where cs: "cs = a # bs" using assms(2) by (cases cs) auto
  note un = assms(1) [unfolded cs utf8_codes.simps]
  consider "a < 128" | "194 \<le> a" "a \<le> 223" | "224 \<le> a" "a \<le> 239" | "240 \<le> a" "a \<le> 244"
    using un by (auto split: if_splits)
  then show ?thesis
  proof cases
    case 1
    then show ?thesis using un cs by (intro that [of "[a]" bs]) (auto simp: utf8_char_def cont_def)
  next
    case 2
    then obtain b r where "bs = b # r" "cont b" "utf8_codes r" using un by (auto split: list.splits)
    with 2 cs show ?thesis by (intro that [of "[a, b]" r]) (auto simp: utf8_char_def cont_def)
  next
    case 3
    then obtain b c r where r: "bs = b # c # r" "cont b" "cont c" "a = 224 \<longrightarrow> 160 \<le> b" "a = 237 \<longrightarrow> b \<le> 159" "utf8_codes r"
      using un by (auto split: list.splits)
    have "utf8_char [a, b, c]" using 3 r(2-5) by (simp add: utf8_char_def) (auto simp: cont_def)
    with r cs show ?thesis by (intro that [of "[a, b, c]" r]) auto
  next
    case 4
    then obtain b c d r where r: "bs = b # c # d # r" "cont b" "cont c" "cont d" "a = 240 \<longrightarrow> 144 \<le> b" "a = 244 \<longrightarrow> b \<le> 143"
        "utf8_codes r"
      using un by (auto split: list.splits)
    have "utf8_char [a, b, c, d]" using 4 r(2-6) by (simp add: utf8_char_def) (auto simp: cont_def)
    with r cs show ?thesis by (intro that [of "[a, b, c, d]" r]) auto
  qed
qed

lemma utf8_codes_induct [consumes 1, case_names Nil Char]:
  assumes "utf8_codes cs" and "P []"
    and step: "\<And>ch r. utf8_char ch \<Longrightarrow> utf8_codes r \<Longrightarrow> P r \<Longrightarrow> P (ch @ r)"
  shows "P cs"
  using assms(1)
proof (induction cs rule: length_induct)
  case (1 cs)
  show ?case
  proof (cases "cs = []")
    case False
    with 1(2) obtain ch r where r: "cs = ch @ r" "utf8_char ch" "utf8_codes r" by (rule utf8_codes_cases)
    then have "length r < length cs" by (auto simp: utf8_char_def)
    with 1(1) r show ?thesis by (auto intro: step)
  qed (use assms(2) in simp)
qed

lemma utf8_codes_append: "utf8_codes a \<Longrightarrow> utf8_codes b \<Longrightarrow> utf8_codes (a @ b)"
  by (induction rule: utf8_codes_induct) (auto simp: utf8_char_def)

lemma utf8_codes_split:
  assumes "utf8_codes cs" and "k < length cs \<Longrightarrow> \<not> cont (cs ! k)"
  shows "utf8_codes (take k cs) \<and> utf8_codes (drop k cs)"
  using assms
proof (induction arbitrary: k rule: utf8_codes_induct)
  case (Char ch r)
  obtain c0 c1 where ch: "ch = c0 # c1" "\<forall>b \<in> set c1. cont b" using Char(1) by (cases ch) (auto simp: utf8_char_def)
  consider "k = 0" | "0 < k" "k < length ch" | "length ch \<le> k" by linarith
  then show ?case
  proof cases
    case 1
    then show ?thesis using Char(1,2) by (simp add: utf8_char_def)
  next
    case 2
    then have "(ch @ r) ! k = c1 ! (k - 1)" "k - 1 < length c1" by (auto simp: ch(1) nth_append nth_Cons')
    then have "cont ((ch @ r) ! k)" using ch(2) by simp
    with 2 Char(4) show ?thesis by simp
  next
    case 3
    then have "utf8_codes (take (k - length ch) r) \<and> utf8_codes (drop (k - length ch) r)"
      using Char(4) by (intro Char(3)) (auto simp: nth_append)
    with 3 Char(1) show ?thesis by (simp add: utf8_char_def)
  qed
qed simp

lemma utf8_append: "utf8 a \<Longrightarrow> utf8 b \<Longrightarrow> utf8 (a @ b)"
  by (simp add: utf8_def utf8_codes_append)

lemma is_boundary_le: "is_boundary s p \<Longrightarrow> p \<le> length s"
  by (auto simp: is_boundary_def)

lemma utf8_split:
  assumes "utf8 s" and "is_boundary s p"
  shows "utf8 (take p s)" and "utf8 (drop p s)"
proof -
  have "utf8_codes (take p (map of_char s)) \<and> utf8_codes (drop p (map of_char s))"
  proof (cases "p = 0")
    case True
    then show ?thesis using assms(1) by (simp add: utf8_def)
  next
    case False
    then show ?thesis using assms by (intro utf8_codes_split) (auto simp: utf8_def is_boundary_def)
  qed
  then show "utf8 (take p s)" "utf8 (drop p s)" by (simp_all add: utf8_def take_map drop_map)
qed

lemma slice_from_boundary: "is_boundary s p \<Longrightarrow> slice_from s p = Ok (drop p s)"
  by (simp add: slice_from_def is_boundary_le)

lemma utf8_next_char:
  assumes "utf8 s" and "s \<noteq> []"
  obtains ch where "next_char s = Some ch" and "utf8 ch" and "is_boundary s (length ch)" and "ch = take (utf8_len (hd s)) s"
proof -
  have "utf8_codes (map of_char s)" "map (of_char :: char \<Rightarrow> nat) s \<noteq> []" using assms by (auto simp: utf8_def)
  then obtain c r where c: "map of_char s = c @ r" "utf8_char c" "utf8_codes r" by (rule utf8_codes_cases)
  have hd: "hd c = of_char (hd s)" using c(1,2) assms(2) by (cases s; cases c) (auto simp: utf8_char_def)
  then have len: "length c = utf8_len (hd s)" using c(2) by (simp add: utf8_char_def utf8_len_def Let_def)
  let ?ch = "take (length c) s"
  have le: "length c \<le> length s" using c(1) by (metis length_append length_map le_add1)
  have "next_char s = Some ?ch" using assms(2) len by (cases s) (auto simp: next_char_def)
  moreover have "utf8 ?ch"
    using c(1,2) by (auto simp: utf8_def take_map [symmetric] utf8_char_def dest: spec [of _ "[]"])
  moreover have "is_boundary s (length ?ch)"
  proof (cases "r = []")
    case True
    then have "length s = length c" using c(1) by (metis append_Nil2 length_map)
    then show ?thesis by (simp add: is_boundary_def)
  next
    case False
    with c(3) obtain c' r' where "r = c' @ r'" "utf8_char c'" by (rule utf8_codes_cases)
    then have "\<not> cont (map of_char s ! length c)" "length c < length (map (of_char :: char \<Rightarrow> nat) s)"
      using c(1) by (auto simp: utf8_char_def nth_append hd_conv_nth)
    then show ?thesis by (simp add: is_boundary_def)
  qed
  ultimately show ?thesis using len by (intro that) auto
qed

lemma is_boundary_drop: "is_boundary s p \<Longrightarrow> is_boundary (drop p s) k \<Longrightarrow> is_boundary s (p + k)"
  by (auto simp: is_boundary_def)

text \<open>The next character at a boundary: it exists before the end, and the position after it is a boundary.\<close>

lemma next_char_boundary:
  assumes "utf8 s" and "is_boundary s p" and "p < length s"
  obtains ch where "next_char (drop p s) = Some ch" and "utf8 ch" and "is_boundary s (p + length ch)"
    and "ch = take (utf8_len (s ! p)) (drop p s)" and "0 < length ch"
proof -
  have "utf8 (drop p s)" "drop p s \<noteq> []" using utf8_split(2) [OF assms(1,2)] assms(3) by auto
  then obtain ch where ch: "next_char (drop p s) = Some ch" "utf8 ch" "is_boundary (drop p s) (length ch)"
      "ch = take (utf8_len (hd (drop p s))) (drop p s)" by (rule utf8_next_char)
  then show ?thesis using assms(3) is_boundary_drop [OF assms(2) ch(3)] next_char_nonempty [OF ch(1)]
    by (intro that) (auto simp: hd_drop_conv_nth)
qed

definition ascii :: "char \<Rightarrow> bool" where
  "ascii c \<longleftrightarrow> (of_char c :: nat) < 128"

lemma ascii_boundary: "byte_at s p = Some c \<Longrightarrow> ascii c \<Longrightarrow> is_boundary s p"
  by (auto simp: byte_at_Some is_boundary_def ascii_def cont_def)

lemma ascii_boundary_next:
  assumes "utf8 s" and "byte_at s p = Some c" and "ascii c"
  shows "is_boundary s (p + 1)"
proof -
  from assms(2,3) have b: "is_boundary s p" "p < length s" by (auto simp: ascii_boundary byte_at_Some)
  from next_char_boundary [OF assms(1) b] obtain ch where "is_boundary s (p + length ch)"
      "ch = take (utf8_len (s ! p)) (drop p s)" by blast
  moreover have "utf8_len (s ! p) = 1" using assms(2,3) by (simp add: byte_at_Some utf8_len_def ascii_def)
  ultimately show ?thesis using b(2) by simp
qed

lemma utf8_singleton: "ascii c \<Longrightarrow> utf8 [c]"
  by (simp add: utf8_ascii ascii_def)

section \<open>No panic, and spans on boundaries\<close>

definition span_ok :: "string \<Rightarrow> span \<Rightarrow> bool" where
  "span_ok s sp \<longleftrightarrow> span_start sp \<le> span_end sp \<and> is_boundary s (span_start sp) \<and> is_boundary s (span_end sp)"

lemma span_ok_at [simp]: "span_ok s (span_at p) \<longleftrightarrow> is_boundary s p"
  by (simp add: span_ok_def span_at_def)

lemma span_start_at: "span_start (span_at p) = p"
  by (simp add: span_at_def)

lemma pe_span_new [simp]: "pe_span (new_error m sp) = sp"
  by (simp add: new_error_def)

text \<open>What a lexing function may return: a token with valid text and a boundary, or an error at a boundary.\<close>

definition lex_safe :: "string \<Rightarrow> (parse_error, token \<times> nat) res \<Rightarrow> bool" where
  "lex_safe s m \<longleftrightarrow> (case m of
       Ok r \<Rightarrow> utf8 (tk_text (fst r)) \<and> is_boundary s (snd r)
     | Err e \<Rightarrow> span_ok s (pe_span e)
     | Panic \<Rightarrow> False)"

lemma lex_safe_simps [simp]:
  "lex_safe s (Ok r) \<longleftrightarrow> utf8 (tk_text (fst r)) \<and> is_boundary s (snd r)"
  "lex_safe s (Err e) \<longleftrightarrow> span_ok s (pe_span e)"
  "\<not> lex_safe s Panic"
  by (simp_all add: lex_safe_def)

lemma lex_string_loop_safe:
  assumes "utf8 s" and "is_boundary s start" and "is_boundary s pos" and "utf8 acc"
  shows "lex_safe s (lex_string_loop s start acc pos)"
  using assms(3,4)
proof (induction "length s - pos" arbitrary: acc pos rule: less_induct)
  case less
  show ?case
  proof (cases "byte_at s pos")
    case None
    then show ?thesis using assms(2) by (simp add: lex_string_loop.simps [of s start acc pos])
  next
    case (Some c)
    then have pos: "pos < length s" by (simp add: byte_at_Some)
    have go: "lex_safe s (lex_string_loop s start (acc @ ch) q)" if "utf8 ch" "is_boundary s q" "pos < q" for ch q
      using that less.prems(2) pos by (intro less.hyps) (auto intro: utf8_append)
    consider "c = CHR 0x22" | "c = CHR 0x5C" | "c \<noteq> CHR 0x22" "c \<noteq> CHR 0x5C" by blast
    then show ?thesis
    proof cases
      case 1
      with Some less.prems show ?thesis using ascii_boundary_next [OF assms(1) Some]
        by (simp add: lex_string_loop.simps [of s start acc pos] ascii_def)
    next
      case 2
      then have b: "is_boundary s (pos + 1)" using ascii_boundary_next [OF assms(1) Some] by (simp add: ascii_def)
      show ?thesis
      proof (cases "pos + 1 < length s")
        case True
        from next_char_boundary [OF assms(1) b this] obtain ch where ch: "next_char (drop (pos + 1) s) = Some ch"
          "utf8 ch" "is_boundary s (pos + 1 + length ch)" by blast
        with 2 Some b show ?thesis using go [OF ch(2,3)]
          by (simp add: lex_string_loop.simps [of s start acc pos] slice_from_boundary)
      next
        case False
        with 2 Some b assms(2) show ?thesis
          by (simp add: lex_string_loop.simps [of s start acc pos] slice_from_boundary next_char_def)
      qed
    next
      case 3
      from next_char_boundary [OF assms(1) less.prems(1) pos] obtain ch where ch: "next_char (drop pos s) = Some ch"
        "utf8 ch" "is_boundary s (pos + length ch)" "0 < length ch" by blast
      with 3 Some less.prems(1) show ?thesis using go [OF ch(2,3)]
        by (simp add: lex_string_loop.simps [of s start acc pos] slice_from_boundary)
    qed
  qed
qed

definition template_safe :: "string \<Rightarrow> (parse_error, string \<times> nat) res \<Rightarrow> bool" where
  "template_safe s m \<longleftrightarrow> (case m of
       Ok r \<Rightarrow> utf8 (fst r) \<and> is_boundary s (snd r) | Err e \<Rightarrow> span_ok s (pe_span e) | Panic \<Rightarrow> False)"

lemma template_safe_simps [simp]:
  "template_safe s (Ok r) \<longleftrightarrow> utf8 (fst r) \<and> is_boundary s (snd r)"
  "template_safe s (Err e) \<longleftrightarrow> span_ok s (pe_span e)"
  "\<not> template_safe s Panic"
  by (simp_all add: template_safe_def)

text \<open>The nesting depth never drops below zero: the loop stops when it returns there.\<close>

lemma template_loop_safe:
  assumes "utf8 s" and "is_boundary s start" and "is_boundary s pos" and "utf8 acc"
    and "depth = 0 \<Longrightarrow> byte_at s pos = Some (CHR ''<'')"
  shows "template_safe s (template_loop s start depth acc pos)"
  using assms(3-5)
proof (induction "length s - pos" arbitrary: depth acc pos rule: less_induct)
  case less
  note un = template_loop.simps [of s start depth acc pos]
  show ?case
  proof (cases "pos < length s")
    case True
    from next_char_boundary [OF assms(1) less.prems(1) True] obtain t where t: "next_char (drop pos s) = Some t"
      "utf8 t" "is_boundary s (pos + length t)" "t = take (utf8_len (s ! pos)) (drop pos s)" "0 < length t" by blast
    have open_first: "t = ''<''" if "depth = 0"
    proof -
      have "s ! pos = CHR ''<''" using less.prems(3) [OF that] by (simp add: byte_at_Some)
      then show ?thesis using t(4) True by (simp add: utf8_len_def take_Suc_conv_app_nth [of 0, simplified] hd_drop_conv_nth take_Suc hd_conv_nth)
    qed
    have go: "template_safe s (template_loop s start d (acc @ t) (pos + length t))" if "d \<noteq> 0" for d
      using that t True less.prems(2) by (intro less.hyps) (auto intro: utf8_append)
    show ?thesis using t(2,3) less.prems(2) open_first go
      by (auto simp: un slice_from_boundary [OF less.prems(1)] t(1) Let_def intro: utf8_append)
  next
    case False
    then show ?thesis using assms(2) by (simp add: un slice_from_boundary [OF less.prems(1)] next_char_def)
  qed
qed

lemma finish_ident_safe: "utf8 acc \<Longrightarrow> is_boundary s pos \<Longrightarrow> lex_safe s (finish_ident start acc pos)"
  by (simp add: finish_ident_def)

lemma ascii_chars:
  "ascii CHR ''.''" "ascii CHR 0x5C" "ascii CHR ''*''" "ascii CHR ''<''" "ascii CHR ''>''" "ascii CHR ''|''" "ascii CHR ''=''"
  by (simp_all add: ascii_def)

lemma ident_ascii: "is_ident_continue c \<Longrightarrow> ascii c"
  by (auto simp: is_ident_continue_def is_ident_start_def is_ascii_alphabetic_def is_digit_def ascii_def Let_def)

lemma lex_ident_loop_safe:
  assumes "utf8 s" and "is_boundary s start" and "is_boundary s pos" and "utf8 acc" and "0 < pos"
  shows "lex_safe s (lex_ident_loop s start acc pos)"
  using assms(3-5)
proof (induction "length s - pos" arbitrary: acc pos rule: less_induct)
  case less
  note un = lex_ident_loop.simps [of s start acc pos]
  have here: "lex_safe s (finish_ident start acc pos)" by (rule finish_ident_safe [OF less.prems(2,1)])
  show ?case
  proof (cases "byte_at s pos")
    case None
    then show ?thesis using here by (simp add: un)
  next
    case (Some c)
    then have pos: "pos < length s" by (simp add: byte_at_Some)
    have go: "lex_safe s (lex_ident_loop s start (acc @ ch) q)" if "utf8 ch" "is_boundary s q" "pos < q" for ch q
      using that less.prems(2) pos by (intro less.hyps) (auto intro: utf8_append)
    have one: "lex_safe s (lex_ident_loop s start (acc @ [c]) (pos + 1))" if "ascii c"
      using go [OF utf8_singleton [OF that] ascii_boundary_next [OF assms(1) Some that]] by simp
    have dot: "lex_safe s (lex_ident_loop s start (acc @ [CHR 0x5C, CHR ''.'']) (pos + 2))"
      if "byte_at s (pos + 1) = Some (CHR ''.'')"
      using go [of "[CHR 0x5C, CHR ''.'']" "pos + 2"] ascii_boundary_next [OF assms(1) that]
      by (simp add: ascii_def utf8_ascii)
    have esc: "lex_safe s (bind_res (slice_from s (pos + 1)) (\<lambda>rest. case next_char rest of
        None \<Rightarrow> finish_ident start acc (pos + 1) | Some ch \<Rightarrow> lex_ident_loop s start (acc @ ch) (pos + 1 + length ch)))"
      if "ascii c"
    proof -
      have b: "is_boundary s (pos + 1)" by (rule ascii_boundary_next [OF assms(1) Some that])
      show ?thesis
      proof (cases "pos + 1 < length s")
        case True
        from next_char_boundary [OF assms(1) b this] obtain ch where ch: "next_char (drop (pos + 1) s) = Some ch"
          "utf8 ch" "is_boundary s (pos + 1 + length ch)" by blast
        then show ?thesis using go [OF ch(2,3)] b by (simp add: slice_from_boundary)
      next
        case False
        then show ?thesis using finish_ident_safe [OF less.prems(2) b] b by (simp add: slice_from_boundary next_char_def)
      qed
    qed
    have tmpl: "lex_safe s (bind_res (template_loop s start 0 acc pos) (\<lambda>(text', pos'). finish_ident start text' pos'))"
      if "c = CHR ''<''"
      using template_loop_safe [OF assms(1,2) less.prems(1,2), of 0] that Some
      by (cases "template_loop s start 0 acc pos") (auto simp: finish_ident_safe)
    show ?thesis
      using here one dot esc tmpl less.prems(1,3) by (simp add: un Some ident_ascii ascii_chars) (auto simp: ascii_chars)
  qed
qed

lemma lex_ident_safe:
  assumes "utf8 s" and "byte_at s start = Some c" and "is_ident_start c"
  shows "lex_safe s (lex_ident s start)"
proof -
  have c: "c \<noteq> CHR ''.''" "is_ident_continue c" using assms(3)
    by (auto simp: is_ident_start_def is_ascii_alphabetic_def is_ident_continue_def)
  then have "lex_ident s start = lex_ident_loop s start [c] (start + 1)"
    using assms(2) by (simp add: lex_ident_def lex_ident_loop.simps [of s start "[]" start])
  moreover have "ascii c" using c(2) by (rule ident_ascii)
  ultimately show ?thesis
    using lex_ident_loop_safe [OF assms(1) ascii_boundary [OF assms(2)] ascii_boundary_next [OF assms(1,2)], of "[c]"]
    by (simp add: utf8_singleton)
qed

text \<open>A run of ASCII bytes ends on a boundary, and so does every run that stops at an ASCII byte.\<close>

lemma skip_while_boundary:
  assumes "utf8 s" and "\<And>c. P c \<Longrightarrow> ascii c" and "is_boundary s pos"
  shows "is_boundary s (skip_while P s pos)"
  using assms(3)
proof (induction "length s - pos" arbitrary: pos rule: less_induct)
  case less
  show ?case
  proof (cases "pos < length s \<and> P (s ! pos)")
    case True
    then have "is_boundary s (pos + 1)" using assms(1,2) by (intro ascii_boundary_next) (auto simp: byte_at_Some)
    with less.hyps [of "pos + 1"] True show ?thesis by (subst skip_while.simps) auto
  qed (use less.prems in \<open>auto simp: skip_while.simps [of P s pos]\<close>)
qed

lemma skip_while_stop: "pos \<le> length s \<Longrightarrow> skip_while P s pos = length s \<or> \<not> P (s ! skip_while P s pos)"
proof (induction "length s - pos" arbitrary: pos rule: less_induct)
  case less
  show ?case
  proof (cases "pos < length s \<and> P (s ! pos)")
    case True
    then have "skip_while P s pos = skip_while P s (pos + 1)" by (subst skip_while.simps) simp
    moreover have "length s - (pos + 1) < length s - pos" using True by linarith
    ultimately show ?thesis using less.hyps [of "pos + 1"] True by simp
  qed (use less.prems in \<open>auto simp: skip_while.simps [of P s pos]\<close>)
qed

lemma skip_line_boundary:
  assumes "pos \<le> length s"
  shows "is_boundary s (skip_while (\<lambda>c. c \<noteq> CHR 0x0A) s pos)"
proof -
  let ?q = "skip_while (\<lambda>c. c \<noteq> CHR 0x0A) s pos"
  consider "?q = length s" | "?q < length s" "s ! ?q = CHR 0x0A"
    using skip_while_stop [OF assms, of "\<lambda>c. c \<noteq> CHR 0x0A"] skip_while_le [OF assms] by (auto simp: order_le_less)
  then show ?thesis
  proof cases
    case 2
    then show ?thesis by (intro ascii_boundary [of s ?q "CHR 0x0A"]) (auto simp: byte_at_Some ascii_def)
  qed (simp add: is_boundary_def)
qed

lemma lex_number_safe:
  assumes "utf8 s" and c: "byte_at s start = Some c" and "is_digit c \<or> c = CHR ''-''"
  shows "lex_safe s (lex_number s start)"
proof -
  let ?p = "if s ! start = CHR ''-'' then start + 1 else start"
  let ?q = "skip_while is_digit s ?p"
  have asc: "ascii c" using assms(3) by (auto simp: ascii_def is_digit_def)
  then have b: "is_boundary s start" "is_boundary s ?p"
    using ascii_boundary [OF c] ascii_boundary_next [OF assms(1) c] by auto
  have q: "is_boundary s ?q" using assms(1) b(2) by (intro skip_while_boundary) (auto simp: ascii_def is_digit_def)
  have le: "start \<le> ?q" using skip_while_ge [of ?p is_digit s] by (simp split: if_splits)
  have "utf8 (drop start (take ?q s))"
  proof (rule utf8_split(2))
    show "utf8 (take ?q s)" by (rule utf8_split(1) [OF assms(1) q])
    show "is_boundary (take ?q s) start" using b(1) le is_boundary_le [OF q] by (auto simp: is_boundary_def)
  qed
  then have "utf8 (take (?q - start) (drop start s))" by (simp add: drop_take)
  then show ?thesis using b(1) q le is_boundary_le [OF q] by (simp add: lex_number_def Let_def slice_range_def)
qed

lemma punct_safe:
  "utf8 s \<Longrightarrow> byte_at s start = Some c \<Longrightarrow> ascii c \<Longrightarrow> lex_safe s (Ok (punct k start))"
  using ascii_boundary_next [of s start c] by (simp add: punct_def punct_width_def)

lemma wide_punct_safe:
  "utf8 s \<Longrightarrow> byte_at s (start + 1) = Some c \<Longrightarrow> ascii c \<Longrightarrow> lex_safe s (Ok (wide_punct k start))"
  using ascii_boundary_next [of s "start + 1" c] by (simp add: wide_punct_def punct_width_def)

lemma lex_string_safe:
  assumes "utf8 s" and "byte_at s start = Some (CHR 0x22)"
  shows "lex_safe s (lex_string s start)"
  using assms ascii_boundary [OF assms(2)] ascii_boundary_next [OF assms]
  by (simp add: lex_string_def lex_string_loop_safe ascii_def)

lemma lex_token_safe:
  assumes u: "utf8 s" and b: "is_boundary s start" and c: "byte_at s start = Some c"
  shows "lex_safe s (lex_token s start c)"
proof -
  have "start < length s" using c by (simp add: byte_at_Some)
  from next_char_boundary [OF u b this] obtain ch where ch: "next_char (drop start s) = Some ch" by blast
  have one: "lex_safe s (Ok (punct k start))" if "ascii c" for k by (rule punct_safe [OF u c that])
  have wide: "lex_safe s (Ok (wide_punct k start))" if "byte_at s (start + 1) = Some d" "ascii d" for k d
    by (rule wide_punct_safe [OF u that])
  note facts = one wide lex_string_safe [OF u] lex_number_safe [OF u c] lex_ident_safe [OF u c]
  show ?thesis unfolding lex_token_def Let_def
    using b c by (simp add: slice_from_boundary ch facts ascii_def del: lex_safe_simps(1))
qed

lemma block_end_boundary:
  assumes "utf8 s" and "block_end s pos = Some q"
  shows "is_boundary s q"
  using assms(2)
proof (induction "length s - pos" arbitrary: pos rule: less_induct)
  case less
  note un = less.prems [unfolded block_end.simps [of s pos]]
  have dec: "length s - (pos + 1) < length s - pos" if "\<not> length s \<le> pos" using that by linarith
  have stop: "is_boundary s (pos + 2)" if "byte_at s (pos + 1) = Some (CHR ''/'')"
    using ascii_boundary_next [OF assms(1) that] by (simp add: ascii_def)
  show ?case using un less.hyps [OF dec, of] stop by (auto split: if_splits)
qed

lemma skip_trivia_safe:
  assumes "utf8 s" and "is_boundary s pos"
  shows "case skip_trivia s pos of Ok q \<Rightarrow> is_boundary s q | Err e \<Rightarrow> span_ok s (pe_span e) | Panic \<Rightarrow> False"
  using assms
proof (induction s pos rule: skip_trivia.induct)
  case (1 s pos0)
  define pos where "pos = skip_while is_ascii_whitespace s pos0"
  have b: "is_boundary s pos" unfolding pos_def
    by (rule skip_while_boundary [OF 1(3) _ 1(4)]) (auto simp: is_ascii_whitespace_def ascii_def)
  note un = skip_trivia.simps [of s pos0, unfolded Let_def, folded pos_def]
  show ?case
  proof (cases "byte_at s pos = Some (CHR ''/'') \<and> byte_at s (pos + 1) = Some (CHR ''/'')")
    case True
    then show ?thesis using 1(1) [OF pos_def True 1(3) skip_line_boundary] is_boundary_le [OF b] by (simp add: un)
  next
    case False
    show ?thesis
    proof (cases "byte_at s pos = Some (CHR ''/'') \<and> byte_at s (pos + 1) = Some (CHR ''*'')")
      case True
      show ?thesis
      proof (cases "block_end s (pos + 2)")
        case None
        then show ?thesis using True False b by (simp add: un)
      next
        case (Some q)
        then show ?thesis
          using True False 1(2) [OF pos_def False True Some 1(3) block_end_boundary [OF 1(3) Some]] by (simp add: un)
      qed
    next
      case F: False
      then show ?thesis using False b by (auto simp: un)
    qed
  qed
qed

section \<open>The token stream\<close>

text \<open>
  A token stream of \<open>s\<close>: proper tokens whose spans are non-empty pieces of \<open>s\<close> between boundaries, in
  order and without overlap, closed by the end-of-input token.
\<close>

definition proper_token :: "string \<Rightarrow> token \<Rightarrow> bool" where
  "proper_token s t \<longleftrightarrow> tk_kind t \<noteq> Eof \<and> utf8 (tk_text t) \<and> span_ok s (tk_span t) \<and> span_start (tk_span t) < span_end (tk_span t)"

fun ordered_spans :: "nat \<Rightarrow> token list \<Rightarrow> bool" where
  "ordered_spans p [] \<longleftrightarrow> True"
| "ordered_spans p (t # ts) \<longleftrightarrow> p \<le> span_start (tk_span t) \<and> ordered_spans (span_end (tk_span t)) ts"

lemma ordered_spans_snoc:
  "ordered_spans p (ts @ [t]) \<longleftrightarrow> ordered_spans p ts \<and> (if ts = [] then p else span_end (tk_span (last ts))) \<le> span_start (tk_span t)"
  by (induction ts arbitrary: p) auto

definition token_stream :: "string \<Rightarrow> token list \<Rightarrow> bool" where
  "token_stream s ts \<longleftrightarrow>
     (\<exists>us e. ts = us @ [e] \<and> (\<forall>t \<in> set us. proper_token s t) \<and> tk_kind e = Eof \<and> utf8 (tk_text e) \<and> span_ok s (tk_span e))
     \<and> ordered_spans 0 ts"

lemma lex_loop_safe:
  assumes "utf8 s" and "is_boundary s pos" and "\<forall>t \<in> set us. proper_token s t" and "ordered_spans 0 us"
    and "us \<noteq> [] \<Longrightarrow> span_end (tk_span (last us)) \<le> pos"
  shows "case lex_loop s us pos of Ok ts \<Rightarrow> token_stream s ts | Err e \<Rightarrow> span_ok s (pe_span e) | Panic \<Rightarrow> False"
  using assms(2-5)
proof (induction "length s - pos" arbitrary: pos us rule: less_induct)
  case less
  note triv = skip_trivia_safe [OF assms(1) less.prems(1)]
  note un = lex_loop.simps [of s us pos]
  show ?case
  proof (cases "skip_trivia s pos")
    case (Ok p)
    then have p: "pos \<le> p" "is_boundary s p" using triv skip_trivia_le by auto
    have ends: "ordered_spans 0 (us @ [t])" if "span_start (tk_span t) = p" for t
      using that less.prems(3,4) p(1) by (auto simp: ordered_spans_snoc)
    show ?thesis
    proof (cases "byte_at s p")
      case None
      have "token_stream s (us @ [eof_token p])" unfolding token_stream_def
        using less.prems(2) p(2) ends [of "eof_token p"] by (auto simp: eof_token_def span_start_at)
      then show ?thesis by (simp add: un Ok None)
    next
      case (Some c)
      have safe: "lex_safe s (lex_token s p c)" by (rule lex_token_safe [OF assms(1) p(2) Some])
      show ?thesis
      proof (cases "lex_token s p c")
        case r: (Ok r)
        obtain t q where tq: "r = (t, q)" by (cases r)
        have tk: "token_at s p (t, q)" using lex_token_token [OF r Some] tq by simp
        have "proper_token s t" using tk safe r tq p(2) by (auto simp: token_at_def proper_token_def span_ok_def)
        moreover have "length s - q < length s - pos" "is_boundary s q" using tk safe r tq p(1) by (auto simp: token_at_def)
        ultimately show ?thesis
          using less.hyps [of q "us @ [t]"] less.prems(2) ends [of t] tk by (auto simp: un Ok Some r tq token_at_def)
      qed (use safe in \<open>auto simp: un Ok Some\<close>)
    qed
  qed (use triv in \<open>auto simp: un\<close>)
qed

lemma lex_safe_all:
  "utf8 s \<Longrightarrow> case lex s of Ok ts \<Rightarrow> token_stream s ts | Err e \<Rightarrow> span_ok s (pe_span e) | Panic \<Rightarrow> False"
  using lex_loop_safe [of s 0 "[]"] by (simp add: lex_def is_boundary_def)

end
