(* ===== verification/Flecs_Parser.thy ===== *)
theory Flecs_Parser
  imports Flecs_Lexing
begin

text \<open>
  The syntax tree (\<^verbatim>\<open>ast.rs\<close>) and the recursive-descent parser (\<^verbatim>\<open>parser.rs\<close>) of
  \<^verbatim>\<open>packages/flecs-query/core\<close>. A method of \<^verbatim>\<open>Parser\<close> is a function from the parser state to its
  result and the state after it. The recursion of term lists through scopes runs on fuel, one unit
  per term; running out of fuel is a panic, and the number of tokens is shown to be enough.
\<close>

section \<open>The syntax tree\<close>

datatype oper = OAnd | OOr | ONot | OOptional | OAndFrom | OOrFrom | ONotFrom

datatype access = AccDefault | AccIn | AccOut | AccInOut | AccNone | AccFilter

datatype extra_oper = XAnd | XOr

datatype id_flag = AutoOverride | Toggle

datatype ref_expr =
    Name string | This | Var string | Wildcard | AnyRef | Entity u64 | Value ref_expr | Implied

record traversal =
  tv_self :: bool
  tv_up :: bool
  tv_cascade :: bool
  tv_desc :: bool
  tv_rel :: "string option"

definition default_traversal :: traversal where
  "default_traversal = \<lparr>tv_self = False, tv_up = False, tv_cascade = False, tv_desc = False, tv_rel = None\<rparr>"

definition traversal_is_empty :: "traversal \<Rightarrow> bool" where
  "traversal_is_empty t \<longleftrightarrow> \<not> tv_self t \<and> \<not> tv_up t \<and> \<not> tv_cascade t \<and> \<not> tv_desc t \<and> tv_rel t = None"

record reference =
  rf_expr :: ref_expr
  rf_traversal :: "traversal option"

definition plain :: "ref_expr \<Rightarrow> reference" where
  "plain e = \<lparr>rf_expr = e, rf_traversal = None\<rparr>"

datatype src = Implicit | EmptySrc | Explicit reference

record id_term =
  id_flag :: "id_flag option"
  id_first :: reference
  id_src :: src
  id_second :: "reference option"
  id_extra :: "reference list"
  id_extra_oper :: extra_oper

definition component :: "reference \<Rightarrow> id_term" where
  "component first =
     \<lparr>id_flag = None, id_first = first, id_src = Implicit, id_second = None, id_extra = [], id_extra_oper = XAnd\<rparr>"

datatype eq_op = EqualOp | MatchOp

datatype eq_operand = RefOperand ref_expr | NameOperand string

record eq_term =
  eq_left :: ref_expr
  eq_kind :: eq_op
  eq_right :: eq_operand

datatype qterm = QTerm (t_access: "access option") (t_oper: oper) (t_body: term_body)
  and term_body = IdBody id_term | EqBody eq_term | ScopeBody "qterm list"

record flecs_query =
  q_terms :: "qterm list"

section \<open>Parser state\<close>

datatype scope_context = TopLevel | Scope

record parser =
  ps_tokens :: "token list"
  ps_index :: nat
  ps_scope_depth :: nat

definition TERM_ARG_COUNT_MAX :: nat where "TERM_ARG_COUNT_MAX = 16"

definition SCOPE_DEPTH_MAX :: nat where "SCOPE_DEPTH_MAX = 64"

type_synonym 'a parse_action = "parser \<Rightarrow> (parse_error, 'a \<times> parser) res"

definition ret :: "'a \<Rightarrow> 'a parse_action" where
  "ret a p = Ok (a, p)"

definition fail_with :: "parse_error \<Rightarrow> 'a parse_action" where
  "fail_with e p = Err e"

definition bind_p :: "'a parse_action \<Rightarrow> ('a \<Rightarrow> 'b parse_action) \<Rightarrow> 'b parse_action" where
  "bind_p m f p = bind_res (m p) (\<lambda>(a, p'). f a p')"

definition lift_p :: "(parse_error, 'a) res \<Rightarrow> 'a parse_action" where
  "lift_p m p = bind_res m (\<lambda>a. Ok (a, p))"

definition peek :: "token parse_action" where
  "peek p = bind_res (index_slice (ps_tokens p) (ps_index p)) (\<lambda>t. Ok (t, p))"

definition bump :: "token parse_action" where
  "bump p = bind_res (index_slice (ps_tokens p) (ps_index p)) (\<lambda>t.
     Ok (t, if ps_index p + 1 < length (ps_tokens p) then p\<lparr>ps_index := ps_index p + 1\<rparr> else p))"

definition unexpected :: "token \<Rightarrow> string \<Rightarrow> (parse_error, 'a) res" where
  "unexpected t expected =
     (let found = (if tk_kind t = Ident \<or> tk_kind t = Number
                   then describe (tk_kind t) @ '' '' @ [CHR 0x27] @ tk_text t @ [CHR 0x27]
                   else describe (tk_kind t))
      in Err (new_error (''expected '' @ expected @ '', found '' @ found) (tk_span t)))"

definition expect :: "token_kind \<Rightarrow> string \<Rightarrow> token parse_action" where
  "expect kind expected =
     bind_p bump (\<lambda>t. if tk_kind t = kind then ret t else lift_p (unexpected t expected))"

section \<open>References\<close>

text \<open>\<^verbatim>\<open>str::parse::<u64>\<close>: an optional plus sign, at least one digit, and no overflow.\<close>

definition parse_u64 :: "string \<Rightarrow> u64 option" where
  "parse_u64 s =
     (let ds = (case s of c # r \<Rightarrow> if c = CHR ''+'' then r else s | [] \<Rightarrow> s)
      in if ds \<noteq> [] \<and> list_all is_digit ds \<and> nat_of_digits ds < 2 ^ 64 then Some (word_of_nat (nat_of_digits ds)) else None)"

definition entity_id :: "string \<Rightarrow> span \<Rightarrow> (parse_error, ref_expr) res" where
  "entity_id digits sp = (case parse_u64 digits of
       Some n \<Rightarrow> Ok (Entity n)
     | None \<Rightarrow> Err (new_error (''invalid entity id '' @ [CHR 0x27] @ digits @ [CHR 0x27]) sp))"

definition classify :: "token \<Rightarrow> (parse_error, ref_expr) res" where
  "classify t = (case tk_kind t of
       Star \<Rightarrow> Ok Wildcard
     | Number \<Rightarrow> entity_id (tk_text t) (tk_span t)
     | Ident \<Rightarrow>
         if tk_text t = ''$this'' then Ok This
         else if tk_text t = ''_'' then Ok AnyRef
         else (case byte_at (tk_text t) 0 of
             Some c \<Rightarrow>
               if c = CHR ''$'' then bind_res (slice_from (tk_text t) 1) (\<lambda>name. Ok (Var name))
               else if c = CHR 0x23 then bind_res (slice_from (tk_text t) 1) (\<lambda>digits. entity_id digits (tk_span t))
               else Ok (Name (tk_text t))
           | None \<Rightarrow> Ok (Name (tk_text t)))
     | _ \<Rightarrow> Err (new_error ''expected identifier'' (tk_span t)))"

definition is_traversal_flag :: "string \<Rightarrow> bool" where
  "is_traversal_flag w \<longleftrightarrow> w = ''self'' \<or> w = ''up'' \<or> w = ''cascade'' \<or> w = ''desc''"

definition parse_ref_expr :: "ref_expr parse_action" where
  "parse_ref_expr = bind_p bump (\<lambda>t. lift_p (classify t))"

definition is_ref_kind :: "token_kind \<Rightarrow> bool" where
  "is_ref_kind k \<longleftrightarrow> k = Ident \<or> k = Number \<or> k = Star"

definition set_traversal_flag :: "traversal \<Rightarrow> token \<Rightarrow> (parse_error, traversal) res" where
  "set_traversal_flag t word =
     (if tk_text word = ''self'' then Ok (t\<lparr>tv_self := True\<rparr>)
      else if tk_text word = ''up'' then Ok (t\<lparr>tv_up := True\<rparr>)
      else if tk_text word = ''cascade'' then Ok (t\<lparr>tv_cascade := True\<rparr>)
      else if tk_text word = ''desc'' then Ok (t\<lparr>tv_desc := True\<rparr>)
      else Err (new_error (''expected traversal flag, found '' @ [CHR 0x27] @ tk_text word @ [CHR 0x27]) (tk_span word)))"

lemma peek_Ok: "peek p = Ok (t, q) \<longleftrightarrow> ps_index p < length (ps_tokens p) \<and> t = ps_tokens p ! ps_index p \<and> q = p"
  by (auto simp: peek_def index_slice_def)

lemma bump_Ok: "bump p = Ok (t, q) \<longleftrightarrow> ps_index p < length (ps_tokens p) \<and> t = ps_tokens p ! ps_index p
    \<and> q = (if ps_index p + 1 < length (ps_tokens p) then p\<lparr>ps_index := ps_index p + 1\<rparr> else p)"
  by (auto simp: bump_def index_slice_def)

lemma expect_Ok: "expect k m p = Ok (t, q) \<longleftrightarrow> bump p = Ok (t, q) \<and> tk_kind t = k"
  by (auto simp: expect_def bind_p_def lift_p_def unexpected_def ret_def Let_def res_simps split: if_splits)

function traversal_loop :: "traversal \<Rightarrow> traversal parse_action" where
  "traversal_loop t p =
     bind_res (expect Ident ''traversal flag'' p) (\<lambda>(word, p1).
       bind_res (set_traversal_flag t word) (\<lambda>t'.
         bind_res (peek p1) (\<lambda>(nxt, _).
           if tk_kind nxt = Pipe then bind_res (bump p1) (\<lambda>(_, p2). traversal_loop t' p2)
           else if tk_kind nxt = Ident \<and> \<not> is_traversal_flag (tk_text nxt) then
             bind_res (bump p1) (\<lambda>(rel, p2). Ok (t'\<lparr>tv_rel := Some (tk_text rel)\<rparr>, p2))
           else Ok (t', p1))))"
  by pat_completeness auto

termination
  by (relation "measure (\<lambda>(t, p). length (ps_tokens p) - ps_index p)")
    (auto simp: expect_Ok bump_Ok peek_Ok split: if_splits)

declare traversal_loop.simps [simp del]

definition parse_traversal :: "traversal parse_action" where
  "parse_traversal = traversal_loop default_traversal"

text \<open>The optional \<^verbatim>\<open>|\<close> and traversal flags after an operand.\<close>

definition opt_traversal :: "traversal option parse_action" where
  "opt_traversal = bind_p peek (\<lambda>t.
     if tk_kind t = Pipe then bind_p bump (\<lambda>_. bind_p parse_traversal (\<lambda>tv. ret (Some tv))) else ret None)"

definition arg_ref :: "reference parse_action" where
  "arg_ref = bind_p peek (\<lambda>t.
     if tk_kind t = Ident \<and> is_traversal_flag (tk_text t) then
       bind_p parse_traversal (\<lambda>tv. ret \<lparr>rf_expr = Implied, rf_traversal = Some tv\<rparr>)
     else if tk_kind t = At then
       bind_p bump (\<lambda>_. bind_p bump (\<lambda>inner.
         if is_ref_kind (tk_kind inner)
         then bind_p (lift_p (classify inner)) (\<lambda>e. ret (plain (Value e)))
         else lift_p (unexpected inner ''identifier'')))
     else if is_ref_kind (tk_kind t) then
       bind_p bump (\<lambda>_. bind_p (lift_p (classify t)) (\<lambda>e. bind_p opt_traversal (\<lambda>tv.
         ret \<lparr>rf_expr = e, rf_traversal = tv\<rparr>)))
     else lift_p (unexpected t ''identifier''))"

section \<open>Arguments and bodies\<close>

definition store_arg :: "nat \<Rightarrow> reference \<Rightarrow> id_term \<Rightarrow> id_term" where
  "store_arg index r i =
     (if index = 0 then i\<lparr>id_src := Explicit r\<rparr>
      else if index = 1 then i\<lparr>id_second := Some r\<rparr>
      else i\<lparr>id_extra := id_extra i @ [r]\<rparr>)"

function arg_list :: "id_term \<Rightarrow> nat \<Rightarrow> id_term parse_action" where
  "arg_list i index p =
     (if TERM_ARG_COUNT_MAX < index then
        bind_res (peek p) (\<lambda>(t, _). Err (new_error ''too many arguments in term'' (tk_span t)))
      else
        bind_res (arg_ref p) (\<lambda>(r, p1).
          let i1 = store_arg index r i in
          bind_res (bump p1) (\<lambda>(separator, p2).
            if tk_kind separator = RParen then Ok (i1, p2)
            else if tk_kind separator \<noteq> Comma \<and> tk_kind separator \<noteq> OrOr
            then unexpected separator ([CHR 0x27] @ '','' @ [CHR 0x27] @ '' or '' @ [CHR 0x27] @ '')'' @ [CHR 0x27])
            else
              let oper = (if tk_kind separator = Comma then XAnd else XOr) in
              if 1 < index \<and> id_extra_oper i1 \<noteq> oper
              then Err (new_error ''cannot mix operators in extra term arguments'' (tk_span separator))
              else arg_list (i1\<lparr>id_extra_oper := oper\<rparr>) (index + 1) p2)))"
  by pat_completeness auto

termination
  by (relation "measure (\<lambda>(i, index, p). TERM_ARG_COUNT_MAX + 1 - index)") auto

declare arg_list.simps [simp del]

definition args :: "reference \<Rightarrow> term_body parse_action" where
  "args first = bind_p peek (\<lambda>t.
     if tk_kind t = RParen then bind_p bump (\<lambda>_. ret (IdBody ((component first)\<lparr>id_src := EmptySrc\<rparr>)))
     else bind_p (arg_list (component first) 0) (\<lambda>i. ret (IdBody i)))"

definition pair_body :: "term_body parse_action" where
  "pair_body = bind_p bump (\<lambda>t.
     if is_ref_kind (tk_kind t) then
       bind_p (lift_p (classify t)) (\<lambda>first. bind_p opt_traversal (\<lambda>tv.
         bind_p (expect Comma ([CHR 0x27] @ '','' @ [CHR 0x27])) (\<lambda>_.
           bind_p (arg_list (component \<lparr>rf_expr = first, rf_traversal = tv\<rparr>) 1) (\<lambda>i. ret (IdBody i)))))
     else lift_p (unexpected t ''identifier''))"

text \<open>The operator is a mutable argument of the code: these methods return it with the body.\<close>

definition eq_body :: "ref_expr \<Rightarrow> eq_op \<Rightarrow> bool \<Rightarrow> oper \<Rightarrow> (term_body \<times> oper) parse_action" where
  "eq_body left op negate oper =
     (if oper \<noteq> OAnd then
        bind_p peek (\<lambda>t. fail_with (new_error ''cannot mix operator with equality expression'' (tk_span t)))
      else
        bind_p bump (\<lambda>t.
          let finish = (\<lambda>(right, neg). ret (EqBody \<lparr>eq_left = left, eq_kind = op, eq_right = right\<rparr>, if neg then ONot else oper)) in
          if is_ref_kind (tk_kind t) then bind_p (lift_p (classify t)) (\<lambda>e. finish (RefOperand e, negate))
          else if tk_kind t = Str \<and> op = MatchOp then
            (case tk_text t of
               c # stripped \<Rightarrow> if c = CHR ''!'' then finish (NameOperand stripped, True) else finish (NameOperand (tk_text t), negate)
             | [] \<Rightarrow> finish (NameOperand (tk_text t), negate))
          else if tk_kind t = Str then finish (NameOperand (tk_text t), negate)
          else lift_p (unexpected t ''identifier or string'')))"

definition id_body :: "ref_expr \<Rightarrow> oper \<Rightarrow> (term_body \<times> oper) parse_action" where
  "id_body first oper = bind_p peek (\<lambda>t.
     if tk_kind t = EqEq then bind_p bump (\<lambda>_. eq_body first EqualOp False oper)
     else if tk_kind t = Neq then bind_p bump (\<lambda>_. eq_body first EqualOp True oper)
     else if tk_kind t = TMatch then bind_p bump (\<lambda>_. eq_body first MatchOp False oper)
     else if tk_kind t = Pipe then
       bind_p bump (\<lambda>_. bind_p parse_traversal (\<lambda>tv.
         let r = \<lparr>rf_expr = first, rf_traversal = Some tv\<rparr> in
         bind_p peek (\<lambda>t2.
           if tk_kind t2 = LParen then bind_p bump (\<lambda>_. bind_p (args r) (\<lambda>b. ret (b, oper)))
           else ret (IdBody (component r), oper))))
     else if tk_kind t = LParen then bind_p bump (\<lambda>_. bind_p (args (plain first)) (\<lambda>b. ret (b, oper)))
     else ret (IdBody (component (plain first)), oper))"

section \<open>Terms\<close>

datatype keyword_prefix = KOper oper | KFlag id_flag

definition keyword_of :: "string \<Rightarrow> keyword_prefix option" where
  "keyword_of w =
     (if w = ''and'' then Some (KOper OAndFrom)
      else if w = ''or'' then Some (KOper OOrFrom)
      else if w = ''not'' then Some (KOper ONotFrom)
      else if w = ''auto_override'' then Some (KFlag AutoOverride)
      else if w = ''toggle'' then Some (KFlag Toggle)
      else None)"

definition keyword :: "keyword_prefix option parse_action" where
  "keyword = bind_p peek (\<lambda>word.
     if tk_kind word \<noteq> Ident then ret None
     else (case keyword_of (tk_text word) of
         None \<Rightarrow> ret None
       | Some k \<Rightarrow> bind_p bump (\<lambda>_. bind_p (expect Pipe ([CHR 0x27] @ ''|'' @ [CHR 0x27])) (\<lambda>_. ret (Some k)))))"

definition keyword_operand :: "id_flag option \<Rightarrow> oper \<Rightarrow> (term_body \<times> oper) parse_action" where
  "keyword_operand flag oper = bind_p peek (\<lambda>t.
     bind_p (if tk_kind t = LParen then bind_p bump (\<lambda>_. bind_p pair_body (\<lambda>b. ret (b, oper)))
             else bind_p parse_ref_expr (\<lambda>first. id_body first oper))
       (\<lambda>(body, oper'). ret (case body of IdBody i \<Rightarrow> IdBody (i\<lparr>id_flag := flag\<rparr>) | _ \<Rightarrow> body, oper')))"

definition access_of :: "string \<Rightarrow> access option" where
  "access_of w =
     (if w = ''default'' then Some AccDefault
      else if w = ''in'' then Some AccIn
      else if w = ''out'' then Some AccOut
      else if w = ''inout'' then Some AccInOut
      else if w = ''none'' then Some AccNone
      else if w = ''filter'' then Some AccFilter
      else None)"

definition parse_access :: "access option parse_action" where
  "parse_access = bind_p peek (\<lambda>t.
     if tk_kind t \<noteq> LBracket then ret None
     else bind_p bump (\<lambda>_. bind_p (expect Ident ''access modifier'') (\<lambda>word.
       case access_of (tk_text word) of
         None \<Rightarrow> fail_with (new_error (''invalid access modifier '' @ [CHR 0x27] @ tk_text word @ [CHR 0x27]) (tk_span word))
       | Some a \<Rightarrow> bind_p (expect RBracket ([CHR 0x27] @ '']'' @ [CHR 0x27])) (\<lambda>_. ret (Some a)))))"

text \<open>\<^verbatim>\<open>Parser::term\<close>; the argument is the call \<^verbatim>\<open>self.terms(ScopeContext::Scope)\<close>.\<close>

definition scope_body :: "qterm list parse_action \<Rightarrow> term_body parse_action" where
  "scope_body scope_terms = bind_p bump (\<lambda>brace. \<lambda>p.
     let p1 = p\<lparr>ps_scope_depth := ps_scope_depth p + 1\<rparr> in
     if SCOPE_DEPTH_MAX < ps_scope_depth p1
     then Err (new_error (''scopes nested deeper than '' @ show_nat SCOPE_DEPTH_MAX) (tk_span brace))
     else bind_res (scope_terms p1) (\<lambda>(inner, p2).
       if ps_scope_depth p2 = 0 then Panic else Ok (ScopeBody inner, p2\<lparr>ps_scope_depth := ps_scope_depth p2 - 1\<rparr>)))"

definition prefix_oper :: "oper parse_action" where
  "prefix_oper = bind_p peek (\<lambda>t.
     if tk_kind t = Bang then bind_p bump (\<lambda>_. ret ONot)
     else if tk_kind t = Question then bind_p bump (\<lambda>_. ret OOptional)
     else ret OAnd)"

definition parse_term :: "qterm list parse_action \<Rightarrow> qterm parse_action" where
  "parse_term scope_terms =
     bind_p parse_access (\<lambda>acc. bind_p prefix_oper (\<lambda>oper. bind_p peek (\<lambda>t.
       bind_p
         (if tk_kind t = LBrace \<and> acc = None then bind_p (scope_body scope_terms) (\<lambda>b. ret (b, oper))
          else if tk_kind t = LParen then bind_p bump (\<lambda>_. bind_p pair_body (\<lambda>b. ret (b, oper)))
          else if is_ref_kind (tk_kind t) then
            bind_p (if oper \<noteq> OAnd then ret None else keyword) (\<lambda>k.
              case k of
                Some (KOper o') \<Rightarrow> keyword_operand None o'
              | Some (KFlag f) \<Rightarrow> keyword_operand (Some f) oper
              | None \<Rightarrow> bind_p parse_ref_expr (\<lambda>first. id_body first oper))
          else lift_p (unexpected t ''term''))
         (\<lambda>(body, oper'). ret (QTerm acc oper' body)))))"

fun set_last_oper :: "oper \<Rightarrow> qterm list \<Rightarrow> qterm list" where
  "set_last_oper oper [] = []"
| "set_last_oper oper [QTerm a _ b] = [QTerm a oper b]"
| "set_last_oper oper (t # ts) = t # set_last_oper oper ts"

text \<open>The separator after a term: what the rest of the loop body does with the terms so far.\<close>

definition separator :: "qterm list \<Rightarrow> qterm list parse_action" where
  "separator ts = bind_p peek (\<lambda>t.
     if tk_kind t = Comma then bind_p bump (\<lambda>_. ret ts)
     else if tk_kind t = OrOr then
       bind_p bump (\<lambda>or_token.
         if ts = [] then (\<lambda>_. Panic)
         else if t_oper (last ts) \<noteq> OAnd
         then fail_with (new_error ''cannot mix operators in || expression'' (tk_span or_token))
         else bind_p peek (\<lambda>t2.
           if tk_kind t2 = Eof \<or> tk_kind t2 = RBrace
           then fail_with (new_error (''expected term after '' @ [CHR 0x27] @ ''||'' @ [CHR 0x27]) (tk_span or_token))
           else ret (set_last_oper OOr ts)))
     else if tk_kind t = Eof \<or> tk_kind t = RBrace then ret ts
     else lift_p (unexpected t ([CHR 0x27] @ '','' @ [CHR 0x27] @ '' or end of expression'')))"

fun terms_loop :: "nat \<Rightarrow> scope_context \<Rightarrow> qterm list \<Rightarrow> qterm list parse_action" where
  "terms_loop 0 ctx ts p = Panic"
| "terms_loop (Suc fuel) ctx ts p =
     bind_p peek (\<lambda>t.
       if tk_kind t = Eof then
         (if ctx = Scope then lift_p (unexpected t ([CHR 0x27] @ ''}'' @ [CHR 0x27])) else ret ts)
       else if tk_kind t = RBrace \<and> ctx = Scope then bind_p bump (\<lambda>_. ret ts)
       else
         bind_p (parse_term (\<lambda>q. terms_loop fuel Scope [] q)) (\<lambda>new.
           bind_p (separator (ts @ [new])) (\<lambda>ts'. \<lambda>q. terms_loop fuel ctx ts' q))) p"

definition parse :: "string \<Rightarrow> (parse_error, flecs_query) res" where
  "parse s =
     (if s = ''0'' then Ok \<lparr>q_terms = []\<rparr>
      else bind_res (lex s) (\<lambda>tokens.
        bind_res (terms_loop (length tokens) TopLevel [] \<lparr>ps_tokens = tokens, ps_index = 0, ps_scope_depth = 0\<rparr>)
          (\<lambda>(ts, _). Ok \<lparr>q_terms = ts\<rparr>)))"

end
