(* ===== verification/Flecs_Parsing.thy ===== *)
theory Flecs_Parsing
  imports Flecs_Parser
begin

text \<open>
  What the parser guarantees on a token stream, by a weakest-precondition calculus over its methods:
  no panic, errors on character boundaries, progress, and trees of the grammar (\<open>wf_terms\<close>).
\<close>

section \<open>Weakest preconditions\<close>

named_theorems wp_simps \<open>weakest preconditions of the parser's methods\<close>

definition wp :: "string \<Rightarrow> 'a parse_action \<Rightarrow> parser \<Rightarrow> ('a \<Rightarrow> parser \<Rightarrow> bool) \<Rightarrow> bool" where
  "wp s m p Q \<longleftrightarrow> (case m p of Ok r \<Rightarrow> Q (fst r) (snd r) | Err e \<Rightarrow> span_ok s (pe_span e) | Panic \<Rightarrow> False)"

lemma wp_ret [wp_simps]: "wp s (ret a) p Q \<longleftrightarrow> Q a p"
  by (simp add: wp_def ret_def)

lemma wp_fail [wp_simps]: "wp s (fail_with e) p Q \<longleftrightarrow> span_ok s (pe_span e)"
  by (simp add: wp_def fail_with_def)

lemma wp_bind [wp_simps]: "wp s (bind_p m f) p Q \<longleftrightarrow> wp s m p (\<lambda>a p'. wp s (f a) p' Q)"
  by (cases "m p") (auto simp: wp_def bind_p_def split: prod.splits)

lemma wp_mono: "wp s m p Q \<Longrightarrow> (\<And>a p'. Q a p' \<Longrightarrow> R a p') \<Longrightarrow> wp s m p R"
  by (auto simp: wp_def split: res.splits)

lemma wp_if [wp_simps]: "wp s (if b then m else n) p Q \<longleftrightarrow> (if b then wp s m p Q else wp s n p Q)"
  by simp

lemma wp_unexpected [wp_simps]: "wp s (lift_p (unexpected t m)) p Q \<longleftrightarrow> span_ok s (tk_span t)"
  by (simp add: wp_def lift_p_def unexpected_def Let_def)

text \<open>The states of a run on the tokens of \<open>s\<close>, the token at the cursor, and the tokens left before the end.\<close>

definition valid :: "string \<Rightarrow> parser \<Rightarrow> bool" where
  "valid s p \<longleftrightarrow> token_stream s (ps_tokens p) \<and> ps_index p < length (ps_tokens p)"

definition cur :: "parser \<Rightarrow> token" where
  "cur p = ps_tokens p ! ps_index p"

definition advance :: "parser \<Rightarrow> parser" where
  "advance p = (if ps_index p + 1 < length (ps_tokens p) then p\<lparr>ps_index := ps_index p + 1\<rparr> else p)"

definition left :: "parser \<Rightarrow> nat" where
  "left p = length (ps_tokens p) - 1 - ps_index p"

lemma wp_peek [wp_simps]: "valid s p \<Longrightarrow> wp s peek p Q \<longleftrightarrow> Q (cur p) p"
  by (simp add: wp_def peek_def index_slice_def valid_def cur_def)

lemma wp_bump [wp_simps]: "valid s p \<Longrightarrow> wp s bump p Q \<longleftrightarrow> Q (cur p) (advance p)"
  by (simp add: wp_def bump_def index_slice_def valid_def cur_def advance_def)

lemma valid_cur:
  assumes "valid s p"
  shows "span_ok s (tk_span (cur p))" and "utf8 (tk_text (cur p))" and "tk_kind (cur p) = Eof \<longleftrightarrow> left p = 0"
proof -
  from assms obtain us e where ts: "ps_tokens p = us @ [e]" "\<forall>t \<in> set us. proper_token s t" "tk_kind e = Eof"
      "utf8 (tk_text e)" "span_ok s (tk_span e)" "ps_index p < Suc (length us)"
    by (auto simp: valid_def token_stream_def)
  show "span_ok s (tk_span (cur p))" "utf8 (tk_text (cur p))" "tk_kind (cur p) = Eof \<longleftrightarrow> left p = 0"
    using ts by (auto simp: cur_def left_def nth_append proper_token_def)
qed

lemma valid_advance [simp]: "valid s p \<Longrightarrow> valid s (advance p)"
  by (simp add: valid_def advance_def)

lemma advance_simps [simp]:
  "ps_scope_depth (advance p) = ps_scope_depth p" "left (advance p) = left p - 1"
  by (auto simp: advance_def left_def)

lemma wp_expect [wp_simps]:
  "valid s p \<Longrightarrow> wp s (expect k m) p Q \<longleftrightarrow> (tk_kind (cur p) = k \<longrightarrow> Q (cur p) (advance p))"
  by (auto simp: expect_def wp_simps valid_cur)

text \<open>Progress between two states of a run.\<close>

definition follows :: "string \<Rightarrow> parser \<Rightarrow> parser \<Rightarrow> bool" where
  "follows s p q \<longleftrightarrow> valid s q \<and> left q \<le> left p \<and> ps_scope_depth q = ps_scope_depth p"

lemma follows_refl: "valid s p \<Longrightarrow> follows s p p"
  by (simp add: follows_def)

lemma follows_advance: "valid s p \<Longrightarrow> follows s p (advance p)"
  by (simp add: follows_def)

lemma follows_trans: "follows s p q \<Longrightarrow> follows s q r \<Longrightarrow> follows s p r"
  by (auto simp: follows_def)

lemma follows_valid: "follows s p q \<Longrightarrow> valid s q"
  by (simp add: follows_def)

section \<open>Trees of the grammar\<close>

text \<open>An operand read from one token.\<close>

fun operand :: "ref_expr \<Rightarrow> bool" where
  "operand (Value _) = False"
| "operand Implied = False"
| "operand _ = True"

definition wf_traversal :: "traversal \<Rightarrow> bool" where
  "wf_traversal t \<longleftrightarrow> tv_self t \<or> tv_up t \<or> tv_cascade t \<or> tv_desc t"

definition wf_traversal_opt :: "traversal option \<Rightarrow> bool" where
  "wf_traversal_opt o' \<longleftrightarrow> (case o' of None \<Rightarrow> True | Some t \<Rightarrow> wf_traversal t)"

definition wf_first :: "reference \<Rightarrow> bool" where
  "wf_first r \<longleftrightarrow> operand (rf_expr r) \<and> wf_traversal_opt (rf_traversal r)"

definition wf_arg :: "reference \<Rightarrow> bool" where
  "wf_arg r \<longleftrightarrow> wf_traversal_opt (rf_traversal r) \<and>
     (case rf_expr r of
        Implied \<Rightarrow> rf_traversal r \<noteq> None
      | Value e \<Rightarrow> operand e \<and> rf_traversal r = None
      | _ \<Rightarrow> True)"

definition wf_id :: "id_term \<Rightarrow> bool" where
  "wf_id i \<longleftrightarrow> wf_first (id_first i)
     \<and> (\<forall>r. id_src i = Explicit r \<longrightarrow> wf_arg r)
     \<and> (\<forall>r. id_second i = Some r \<longrightarrow> wf_arg r)
     \<and> (\<forall>r \<in> set (id_extra i). wf_arg r)
     \<and> (id_src i = EmptySrc \<longrightarrow> id_second i = None)
     \<and> (id_second i = None \<longrightarrow> id_extra i = [])
     \<and> length (id_extra i) < TERM_ARG_COUNT_MAX"

definition wf_eq :: "oper \<Rightarrow> eq_term \<Rightarrow> bool" where
  "wf_eq oper e \<longleftrightarrow> oper \<in> {OAnd, OOr, ONot} \<and> operand (eq_left e)
     \<and> (case eq_right e of RefOperand r \<Rightarrow> operand r \<and> (oper = ONot \<longrightarrow> eq_kind e = EqualOp) | NameOperand _ \<Rightarrow> True)"

text \<open>
  A scope is never the operand of an access modifier or a keyword; scopes nest at most \<open>d\<close> deep; an id
  flag appears only on a term without another operator; the last term of a list is not chained by \<open>||\<close>.
\<close>

fun wf_term :: "nat \<Rightarrow> qterm \<Rightarrow> bool" where
  "wf_term d (QTerm acc oper (IdBody i)) \<longleftrightarrow> wf_id i \<and> (id_flag i \<noteq> None \<longrightarrow> oper \<in> {OAnd, OOr})"
| "wf_term d (QTerm acc oper (EqBody e)) \<longleftrightarrow> wf_eq oper e"
| "wf_term d (QTerm acc oper (ScopeBody ts)) \<longleftrightarrow>
     0 < d \<and> acc = None \<and> oper \<in> {OAnd, OOr, ONot, OOptional}
     \<and> (\<forall>t \<in> set ts. wf_term (d - 1) t) \<and> (ts \<noteq> [] \<longrightarrow> t_oper (last ts) \<noteq> OOr)"

definition wf_terms :: "nat \<Rightarrow> qterm list \<Rightarrow> bool" where
  "wf_terms d ts \<longleftrightarrow> (\<forall>t \<in> set ts. wf_term d t) \<and> (ts \<noteq> [] \<longrightarrow> t_oper (last ts) \<noteq> OOr)"

section \<open>The methods\<close>

lemma classify_cases:
  assumes "utf8 (tk_text t)"
  shows "case classify t of Ok e \<Rightarrow> operand e | Err e \<Rightarrow> pe_span e = tk_span t | Panic \<Rightarrow> False"
proof -
  have ent: "case entity_id ds sp of Ok e \<Rightarrow> operand e | Err e \<Rightarrow> pe_span e = sp | Panic \<Rightarrow> False" for ds sp
    by (auto simp: entity_id_def split: option.splits)
  have "slice_from (tk_text t) 1 = (Ok (drop 1 (tk_text t)) :: (parse_error, string) res)"
    if "byte_at (tk_text t) 0 = Some c" "c = CHR ''$'' \<or> c = CHR 0x23" for c
    using ascii_boundary_next [OF assms that(1)] that(2) by (auto simp: slice_from_boundary ascii_def)
  then show ?thesis using ent by (auto simp: classify_def split: token_kind.splits option.splits)
qed

lemma wp_classify:
  assumes "valid s p" and "\<And>e. operand e \<Longrightarrow> Q e q"
  shows "wp s (lift_p (classify (cur p))) q Q"
  using classify_cases [OF valid_cur(2) [OF assms(1)]] valid_cur(1) [OF assms(1)] assms(2)
  by (auto simp: wp_def lift_p_def split: res.splits)

lemma wp_traversal_loop:
  assumes "valid s p"
  shows "wp s (traversal_loop t) p (\<lambda>t' q. follows s (advance p) q \<and> wf_traversal t')"
  using assms
proof (induction "left p" arbitrary: t p rule: less_induct)
  case less
  note v = less.prems
  show ?case
  proof (cases "tk_kind (cur p) = Ident")
    case True
    let ?p1 = "advance p"
    have e: "expect Ident ''traversal flag'' p = Ok (cur p, ?p1)"
      using v True by (auto simp: expect_Ok bump_Ok cur_def advance_def valid_def)
    have pk: "peek ?p1 = Ok (cur ?p1, ?p1)" "bump ?p1 = Ok (cur ?p1, advance ?p1)"
      using valid_advance [OF v] by (auto simp: peek_Ok bump_Ok cur_def advance_def valid_def)
    have nz: "left p \<noteq> 0" using True valid_cur(3) [OF v] by auto
    have flag: "case set_traversal_flag t (cur p) of Ok t' \<Rightarrow> wf_traversal t' \<and> wf_traversal (t'\<lparr>tv_rel := r\<rparr>)
        | Err e \<Rightarrow> pe_span e = tk_span (cur p) | Panic \<Rightarrow> False" for r
      by (auto simp: set_traversal_flag_def wf_traversal_def)
    show ?thesis
    proof (cases "set_traversal_flag t (cur p)")
      case (Ok t')
      have IH: "wp s (traversal_loop t') (advance ?p1) (\<lambda>t'' q. follows s ?p1 q \<and> wf_traversal t'')"
        using less.hyps [of "advance ?p1" t'] nz v by (auto elim!: wp_mono simp: follows_def)
      show ?thesis
        using IH flag [unfolded Ok] v
        by (auto simp: wp_def traversal_loop.simps [of t p] e Ok pk follows_def)
    qed (use flag v e in \<open>auto simp: wp_def traversal_loop.simps [of t p] valid_cur\<close>)
  next
    case False
    have "wp s (expect Ident ''traversal flag'') p (\<lambda>_ _. False)" using False v by (simp add: wp_simps)
    then obtain err where "expect Ident ''traversal flag'' p = Err err" "span_ok s (pe_span err)"
      by (auto simp: wp_def split: res.splits)
    then show ?thesis by (simp add: wp_def traversal_loop.simps [of t p])
  qed
qed

lemma wp_traversal:
  assumes "valid s p" and "\<And>t q. follows s (advance p) q \<Longrightarrow> wf_traversal t \<Longrightarrow> Q t q"
  shows "wp s parse_traversal p Q"
  unfolding parse_traversal_def by (rule wp_mono [OF wp_traversal_loop [OF assms(1)]]) (simp add: assms(2))

lemma follows_step: "valid s p \<Longrightarrow> follows s (advance p) q \<Longrightarrow> follows s p q"
  by (rule follows_trans [OF follows_advance])

lemma wp_opt_traversal:
  assumes v: "valid s p" and Q: "\<And>t q. follows s p q \<Longrightarrow> wf_traversal_opt t \<Longrightarrow> Q t q"
  shows "wp s opt_traversal p Q"
proof -
  have none: "Q None p" using v by (intro Q) (auto simp: follows_refl wf_traversal_opt_def)
  have some: "Q (Some t) q" if "follows s (advance (advance p)) q" "wf_traversal t" for t q
    using that v by (intro Q) (auto simp: wf_traversal_opt_def follows_def)
  show ?thesis unfolding opt_traversal_def using v none some by (auto simp: wp_simps intro!: wp_traversal)
qed

lemma operand_arg: "operand e \<Longrightarrow> wf_traversal_opt t \<Longrightarrow> wf_arg \<lparr>rf_expr = e, rf_traversal = t\<rparr>"
  by (cases e) (auto simp: wf_arg_def)

lemma wp_arg_ref:
  assumes v: "valid s p" and Q: "\<And>r q. follows s p q \<Longrightarrow> wf_arg r \<Longrightarrow> Q r q"
  shows "wp s arg_ref p Q"
proof -
  have imp: "wf_arg \<lparr>rf_expr = Implied, rf_traversal = Some tv\<rparr>" if "wf_traversal tv" for tv
    using that by (simp add: wf_arg_def wf_traversal_opt_def)
  have val: "wf_arg (plain (Value e))" if "operand e" for e
    using that by (simp add: wf_arg_def plain_def wf_traversal_opt_def)
  have two: "follows s p (advance (advance p))" using v by (simp add: follows_def)
  show ?thesis unfolding arg_ref_def
    using v Q imp val two
    by (auto simp: wp_simps valid_cur intro!: wp_traversal wp_classify wp_opt_traversal operand_arg
        intro: follows_step)
qed

text \<open>The argument loop: at argument \<open>index\<close> the term holds exactly the earlier arguments.\<close>

definition args_so_far :: "nat \<Rightarrow> id_term \<Rightarrow> bool" where
  "args_so_far index i \<longleftrightarrow> wf_id i \<and> id_src i \<noteq> EmptySrc \<and> length (id_extra i) = index - 2
     \<and> (id_second i \<noteq> None \<longleftrightarrow> 2 \<le> index)"

lemma store_arg_so_far:
  assumes "args_so_far index i" and "wf_arg r" and "index \<le> TERM_ARG_COUNT_MAX"
  shows "args_so_far (index + 1) (store_arg index r i)"
  using assms by (auto simp: args_so_far_def store_arg_def wf_id_def TERM_ARG_COUNT_MAX_def)

lemma args_so_far_oper: "args_so_far index i \<Longrightarrow> args_so_far index (i\<lparr>id_extra_oper := x\<rparr>)"
  by (simp add: args_so_far_def wf_id_def)

lemma store_arg_flag [simp]: "id_flag (store_arg index r i) = id_flag i"
  by (simp add: store_arg_def)

lemma arg_list_step:
  "arg_list i index =
     (if TERM_ARG_COUNT_MAX < index
      then bind_p peek (\<lambda>t. fail_with (new_error ''too many arguments in term'' (tk_span t)))
      else bind_p arg_ref (\<lambda>r. bind_p bump (\<lambda>sep.
        if tk_kind sep = RParen then ret (store_arg index r i)
        else if tk_kind sep \<noteq> Comma \<and> tk_kind sep \<noteq> OrOr
        then lift_p (unexpected sep ([CHR 0x27] @ '','' @ [CHR 0x27] @ '' or '' @ [CHR 0x27] @ '')'' @ [CHR 0x27]))
        else if 1 < index \<and> id_extra_oper (store_arg index r i) \<noteq> (if tk_kind sep = Comma then XAnd else XOr)
        then fail_with (new_error ''cannot mix operators in extra term arguments'' (tk_span sep))
        else arg_list ((store_arg index r i)\<lparr>id_extra_oper := (if tk_kind sep = Comma then XAnd else XOr)\<rparr>) (index + 1))))"
  (is "_ = ?R")
proof (rule ext)
  fix p
  have app: "(if b then f else g) x = (if b then f x else g x)" for b and f g :: "parser \<Rightarrow> 'x" and x by simp
  show "arg_list i index p = ?R p"
    by (subst arg_list.simps)
      (simp only: bind_p_def ret_def fail_with_def lift_p_def unexpected_def Let_def app bind_res.simps split_def fst_conv snd_conv)
qed

lemma wp_arg_list:
  assumes "valid s p" and "args_so_far index i"
  shows "wp s (arg_list i index) p (\<lambda>i' q. follows s p q \<and> wf_id i' \<and> id_flag i' = id_flag i)"
  using assms
proof (induction "TERM_ARG_COUNT_MAX + 1 - index" arbitrary: i index p rule: less_induct)
  case less
  note v = less.prems(1)
  show ?case
  proof (cases "TERM_ARG_COUNT_MAX < index")
    case True
    then show ?thesis using v by (simp add: arg_list_step [of i index] wp_simps valid_cur)
  next
    case False
    have dec: "TERM_ARG_COUNT_MAX + 1 - (index + 1) < TERM_ARG_COUNT_MAX + 1 - index" using False by linarith
    have go: "wp s (arg_list ((store_arg index r i)\<lparr>id_extra_oper := x\<rparr>) (index + 1)) (advance q)
        (\<lambda>i' q. follows s p q \<and> wf_id i' \<and> id_flag i' = id_flag i)"
      if "follows s p q" "wf_arg r" for r q x
    proof (rule wp_mono [OF less.hyps [OF dec]])
      show "valid s (advance q)" using that(1) by (simp add: follows_def)
      show "args_so_far (index + 1) ((store_arg index r i)\<lparr>id_extra_oper := x\<rparr>)"
        using less.prems(2) that(2) False by (intro args_so_far_oper store_arg_so_far) auto
    qed (use that(1) in \<open>auto simp: follows_def\<close>)
    have stop: "wf_id (store_arg index r i)" if "wf_arg r" for r
      using store_arg_so_far [OF less.prems(2) that] False by (simp add: args_so_far_def)
    show ?thesis
    proof (subst arg_list_step, simp only: if_not_P [OF False] wp_bind, rule wp_arg_ref [OF v])
      fix r q
      assume q: "follows s p q" "wf_arg r"
      then have vq: "valid s q" by (simp add: follows_def)
      from q show "wp s bump q (\<lambda>sep p'. wp s (if tk_kind sep = RParen then ret (store_arg index r i)
             else if tk_kind sep \<noteq> Comma \<and> tk_kind sep \<noteq> OrOr
             then lift_p (unexpected sep ([CHR 0x27] @ '','' @ [CHR 0x27] @ '' or '' @ [CHR 0x27] @ '')'' @ [CHR 0x27]))
             else if 1 < index \<and> id_extra_oper (store_arg index r i) \<noteq> (if tk_kind sep = Comma then XAnd else XOr)
             then fail_with (new_error ''cannot mix operators in extra term arguments'' (tk_span sep))
             else arg_list ((store_arg index r i)\<lparr>id_extra_oper := (if tk_kind sep = Comma then XAnd else XOr)\<rparr>) (index + 1))
           p' (\<lambda>i' q. follows s p q \<and> wf_id i' \<and> id_flag i' = id_flag i))"
        using go stop valid_cur(1) [OF vq] by (auto simp: wp_simps vq follows_def)
    qed
  qed
qed

lemma wf_component: "wf_first r \<Longrightarrow> wf_id (component r)" "id_flag (component r) = None"
  by (simp_all add: wf_id_def component_def TERM_ARG_COUNT_MAX_def)

lemma component_so_far: "wf_first r \<Longrightarrow> index < 2 \<Longrightarrow> args_so_far index (component r)"
  by (auto simp: args_so_far_def wf_component) (simp_all add: component_def)

text \<open>The bodies: what they return for the operator they are given.\<close>

definition body_ok :: "oper \<Rightarrow> term_body \<Rightarrow> bool" where
  "body_ok oper b \<longleftrightarrow> (case b of
       IdBody i \<Rightarrow> wf_id i \<and> id_flag i = None
     | EqBody e \<Rightarrow> wf_eq oper e
     | ScopeBody _ \<Rightarrow> False)"

lemma wp_args:
  assumes v: "valid s p" and w: "wf_first r"
    and Q: "\<And>i q. follows s p q \<Longrightarrow> wf_id i \<Longrightarrow> id_flag i = None \<Longrightarrow> Q (IdBody i) q"
  shows "wp s (args r) p Q"
proof -
  have "wp s (arg_list (component r) 0) p (\<lambda>i q. Q (IdBody i) q)"
    by (rule wp_mono [OF wp_arg_list [OF v component_so_far [OF w]]]) (auto intro: Q simp: wf_component)
  moreover have "Q (IdBody ((component r)\<lparr>id_src := EmptySrc\<rparr>)) (advance p)"
    using w by (intro Q follows_advance [OF v]) (auto simp: wf_id_def component_def TERM_ARG_COUNT_MAX_def)
  ultimately show ?thesis unfolding args_def using v by (simp add: wp_simps)
qed

lemma wp_pair_body:
  assumes v: "valid s p" and Q: "\<And>i q. follows s p q \<Longrightarrow> wf_id i \<Longrightarrow> id_flag i = None \<Longrightarrow> Q (IdBody i) q"
  shows "wp s pair_body p Q"
proof -
  have tail: "wp s (arg_list (component \<lparr>rf_expr = e, rf_traversal = tv\<rparr>) 1) (advance q) (\<lambda>i q. Q (IdBody i) q)"
    if "operand e" "wf_traversal_opt tv" "follows s (advance p) q" for e tv q
    by (rule wp_mono [OF wp_arg_list [OF _ component_so_far]])
      (use that in \<open>auto intro!: Q simp: wf_component wf_first_def follows_def\<close>)
  have expect: "wp s (expect Comma m) q (\<lambda>_ q'. wp s (arg_list (component \<lparr>rf_expr = e, rf_traversal = tv\<rparr>) 1) q'
      (\<lambda>i q. Q (IdBody i) q))"
    if "operand e" "wf_traversal_opt tv" "follows s (advance p) q" for e tv q m
    using tail [OF that] follows_valid [OF that(3)] by (simp add: wp_simps)
  show ?thesis unfolding pair_body_def
    using v expect valid_cur(1) [OF v]
    by (simp add: wp_bind wp_bump wp_if wp_unexpected wp_ret) (auto intro!: wp_classify [OF v] wp_opt_traversal)
qed

lemma wp_eq_body:
  assumes v: "valid s p" and l: "operand l" and n: "negate \<Longrightarrow> op = EqualOp"
    and Q: "\<And>b oper' q. follows s p q \<Longrightarrow> body_ok oper' b \<Longrightarrow> oper' = oper \<or> oper' = ONot \<and> (\<exists>e. b = EqBody e) \<Longrightarrow> Q (b, oper') q"
  shows "wp s (eq_body l op negate oper) p Q"
proof -
  let ?eq = "\<lambda>right. EqBody \<lparr>eq_left = l, eq_kind = op, eq_right = right\<rparr>"
  have refs: "oper = OAnd \<Longrightarrow> operand e \<Longrightarrow> negate \<Longrightarrow> Q (?eq (RefOperand e), ONot) (advance p)"
      "oper = OAnd \<Longrightarrow> operand e \<Longrightarrow> \<not> negate \<Longrightarrow> Q (?eq (RefOperand e), OAnd) (advance p)" for e
    using l n by (auto intro!: Q follows_advance [OF v] simp: body_ok_def wf_eq_def)
  have names: "oper = OAnd \<Longrightarrow> Q (?eq (NameOperand m), ONot) (advance p)"
      "oper = OAnd \<Longrightarrow> Q (?eq (NameOperand m), OAnd) (advance p)" for m
    using l by (auto intro!: Q follows_advance [OF v] simp: body_ok_def wf_eq_def)
  show ?thesis unfolding eq_body_def
    using v valid_cur(1) [OF v] refs names
    by (auto simp: wp_simps Let_def split: list.splits intro!: wp_classify [OF v])
qed

lemma wp_id_body:
  assumes v: "valid s p" and l: "operand first"
    and Q: "\<And>b oper' q. follows s p q \<Longrightarrow> body_ok oper' b \<Longrightarrow> oper' = oper \<or> oper' = ONot \<and> (\<exists>e. b = EqBody e) \<Longrightarrow> Q (b, oper') q"
  shows "wp s (id_body first oper) p Q"
proof -
  have eq: "wp s (eq_body first op neg oper) (advance p) Q" if "neg \<Longrightarrow> op = EqualOp" for op neg
    by (rule wp_eq_body [OF valid_advance [OF v] l]) (use that follows_step [OF v] Q in auto)
  have id: "Q (IdBody i, oper) q" if "follows s p q" "wf_id i" "id_flag i = None" for i q
    using that by (intro Q) (auto simp: body_ok_def)
  have wf: "wf_first \<lparr>rf_expr = first, rf_traversal = Some tv\<rparr>" if "wf_traversal tv" for tv
    using l that by (simp add: wf_first_def wf_traversal_opt_def)
  have args: "wp s (args r) (advance q) (\<lambda>b q'. Q (b, oper) q')" if "follows s p q" "wf_first r" for r q
    by (rule wp_args [OF valid_advance [OF follows_valid [OF that(1)]] that(2)])
      (use that(1) in \<open>auto intro!: id simp: follows_def\<close>)
  have plain: "wf_first (plain first)" using l by (simp add: wf_first_def plain_def wf_traversal_opt_def)
  have piped: "wp s parse_traversal (advance p) (\<lambda>tv q. wp s peek q (\<lambda>t2 q2. wp s (if tk_kind t2 = LParen
      then bind_p bump (\<lambda>_. bind_p (args \<lparr>rf_expr = first, rf_traversal = Some tv\<rparr>) (\<lambda>b. ret (b, oper)))
      else ret (IdBody (component \<lparr>rf_expr = first, rf_traversal = Some tv\<rparr>), oper)) q2 Q))"
  proof (rule wp_traversal [OF valid_advance [OF v]])
    fix tv q
    assume q: "follows s (advance (advance p)) q" "wf_traversal tv"
    then have fq: "follows s p q" using v by (auto simp: follows_def)
    show "wp s peek q (\<lambda>t2 q2. wp s (if tk_kind t2 = LParen
      then bind_p bump (\<lambda>_. bind_p (args \<lparr>rf_expr = first, rf_traversal = Some tv\<rparr>) (\<lambda>b. ret (b, oper)))
      else ret (IdBody (component \<lparr>rf_expr = first, rf_traversal = Some tv\<rparr>), oper)) q2 Q)"
      using args [OF fq wf [OF q(2)]] id [OF fq wf_component(1) [OF wf [OF q(2)]] wf_component(2)] follows_valid [OF fq]
      by (simp add: wp_simps)
  qed
  show ?thesis unfolding id_body_def
    using v eq piped args [OF follows_refl [OF v] plain] id [OF follows_refl [OF v] wf_component(1) [OF plain] wf_component(2)]
    by (simp add: wp_bind wp_peek wp_bump wp_if wp_ret Let_def)
qed

lemma wp_ref_expr:
  assumes v: "valid s p" and Q: "\<And>e. operand e \<Longrightarrow> Q e (advance p)"
  shows "wp s parse_ref_expr p Q"
  unfolding parse_ref_expr_def using v Q by (auto simp: wp_simps intro!: wp_classify [OF v])

lemma wp_keyword:
  assumes v: "valid s p" and N: "Q None p" and S: "\<And>k. keyword_of (tk_text (cur p)) = Some k \<Longrightarrow> Q (Some k) (advance (advance p))"
  shows "wp s keyword p Q"
  unfolding keyword_def using v N S by (auto simp: wp_simps split: option.splits)

lemma wp_access:
  assumes v: "valid s p" and Q: "\<And>a q. follows s p q \<Longrightarrow> Q a q"
  shows "wp s parse_access p Q"
  unfolding parse_access_def
  using v Q valid_cur(1) [OF valid_advance [OF v]]
  by (auto simp: wp_simps follows_def split: option.splits)

lemma wp_prefix_oper:
  assumes v: "valid s p" and Q: "\<And>oper q. follows s p q \<Longrightarrow> oper \<in> {OAnd, ONot, OOptional} \<Longrightarrow> Q oper q"
  shows "wp s prefix_oper p Q"
  unfolding prefix_oper_def using v Q by (auto simp: wp_simps follows_def)

text \<open>Bodies with their keyword: an operator keyword or an id flag.\<close>

definition flagged_ok :: "oper \<Rightarrow> term_body \<Rightarrow> bool" where
  "flagged_ok oper b \<longleftrightarrow> (case b of
       IdBody i \<Rightarrow> wf_id i \<and> (id_flag i \<noteq> None \<longrightarrow> oper \<in> {OAnd, OOr})
     | EqBody e \<Rightarrow> wf_eq oper e
     | ScopeBody _ \<Rightarrow> False)"

lemma body_ok_flagged: "body_ok oper b \<Longrightarrow> flagged_ok oper b"
  by (auto simp: body_ok_def flagged_ok_def split: term_body.splits)

lemma wp_keyword_operand:
  assumes v: "valid s p" and f: "flag \<noteq> None \<Longrightarrow> oper = OAnd"
    and Q: "\<And>b oper' q. follows s p q \<Longrightarrow> flagged_ok oper' b \<Longrightarrow> oper' \<noteq> OOr \<or> oper = OOr \<Longrightarrow> Q (b, oper') q"
  shows "wp s (keyword_operand flag oper) p Q"
proof -
  let ?fin = "\<lambda>body. case body of IdBody i \<Rightarrow> IdBody (i\<lparr>id_flag := flag\<rparr>) | _ \<Rightarrow> body"
  have fin: "Q (?fin b, oper') q"
    if "follows s p q" "body_ok oper' b" "oper' = oper \<or> oper' = ONot \<and> (\<exists>e. b = EqBody e)" for b oper' q
    using that f by (intro Q) (auto simp: body_ok_def flagged_ok_def wf_id_def split: term_body.splits)
  have pair: "wp s pair_body (advance p) (\<lambda>b q. Q (?fin b, oper) q)"
    by (rule wp_pair_body [OF valid_advance [OF v]])
      (use follows_step [OF v] fin [of _ oper "IdBody _"] in \<open>auto simp: body_ok_def\<close>)
  have id: "wp s (id_body e oper) (advance p) (\<lambda>(b, oper') q. Q (?fin b, oper') q)" if "operand e" for e
    by (rule wp_id_body [OF valid_advance [OF v] that]) (use follows_step [OF v] fin in auto)
  show ?thesis unfolding keyword_operand_def
    using v pair id by (auto simp: wp_bind wp_peek wp_bump wp_if wp_ret split_def intro!: wp_ref_expr cong del: term_body.case_cong_weak)
qed

lemma wp_scope_body:
  assumes v: "valid s p" and k: "tk_kind (cur p) = LBrace"
    and inner: "\<And>q. valid s q \<Longrightarrow> left q < left p \<Longrightarrow> ps_scope_depth q = ps_scope_depth p + 1 \<Longrightarrow> ps_scope_depth q \<le> SCOPE_DEPTH_MAX \<Longrightarrow>
        wp s scope_terms q (\<lambda>ts q'. follows s q q' \<and> wf_terms (SCOPE_DEPTH_MAX - ps_scope_depth q) ts)"
    and Q: "\<And>ts q. follows s p q \<Longrightarrow> left q < left p \<Longrightarrow> ps_scope_depth p < SCOPE_DEPTH_MAX
        \<Longrightarrow> wf_terms (SCOPE_DEPTH_MAX - ps_scope_depth p - 1) ts \<Longrightarrow> Q (ScopeBody ts) q"
  shows "wp s (scope_body scope_terms) p Q"
proof -
  have nz: "left p \<noteq> 0" using valid_cur(3) [OF v] k by auto
  let ?p1 = "(advance p)\<lparr>ps_scope_depth := ps_scope_depth p + 1\<rparr>"
  have v1: "valid s ?p1" "left ?p1 < left p" using valid_advance [OF v] nz by (auto simp: valid_def left_def advance_def)
  have upd: "valid s (q\<lparr>ps_scope_depth := d\<rparr>) \<longleftrightarrow> valid s q" "left (q\<lparr>ps_scope_depth := d\<rparr>) = left q" for q d
    by (auto simp: valid_def left_def)
  show ?thesis
  proof (cases "ps_scope_depth p + 1 \<le> SCOPE_DEPTH_MAX")
    case True
    have "wp s scope_terms ?p1 (\<lambda>ts q'. follows s ?p1 q' \<and> wf_terms (SCOPE_DEPTH_MAX - (ps_scope_depth p + 1)) ts)"
      using inner [OF v1] True by simp
    then show ?thesis
      unfolding scope_body_def wp_bind wp_bump [OF v] using True v1
      by (auto simp: wp_def Let_def follows_def upd split: res.splits intro!: Q)
  next
    case False
    then show ?thesis using valid_cur(1) [OF v]
      unfolding scope_body_def wp_bind wp_bump [OF v] by (auto simp: wp_def Let_def)
  qed
qed

text \<open>One term: it consumes at least one token.\<close>

lemma flagged_wf_term: "flagged_ok oper b \<Longrightarrow> wf_term d (QTerm a oper b)"
  by (cases b) (auto simp: flagged_ok_def)

lemma wp_parse_term:
  assumes v: "valid s p" and ne: "tk_kind (cur p) \<noteq> Eof"
    and inner: "\<And>q. valid s q \<Longrightarrow> left q < left p \<Longrightarrow> ps_scope_depth q = ps_scope_depth p + 1 \<Longrightarrow> ps_scope_depth q \<le> SCOPE_DEPTH_MAX \<Longrightarrow>
        wp s scope_terms q (\<lambda>ts q'. follows s q q' \<and> wf_terms (SCOPE_DEPTH_MAX - ps_scope_depth q) ts)"
  shows "wp s (parse_term scope_terms) p (\<lambda>t q. follows s p q \<and> left q < left p
     \<and> wf_term (SCOPE_DEPTH_MAX - ps_scope_depth p) t \<and> t_oper t \<noteq> OOr)"
    (is "wp s _ p ?Q")
proof -
  let ?cont = "\<lambda>acc. \<lambda>(body, oper'). ret (QTerm acc oper' body)"
  have fin: "wp s (?cont acc r) q' ?Q"
    if "follows s q q'" "left q' < left q" "follows s p q" "flagged_ok (snd r) (fst r)" "snd r \<noteq> OOr" for acc r q q'
    using that by (cases r) (auto simp: wp_simps follows_def flagged_wf_term)
  have body: "wp s
         (if tk_kind (cur q) = LBrace \<and> acc = None then bind_p (scope_body scope_terms) (\<lambda>b. ret (b, oper))
          else if tk_kind (cur q) = LParen then bind_p bump (\<lambda>_. bind_p pair_body (\<lambda>b. ret (b, oper)))
          else if is_ref_kind (tk_kind (cur q)) then
            bind_p (if oper \<noteq> OAnd then ret None else keyword) (\<lambda>k.
              case k of
                Some (KOper o') \<Rightarrow> keyword_operand None o'
              | Some (KFlag f) \<Rightarrow> keyword_operand (Some f) oper
              | None \<Rightarrow> bind_p parse_ref_expr (\<lambda>first. id_body first oper))
          else lift_p (unexpected (cur q) ''term'')) q (\<lambda>r q'. wp s (?cont acc r) q' ?Q)"
    if fq: "follows s p q" and op: "oper \<in> {OAnd, ONot, OOptional}" for q acc oper
  proof -
    have vq: "valid s q" using fq by (rule follows_valid)
    have nz: "left q \<noteq> 0" if "tk_kind (cur q) \<noteq> Eof" using valid_cur(3) [OF vq] that by simp
    have less: "left q' < left q" if "follows s (advance q) q'" "tk_kind (cur q) \<noteq> Eof" for q'
      using that nz by (auto simp: follows_def)
    have scope: "wp s (scope_body scope_terms) q (\<lambda>b q'. wp s (?cont None (b, oper)) q' ?Q)" if "tk_kind (cur q) = LBrace"
    proof (rule wp_scope_body [OF vq that])
      show "wp s scope_terms q' (\<lambda>ts q''. follows s q' q'' \<and> wf_terms (SCOPE_DEPTH_MAX - ps_scope_depth q') ts)"
        if "valid s q'" "left q' < left q" "ps_scope_depth q' = ps_scope_depth q + 1" "ps_scope_depth q' \<le> SCOPE_DEPTH_MAX" for q'
        using inner [of q'] that fq by (auto simp: follows_def)
    qed (use fq op in \<open>auto simp: wp_simps follows_def wf_terms_def\<close>)
    have pair: "wp s pair_body (advance q) (\<lambda>b q'. wp s (?cont acc (b, oper)) q' ?Q)" if "tk_kind (cur q) \<noteq> Eof"
      by (rule wp_pair_body [OF valid_advance [OF vq]])
        (rule fin [OF follows_step [OF vq] less [OF _ that] fq], use op in \<open>auto simp: flagged_ok_def\<close>)
    have id: "wp s (id_body e oper) (advance q) (\<lambda>r q'. wp s (?cont acc r) q' ?Q)" if "operand e" "tk_kind (cur q) \<noteq> Eof" for e
      by (rule wp_id_body [OF valid_advance [OF vq] that(1)])
        (rule fin [OF follows_step [OF vq] less [OF _ that(2)] fq], use op in \<open>auto intro: body_ok_flagged\<close>)
    have kw: "wp s (keyword_operand flag o') (advance (advance q)) (\<lambda>r q'. wp s (?cont acc r) q' ?Q)"
      if "tk_kind (cur q) \<noteq> Eof" "flag \<noteq> None \<longrightarrow> o' = OAnd" "o' \<noteq> OOr" for flag o'
      by (rule wp_keyword_operand [OF valid_advance [OF valid_advance [OF vq]]])
        (use that in simp, rule fin [of q, OF _ _ fq],
         use that nz vq in \<open>auto simp: follows_def\<close>)
    have kwo: "wp s (keyword_operand None o') (advance (advance q)) (\<lambda>r q'. wp s (?cont acc r) q' ?Q)"
      if "tk_kind (cur q) \<noteq> Eof" "keyword_of w = Some (KOper o')" for w o'
      using that by (intro kw) (auto simp: keyword_of_def split: if_splits)
    show ?thesis
      using scope pair id kw [of "Some _" OAnd] kwo op vq valid_cur(1) [OF vq]
      by (auto simp: wp_bind wp_bump wp_if wp_ret wp_unexpected is_ref_kind_def
          intro!: wp_keyword wp_ref_expr split: keyword_prefix.splits)
  qed
  show ?thesis unfolding parse_term_def wp_bind
  proof (rule wp_access [OF v], rule wp_prefix_oper [OF follows_valid], assumption)
    fix acc q1 oper q
    assume "follows s p q1" "follows s q1 q" "oper \<in> {OAnd, ONot, OOptional}"
    then show "wp s peek q (\<lambda>t q. wp s
         (if tk_kind t = LBrace \<and> acc = None then bind_p (scope_body scope_terms) (\<lambda>b. ret (b, oper))
          else if tk_kind t = LParen then bind_p bump (\<lambda>_. bind_p pair_body (\<lambda>b. ret (b, oper)))
          else if is_ref_kind (tk_kind t) then
            bind_p (if oper \<noteq> OAnd then ret None else keyword) (\<lambda>k.
              case k of
                Some (KOper o') \<Rightarrow> keyword_operand None o'
              | Some (KFlag f) \<Rightarrow> keyword_operand (Some f) oper
              | None \<Rightarrow> bind_p parse_ref_expr (\<lambda>first. id_body first oper))
          else lift_p (unexpected t ''term'')) q (\<lambda>r q'. wp s (?cont acc r) q' ?Q))"
      using body [OF follows_trans] by (simp add: wp_peek follows_valid)
  qed
qed

lemma set_last_oper_snoc [simp]: "set_last_oper oper (ts @ [QTerm a op' b]) = ts @ [QTerm a oper b]"
proof (induction ts)
  case (Cons u us)
  then show ?case by (cases "us @ [QTerm a op' b]") auto
qed simp

lemma wf_term_or: "wf_term d (QTerm a OAnd b) \<Longrightarrow> wf_term d (QTerm a OOr b)"
  by (cases b) (auto simp: wf_eq_def split: eq_operand.splits)

text \<open>The terms read so far: a pending \<open>||\<close> is followed by another term.\<close>

definition pending_ok :: "nat \<Rightarrow> qterm list \<Rightarrow> parser \<Rightarrow> bool" where
  "pending_ok d ts p \<longleftrightarrow> (\<forall>t \<in> set ts. wf_term d t)
     \<and> (ts \<noteq> [] \<and> t_oper (last ts) = OOr \<longrightarrow> tk_kind (cur p) \<noteq> Eof \<and> tk_kind (cur p) \<noteq> RBrace)"

lemma wp_separator:
  assumes v: "valid s p" and ts: "\<forall>u \<in> set (ts @ [t]). wf_term d u" and t: "t_oper t \<noteq> OOr"
    and Q: "\<And>us q. follows s p q \<Longrightarrow> pending_ok d us q \<Longrightarrow> Q us q"
  shows "wp s (separator (ts @ [t])) p Q"
proof -
  obtain a oper b where tm: "t = QTerm a oper b" by (cases t)
  have same: "Q (ts @ [t]) q" if "follows s p q" for q using that ts t by (intro Q) (auto simp: pending_ok_def)
  have chain: "Q (ts @ [QTerm a OOr b]) (advance p)"
    if "oper = OAnd" "tk_kind (cur (advance p)) \<noteq> Eof" "tk_kind (cur (advance p)) \<noteq> RBrace"
    using that ts tm wf_term_or by (intro Q follows_advance [OF v]) (auto simp: pending_ok_def)
  show ?thesis unfolding separator_def
    using v same [OF follows_refl [OF v]] same [OF follows_advance [OF v]] chain tm valid_cur(1) [OF v]
    by (auto simp: wp_simps)
qed

lemma wp_terms_loop:
  assumes "valid s p" and "left p < fuel" and "ps_scope_depth p \<le> SCOPE_DEPTH_MAX"
    and "pending_ok (SCOPE_DEPTH_MAX - ps_scope_depth p) ts p"
  shows "wp s (terms_loop fuel ctx ts) p (\<lambda>us q. follows s p q \<and> wf_terms (SCOPE_DEPTH_MAX - ps_scope_depth p) us)"
  using assms
proof (induction fuel arbitrary: ctx ts p)
  case (Suc fuel)
  note v = Suc.prems(1)
  let ?d = "SCOPE_DEPTH_MAX - ps_scope_depth p"
  let ?Q = "\<lambda>us q. follows s p q \<and> wf_terms ?d us"
  have eq: "terms_loop (Suc fuel) ctx ts = bind_p peek (\<lambda>t.
       if tk_kind t = Eof then
         (if ctx = Scope then lift_p (unexpected t ([CHR 0x27] @ ''}'' @ [CHR 0x27])) else ret ts)
       else if tk_kind t = RBrace \<and> ctx = Scope then bind_p bump (\<lambda>_. ret ts)
       else bind_p (parse_term (terms_loop fuel Scope [])) (\<lambda>new.
           bind_p (separator (ts @ [new])) (terms_loop fuel ctx)))"
    by (rule ext) simp
  have stop: "wf_terms ?d ts" if "tk_kind (cur p) = Eof \<or> tk_kind (cur p) = RBrace"
    using Suc.prems(4) that by (auto simp: pending_ok_def wf_terms_def)
  have go: "wp s (parse_term (terms_loop fuel Scope [])) p (\<lambda>new q. wp s (separator (ts @ [new])) q
      (\<lambda>us q'. wp s (terms_loop fuel ctx us) q' ?Q))" if ne: "tk_kind (cur p) \<noteq> Eof"
  proof (rule wp_mono [OF wp_parse_term [OF v ne]])
    fix q
    assume "valid s q" "left q < left p" "ps_scope_depth q \<le> SCOPE_DEPTH_MAX"
    then show "wp s (terms_loop fuel Scope []) q (\<lambda>us q'. follows s q q' \<and> wf_terms (SCOPE_DEPTH_MAX - ps_scope_depth q) us)"
      using Suc.prems(2) by (intro Suc.IH) (auto simp: pending_ok_def)
  next
    fix new q
    assume new: "follows s p q \<and> left q < left p \<and> wf_term ?d new \<and> t_oper new \<noteq> OOr"
    show "wp s (separator (ts @ [new])) q (\<lambda>us q'. wp s (terms_loop fuel ctx us) q' ?Q)"
    proof (rule wp_separator)
      fix us q'
      assume q': "follows s q q'" "pending_ok ?d us q'"
      have "wp s (terms_loop fuel ctx us) q' (\<lambda>us q''. follows s q' q'' \<and> wf_terms (SCOPE_DEPTH_MAX - ps_scope_depth q') us)"
        using q' new Suc.prems(2,3) by (intro Suc.IH) (auto simp: follows_def)
      then show "wp s (terms_loop fuel ctx us) q' ?Q"
        by (rule wp_mono) (use q' new in \<open>auto simp: follows_def\<close>)
    qed (use new Suc.prems(4) in \<open>auto simp: follows_def pending_ok_def\<close>)
  qed
  show ?case
    using v stop go valid_cur(1) [OF v] follows_refl [OF v] follows_advance [OF v]
    by (simp add: eq wp_simps del: terms_loop.simps)
qed simp

section \<open>Parsing a source text\<close>

lemma parse_cases:
  assumes "utf8 src"
  shows "case parse src of
      Ok q \<Rightarrow> wf_terms SCOPE_DEPTH_MAX (q_terms q)
    | Err e \<Rightarrow> span_ok src (pe_span e)
    | Panic \<Rightarrow> False"
proof (cases "src = ''0''")
  case True
  then show ?thesis by (simp add: parse_def wf_terms_def)
next
  case False
  show ?thesis
  proof (cases "lex src")
    case (Ok tokens)
    let ?p = "\<lparr>ps_tokens = tokens, ps_index = 0, ps_scope_depth = 0\<rparr>"
    have ts: "token_stream src tokens" using lex_safe_all [OF assms] Ok by simp
    then have "tokens \<noteq> []" by (auto simp: token_stream_def)
    with ts have "wp src (terms_loop (length tokens) TopLevel []) ?p (\<lambda>us q. follows src ?p q \<and> wf_terms (SCOPE_DEPTH_MAX - ps_scope_depth ?p) us)"
      by (intro wp_terms_loop) (auto simp: valid_def left_def pending_ok_def)
    then show ?thesis using False Ok by (auto simp: parse_def wp_def split: res.splits)
  qed (use lex_safe_all [OF assms] False in \<open>auto simp: parse_def\<close>)
qed

end
