(* ===== verification/Flecs_Fmt.thy ===== *)
theory Flecs_Fmt
  imports Flecs_Parsing
begin

text \<open>
  The canonical rendering of the syntax tree (\<^verbatim>\<open>fmt.rs\<close>) and the rendering of parse errors
  (\<^verbatim>\<open>ParseError::render\<close> in \<^verbatim>\<open>error.rs\<close>) of \<^verbatim>\<open>packages/flecs-query/core\<close>. A \<^verbatim>\<open>Display\<close>
  implementation is the function that gives the text it writes.
\<close>

section \<open>Escaping\<close>

definition is_ascii_alphanumeric :: "char \<Rightarrow> bool" where
  "is_ascii_alphanumeric c \<longleftrightarrow> is_ascii_alphabetic c \<or> is_digit c"

definition name_char :: "string \<Rightarrow> bool" where
  "name_char ch \<longleftrightarrow> (case ch of [c] \<Rightarrow> is_ascii_alphanumeric c \<or> c \<in> set ([CHR ''_'', CHR ''$'', CHR 0x23, CHR ''.'', CHR ''*''])
     | _ \<Rightarrow> False)"

fun escape_name_loop :: "nat \<Rightarrow> string list \<Rightarrow> string" where
  "escape_name_loop depth [] = []"
| "escape_name_loop depth (c # cs) =
     (if c = ''<'' then c @ escape_name_loop (depth + 1) cs
      else if c = ''>'' then c @ escape_name_loop (depth - 1) cs
      else if 0 < depth then c @ escape_name_loop depth cs
      else if c = [CHR 0x5C] then
        (case cs of
           [] \<Rightarrow> [CHR 0x5C]
         | next # cs' \<Rightarrow> [CHR 0x5C] @ next @ escape_name_loop depth cs')
      else if name_char c then c @ escape_name_loop depth cs
      else [CHR 0x5C] @ c @ escape_name_loop depth cs)"

definition escaped_name :: "string \<Rightarrow> string" where
  "escaped_name s = escape_name_loop 0 (chars s)"

definition escaped_string :: "string \<Rightarrow> string" where
  "escaped_string s =
     concat (map (\<lambda>c. if c = [CHR 0x22] \<or> c = [CHR 0x5C] then [CHR 0x5C] @ c else c) (chars s))"

section \<open>Rendering the tree\<close>

fun show_access :: "access \<Rightarrow> string" where
  "show_access AccDefault = ''[default]''"
| "show_access AccIn = ''[in]''"
| "show_access AccOut = ''[out]''"
| "show_access AccInOut = ''[inout]''"
| "show_access AccNone = ''[none]''"
| "show_access AccFilter = ''[filter]''"

fun show_ref_expr :: "ref_expr \<Rightarrow> string" where
  "show_ref_expr (Name n) = escaped_name n"
| "show_ref_expr This = ''$this''"
| "show_ref_expr (Var n) = ''$'' @ n"
| "show_ref_expr Wildcard = ''*''"
| "show_ref_expr AnyRef = ''_''"
| "show_ref_expr (Entity n) = [CHR 0x23] @ show_nat (unat n)"
| "show_ref_expr (Value e) = ''@'' @ show_ref_expr e"
| "show_ref_expr Implied = []"

definition traversal_flags :: "traversal \<Rightarrow> string list" where
  "traversal_flags t =
     (if tv_self t then [''self''] else []) @ (if tv_up t then [''up''] else [])
     @ (if tv_cascade t then [''cascade''] else []) @ (if tv_desc t then [''desc''] else [])"

definition show_traversal :: "traversal \<Rightarrow> string" where
  "show_traversal t =
     intersperse ''|'' (traversal_flags t)
     @ (case tv_rel t of None \<Rightarrow> [] | Some rel \<Rightarrow> (if traversal_flags t = [] then [] else '' '') @ rel)"

definition show_ref :: "reference \<Rightarrow> string" where
  "show_ref r = (case (rf_expr r, rf_traversal r) of
       (Implied, Some t) \<Rightarrow> show_traversal t
     | (Implied, None) \<Rightarrow> []
     | (e, Some t) \<Rightarrow> show_ref_expr e @ ''|'' @ show_traversal t
     | (e, None) \<Rightarrow> show_ref_expr e)"

definition show_extras :: "id_term \<Rightarrow> string" where
  "show_extras i =
     concat (map (\<lambda>r. (case id_extra_oper i of XAnd \<Rightarrow> '', '' | XOr \<Rightarrow> '' || '') @ show_ref r) (id_extra i))"

definition show_id :: "id_term \<Rightarrow> string" where
  "show_id i =
     (case id_flag i of Some AutoOverride \<Rightarrow> ''auto_override|'' | Some Toggle \<Rightarrow> ''toggle|'' | None \<Rightarrow> [])
     @ (case id_src i of
          Implicit \<Rightarrow>
            (case id_second i of
               None \<Rightarrow> show_ref (id_first i)
             | Some second \<Rightarrow> ''('' @ show_ref (id_first i) @ '', '' @ show_ref second @ show_extras i @ '')'')
        | EmptySrc \<Rightarrow> show_ref (id_first i) @ ''()''
        | Explicit src \<Rightarrow>
            show_ref (id_first i) @ ''('' @ show_ref src
            @ (case id_second i of None \<Rightarrow> [] | Some second \<Rightarrow> '', '' @ show_ref second @ show_extras i) @ '')'')"

definition write_eq :: "eq_term \<Rightarrow> bool \<Rightarrow> string" where
  "write_eq e negated =
     show_ref_expr (eq_left e) @ '' '' @
     (case (eq_kind e, negated, eq_right e) of
        (MatchOp, True, NameOperand n) \<Rightarrow> ''~= '' @ [CHR 0x22] @ ''!'' @ escaped_string n @ [CHR 0x22]
      | (k, n, right) \<Rightarrow>
          (case (k, n) of (EqualOp, False) \<Rightarrow> ''== '' | (EqualOp, True) \<Rightarrow> ''!= '' | _ \<Rightarrow> ''~= '')
          @ (case right of
               RefOperand r \<Rightarrow> show_ref_expr r
             | NameOperand m \<Rightarrow> [CHR 0x22] @ escaped_string m @ [CHR 0x22]))"

definition show_oper :: "oper \<Rightarrow> bool \<Rightarrow> string" where
  "show_oper oper negated_eq = (case oper of
       OAnd \<Rightarrow> [] | OOr \<Rightarrow> []
     | ONot \<Rightarrow> if negated_eq then [] else ''!''
     | OOptional \<Rightarrow> ''?'' | OAndFrom \<Rightarrow> ''and|'' | OOrFrom \<Rightarrow> ''or|'' | ONotFrom \<Rightarrow> ''not|'')"

text \<open>The separator before a term depends on the operator of the term before it.\<close>

fun join_terms :: "(oper \<times> string) list \<Rightarrow> string" where
  "join_terms [] = []"
| "join_terms [(_, w)] = w"
| "join_terms ((oper, w) # ws) = w @ (if oper = OOr then '' || '' else '', '') @ join_terms ws"

fun show_term :: "qterm \<Rightarrow> string" where
  "show_term (QTerm acc oper body) =
     (case acc of None \<Rightarrow> [] | Some a \<Rightarrow> show_access a @ '' '')
     @ show_oper oper (case body of EqBody _ \<Rightarrow> True | _ \<Rightarrow> False)
     @ (case body of
          IdBody i \<Rightarrow> show_id i
        | EqBody e \<Rightarrow> write_eq e (oper = ONot)
        | ScopeBody ts \<Rightarrow> ''{'' @ join_terms (map (\<lambda>t. (t_oper t, show_term t)) ts) @ ''}'')"

definition write_terms :: "qterm list \<Rightarrow> string" where
  "write_terms ts = join_terms (map (\<lambda>t. (t_oper t, show_term t)) ts)"

definition show_query :: "flecs_query \<Rightarrow> string" where
  "show_query q = (if q_terms q = [] then ''0'' else write_terms (q_terms q))"

section \<open>Rendering errors\<close>

fun snap :: "string \<Rightarrow> nat \<Rightarrow> nat" where
  "snap s 0 = 0"
| "snap s (Suc p) = (if is_boundary s (Suc p) then Suc p else snap s p)"

definition find_char :: "char \<Rightarrow> string \<Rightarrow> nat option" where
  "find_char c s = (let n = length (takeWhile (\<lambda>x. x \<noteq> c) s) in if n < length s then Some n else None)"

definition rfind_char :: "char \<Rightarrow> string \<Rightarrow> nat option" where
  "rfind_char c s = (case find_char c (rev s) of None \<Rightarrow> None | Some i \<Rightarrow> Some (length s - 1 - i))"

definition render :: "parse_error \<Rightarrow> string \<Rightarrow> (parse_error, string) res" where
  "render e s =
     (let start = snap s (min (span_start (pe_span e)) (length s)) in
      bind_res (slice_range s 0 start) (\<lambda>before.
      bind_res (slice_from s start) (\<lambda>after.
        let line_start = (case rfind_char (CHR 0x0A) before of None \<Rightarrow> 0 | Some i \<Rightarrow> i + 1);
            line_end = (case find_char (CHR 0x0A) after of None \<Rightarrow> length s | Some i \<Rightarrow> start + i)
        in bind_res (slice_range s line_start line_end) (\<lambda>line.
           bind_res (slice_range s line_start start) (\<lambda>pre.
             Ok (''error: '' @ pe_message e @ [CHR 0x0A] @ '' | '' @ line @ [CHR 0x0A] @ '' | ''
                 @ replicate (length (chars pre)) (CHR '' '') @ ''^''))))))"

end
