(* ===== verification/Flecs_Respell.thy ===== *)
theory Flecs_Respell
  imports Flecs_Fmt
begin

text \<open>
  The tokens of rendered text: how the lexer reads each piece that the rendering of
  \<^verbatim>\<open>fmt.rs\<close> writes, composed from characters to whole terms.
\<close>

type_synonym lexeme = "token_kind \<times> string"

definition lexeme :: "token \<Rightarrow> lexeme" where
  "lexeme t = (tk_kind t, tk_text t)"

section \<open>Text that spells lexemes\<close>

text \<open>
  \<open>spells F w ks\<close>: wherever the lexer stands before \<open>w\<close> and the text after \<open>w\<close> satisfies \<open>F\<close>, it
  reads exactly the lexemes \<open>ks\<close> and stops behind \<open>w\<close>.
\<close>

definition spells :: "(string \<Rightarrow> bool) \<Rightarrow> string \<Rightarrow> lexeme list \<Rightarrow> bool" where
  "spells F w ks \<longleftrightarrow> (\<forall>pre rest acc. F rest \<longrightarrow> (\<exists>toks. map lexeme toks = ks \<and>
     lex_loop (pre @ w @ rest) acc (length pre) = lex_loop (pre @ w @ rest) (acc @ toks) (length pre + length w)))"

definition anything :: "string \<Rightarrow> bool" where
  "anything rest \<longleftrightarrow> True"

lemma spells_Nil: "spells F [] []"
  by (simp add: spells_def)

lemma spells_append:
  assumes "spells F w ks" and "spells G v ls" and "\<And>rest. G rest \<Longrightarrow> F (v @ rest)"
  shows "spells G (w @ v) (ks @ ls)"
  unfolding spells_def
proof (intro allI impI)
  fix pre rest :: string and acc :: "token list"
  assume "G rest"
  with assms(1,3) obtain t1 where t1: "map lexeme t1 = ks"
      "lex_loop (pre @ w @ (v @ rest)) acc (length pre) = lex_loop (pre @ w @ (v @ rest)) (acc @ t1) (length pre + length w)"
    unfolding spells_def by blast
  from assms(2) \<open>G rest\<close> obtain t2 where t2: "map lexeme t2 = ls"
      "lex_loop ((pre @ w) @ v @ rest) (acc @ t1) (length (pre @ w)) =
       lex_loop ((pre @ w) @ v @ rest) ((acc @ t1) @ t2) (length (pre @ w) + length v)"
    unfolding spells_def by blast
  show "\<exists>toks. map lexeme toks = ks @ ls \<and>
     lex_loop (pre @ (w @ v) @ rest) acc (length pre) = lex_loop (pre @ (w @ v) @ rest) (acc @ toks) (length pre + length (w @ v))"
    by (rule exI [of _ "t1 @ t2"]) (use t1 t2 in \<open>simp add: add.assoc\<close>)
qed

lemma byte_at_append [simp]: "byte_at (pre @ w) (length pre + n) = byte_at w n"
  by (simp add: byte_at_def nth_append)

lemma byte_at_append0 [simp]: "byte_at (pre @ w) (length pre) = byte_at w 0"
  by (simp add: byte_at_def nth_append)

lemma byte_at_Cons: "byte_at (c # w) n = (case n of 0 \<Rightarrow> Some c | Suc m \<Rightarrow> byte_at w m)"
  by (auto simp: byte_at_def split: nat.splits)

lemma skip_trivia_here:
  assumes "byte_at s pos = Some c" and "\<not> is_ascii_whitespace c" and "c \<noteq> CHR ''/''"
  shows "skip_trivia s pos = Ok pos"
proof -
  have "skip_while is_ascii_whitespace s pos = pos"
    using assms(1,2) by (subst skip_while.simps) (auto simp: byte_at_Some)
  then show ?thesis using assms by (subst skip_trivia.simps) simp
qed

lemma spells_space: "spells anything '' '' []"
proof -
  have "lex_loop (pre @ CHR '' '' # rest) acc (length pre) = lex_loop (pre @ CHR '' '' # rest) acc (Suc (length pre))"
    for pre rest acc
  proof -
    let ?s = "pre @ CHR '' '' # rest"
    have "skip_while is_ascii_whitespace ?s (length pre) = skip_while is_ascii_whitespace ?s (Suc (length pre))"
      by (subst skip_while.simps) (simp add: is_ascii_whitespace_def)
    then have "skip_trivia ?s (length pre) = skip_trivia ?s (Suc (length pre))"
      by (simp only: skip_trivia.simps [of ?s "length pre"] skip_trivia.simps [of ?s "Suc (length pre)"])
    then show ?thesis
      by (simp only: lex_loop.simps [of ?s acc "length pre"] lex_loop.simps [of ?s acc "Suc (length pre)"])
  qed
  then show ?thesis by (simp add: spells_def)
qed

lemma spells_token:
  assumes "w \<noteq> []" and "\<not> is_ascii_whitespace (hd w)" and "hd w \<noteq> CHR ''/''"
    and tok: "\<And>pre rest. F rest \<Longrightarrow>
       \<exists>t. lex_token (pre @ w @ rest) (length pre) (hd w) = Ok (t, length pre + length w) \<and> lexeme t = k"
  shows "spells F w [k]"
  unfolding spells_def
proof (intro allI impI)
  fix pre rest :: string and acc :: "token list"
  let ?s = "pre @ w @ rest"
  assume "F rest"
  with tok obtain t where t: "lex_token ?s (length pre) (hd w) = Ok (t, length pre + length w)" "lexeme t = k" by blast
  have b: "byte_at ?s (length pre) = Some (hd w)" using assms(1) by (cases w) (auto simp: byte_at_Cons)
  have "lex_loop ?s acc (length pre) = lex_loop ?s (acc @ [t]) (length pre + length w)"
    by (simp add: lex_loop.simps [of ?s acc "length pre"] skip_trivia_here [OF b assms(2,3)] b t(1) del: byte_at_append0)
  with t(2) show "\<exists>toks. map lexeme toks = [k] \<and> lex_loop ?s acc (length pre) = lex_loop ?s (acc @ toks) (length pre + length w)"
    by (intro exI [of _ "[t]"]) simp
qed

text \<open>Punctuation.\<close>

lemma byte_at_second [simp]: "byte_at (pre @ c # rest) (Suc (length pre)) = byte_at rest 0"
  by (simp add: byte_at_def nth_append)

lemma byte_at_zero: "byte_at rest 0 = (case rest of [] \<Rightarrow> None | d # _ \<Rightarrow> Some d)"
  by (simp add: byte_at_def split: list.splits)

lemma spells_punct_char:
  assumes "\<not> is_ascii_whitespace c" and "c \<noteq> CHR ''/''"
    and "\<And>pre rest. F rest \<Longrightarrow> lex_token (pre @ c # rest) (length pre) c = Ok (punct k (length pre))"
  shows "spells F [c] [(k, [])]"
  using assms by (intro spells_token) (auto simp: punct_def punct_width_def lexeme_def)

lemma spells_wide_chars:
  assumes "\<not> is_ascii_whitespace c" and "c \<noteq> CHR ''/''"
    and "\<And>pre rest. F rest \<Longrightarrow> lex_token (pre @ c # d # rest) (length pre) c = Ok (wide_punct k (length pre))"
  shows "spells F [c, d] [(k, [])]"
  using assms by (intro spells_token) (auto simp: wide_punct_def punct_width_def lexeme_def)

definition not_before :: "char \<Rightarrow> string \<Rightarrow> bool" where
  "not_before c rest \<longleftrightarrow> (case rest of [] \<Rightarrow> True | d # _ \<Rightarrow> d \<noteq> c)"

lemma spells_punct:
  "spells anything '','' [(Comma, [])]" "spells anything ''('' [(LParen, [])]" "spells anything '')'' [(RParen, [])]"
  "spells anything ''['' [(LBracket, [])]" "spells anything '']'' [(RBracket, [])]"
  "spells anything ''{'' [(LBrace, [])]" "spells anything ''}'' [(RBrace, [])]"
  "spells anything ''?'' [(Question, [])]" "spells anything ''@'' [(At, [])]" "spells anything ''*'' [(Star, [])]"
  "spells (not_before CHR ''|'') ''|'' [(Pipe, [])]" "spells (not_before CHR ''='') ''!'' [(Bang, [])]"
  by (rule spells_punct_char; simp add: is_ascii_whitespace_def lex_token_def not_before_def byte_at_zero split: list.splits)+

lemma spells_wide:
  "spells anything ''||'' [(OrOr, [])]" "spells anything ''=='' [(EqEq, [])]" "spells anything ''!='' [(Neq, [])]"
  "spells anything ''~='' [(TMatch, [])]"
  by (rule spells_wide_chars; simp add: is_ascii_whitespace_def lex_token_def byte_at_zero)+

section \<open>Identifiers\<close>

text \<open>Text that lexes as one identifier: no escapes, templates or wildcards, and no two dots in a row.\<close>

definition ident_char :: "char \<Rightarrow> bool" where
  "ident_char c \<longleftrightarrow> is_ident_continue c \<or> c = CHR ''.''"

fun no_dots :: "string \<Rightarrow> bool" where
  "no_dots (c # d # w) \<longleftrightarrow> \<not> (c = CHR ''.'' \<and> d = CHR ''.'') \<and> no_dots (d # w)"
| "no_dots _ \<longleftrightarrow> True"

definition ident :: "string \<Rightarrow> bool" where
  "ident w \<longleftrightarrow> (case w of [] \<Rightarrow> False | c # _ \<Rightarrow> is_ident_start c) \<and> list_all ident_char w \<and> no_dots w"

text \<open>What may follow an identifier.\<close>

definition delim :: "string \<Rightarrow> bool" where
  "delim rest \<longleftrightarrow> (case rest of [] \<Rightarrow> True | d # _ \<Rightarrow> d \<in> set '' ,|()}]'')"

lemma lex_ident_loop_word:
  assumes "list_all ident_char w" and "no_dots w" and "delim rest"
  shows "lex_ident_loop (pre @ w @ rest) start acc (length pre) = finish_ident start (acc @ w) (length pre + length w)"
  using assms(1,2)
proof (induction w arbitrary: pre acc)
  case Nil
  have "lex_ident_loop (pre @ rest) start acc (length pre) = finish_ident start acc (length pre)"
  proof (cases rest)
    case Nil
    then show ?thesis by (subst lex_ident_loop.simps) (simp add: byte_at_def)
  next
    case (Cons d r)
    then have "d \<in> set '' ,|()}]''" using assms(3) by (simp add: delim_def)
    then have "\<not> is_ident_continue d" "d \<noteq> CHR ''.''" "d \<noteq> CHR 0x5C" "d \<noteq> CHR ''*''" "d \<noteq> CHR ''<''" "d \<noteq> CHR ''>''"
      by (auto simp: is_ident_continue_def is_ident_start_def is_ascii_alphabetic_def is_digit_def)
    then show ?thesis by (subst lex_ident_loop.simps) (simp add: Cons byte_at_zero)
  qed
  then show ?case by simp
next
  case (Cons c w)
  have nd: "\<not> (c = CHR ''.'' \<and> byte_at (w @ rest) 0 = Some (CHR ''.''))"
    using Cons.prems(2) assms(3) by (cases w) (auto simp: byte_at_zero delim_def split: list.splits)
  have "lex_ident_loop (pre @ c # w @ rest) start acc (length pre) = lex_ident_loop (pre @ c # w @ rest) start (acc @ [c]) (length pre + 1)"
    using Cons.prems(1) nd by (subst lex_ident_loop.simps) (auto simp: byte_at_Cons ident_char_def)
  also have "\<dots> = finish_ident start ((acc @ [c]) @ w) (length (pre @ [c]) + length w)"
    using Cons.IH [of "pre @ [c]" "acc @ [c]"] Cons.prems by (cases w) auto
  finally show ?case by simp
qed

lemma spells_ident:
  assumes "ident w" shows "spells delim w [(Ident, w)]"
proof -
  obtain c v where w: "w = c # v" and c: "is_ident_start c" using assms by (auto simp: ident_def split: list.splits)
  have no: "c \<notin> set ([CHR '','', CHR ''('', CHR '')'', CHR ''['', CHR '']'', CHR ''{'', CHR ''}'', CHR ''?'', CHR ''@'', CHR ''*'', CHR ''|'',
      CHR ''='', CHR ''!'', CHR ''~'', CHR 0x22, CHR ''-'', CHR ''/'', CHR '' ''])" "\<not> is_digit c" "\<not> is_ascii_whitespace c"
    using c by (auto simp: is_ident_start_def is_ascii_alphabetic_def is_digit_def is_ascii_whitespace_def)
  show ?thesis
  proof (rule spells_token)
    fix pre rest :: string
    assume d: "delim rest"
    have "lex_token (pre @ w @ rest) (length pre) c = lex_ident (pre @ w @ rest) (length pre)"
      unfolding lex_token_def Let_def using no c by simp
    also have "\<dots> = finish_ident (length pre) w (length pre + length w)"
      using lex_ident_loop_word [of w rest pre "length pre" "[]"] assms d by (simp add: lex_ident_def ident_def)
    finally show "\<exists>t. lex_token (pre @ w @ rest) (length pre) (hd w) = Ok (t, length pre + length w) \<and> lexeme t = (Ident, w)"
      by (simp add: w finish_ident_def lexeme_def)
  qed (use w no in auto)
qed

section \<open>Strings\<close>

definition good_char :: "string \<Rightarrow> bool" where
  "good_char ch \<longleftrightarrow> ch \<noteq> [] \<and> \<not> cont (of_char (hd ch)) \<and> length ch = utf8_len (hd ch)"

lemma chars_Nil [simp]: "chars [] = []"
  by (subst chars.simps) (simp add: next_char_def)

lemma chars_good:
  assumes "utf8 m" and "ch \<in> set (chars m)"
  shows "good_char ch"
  using assms
proof (induction m rule: chars.induct)
  case (1 m)
  show ?case
  proof (cases "m = []")
    case True
    with 1(3) show ?thesis by simp
  next
    case False
    from utf8_next_char [OF 1(2) False] obtain c0 where c0: "next_char m = Some c0" "utf8 c0" "is_boundary m (length c0)"
      "c0 = take (utf8_len (hd m)) m" by blast
    have u: "utf8 (drop (length c0) m)" using utf8_split(2) [OF 1(2) c0(3)] .
    have "utf8_codes (map of_char m)" "map (of_char :: char \<Rightarrow> nat) m \<noteq> []" using 1(2) False by (auto simp: utf8_def)
    then obtain c r where c: "map of_char m = c @ r" "utf8_char c" by (rule utf8_codes_cases)
    then have hd: "hd c = of_char (hd m)" using False by (cases m; cases c) (auto simp: utf8_char_def)
    have "utf8_len (hd m) = length c" using c(2) hd by (simp add: utf8_char_def utf8_len_def Let_def)
    moreover have "length c \<le> length m" using c(1) by (metis length_append length_map le_add1)
    ultimately have "good_char c0" using c0(4) c(2) hd False
      by (cases m) (auto simp: good_char_def utf8_char_def utf8_len_def Let_def split: if_splits)
    with 1(1) [OF c0(1) u] 1(3) c0(1) show ?thesis by (auto simp: chars.simps [of m])
  qed
qed

lemma next_char_good: "good_char ch \<Longrightarrow> next_char (ch @ r) = Some ch"
  by (cases ch) (auto simp: next_char_def good_char_def dest!: sym [of "Suc _"])

lemma slice_from_good: "good_char ch \<Longrightarrow> slice_from (pre @ ch @ r) (length pre) = Ok (ch @ r)"
  by (cases ch) (auto simp: slice_from_def is_boundary_def good_char_def)

definition escape_char :: "string \<Rightarrow> string" where
  "escape_char c = (if c = [CHR 0x22] \<or> c = [CHR 0x5C] then [CHR 0x5C] @ c else c)"

lemma lex_string_loop_escaped:
  assumes "\<forall>ch \<in> set cs. good_char ch"
  shows "lex_string_loop (pre @ concat (map escape_char cs) @ CHR 0x22 # rest) start acc (length pre) =
    Ok (\<lparr>tk_kind = Str, tk_text = acc @ concat cs,
         tk_span = \<lparr>span_start = start, span_end = length pre + length (concat (map escape_char cs)) + 1\<rparr>\<rparr>,
        length pre + length (concat (map escape_char cs)) + 1)"
  using assms
proof (induction cs arbitrary: pre acc)
  case Nil
  show ?case by (subst lex_string_loop.simps) (simp add: byte_at_zero)
next
  case (Cons ch cs)
  let ?tail = "concat (map escape_char cs) @ CHR 0x22 # rest"
  have g: "good_char ch" using Cons.prems by simp
  show ?case
  proof (cases "ch = [CHR 0x22] \<or> ch = [CHR 0x5C]")
    case True
    let ?pre = "pre @ [CHR 0x5C]"
    have sl: "slice_from (pre @ CHR 0x5C # ch @ ?tail) (Suc (length pre)) = (Ok (ch @ ?tail) :: (parse_error, string) res)"
      using slice_from_good [OF g, of ?pre ?tail] by simp
    have "lex_string_loop (pre @ CHR 0x5C # ch @ ?tail) start acc (length pre) =
        lex_string_loop (pre @ CHR 0x5C # ch @ ?tail) start (acc @ ch) (length pre + 1 + length ch)"
      by (subst lex_string_loop.simps) (simp add: byte_at_zero sl next_char_good [OF g])
    moreover have "escape_char ch = CHR 0x5C # ch" using True by (simp add: escape_char_def)
    ultimately show ?thesis using Cons.IH [of "?pre @ ch" "acc @ ch"] Cons.prems by simp
  next
    case False
    have "hd ch \<noteq> CHR 0x22" "hd ch \<noteq> CHR 0x5C" using g False by (auto simp: good_char_def utf8_len_def length_Suc_conv)
    then have b: "byte_at (ch @ ?tail) 0 = Some (hd ch)" and ne: "hd ch \<noteq> CHR 0x22" "hd ch \<noteq> CHR 0x5C"
      using g by (cases ch; auto simp: byte_at_zero good_char_def)+
    have "lex_string_loop (pre @ ch @ ?tail) start acc (length pre) =
        lex_string_loop (pre @ ch @ ?tail) start (acc @ ch) (length pre + length ch)"
      using ne by (subst lex_string_loop.simps) (simp add: b slice_from_good [OF g] next_char_good [OF g])
    moreover have "escape_char ch = ch" using False by (simp add: escape_char_def)
    ultimately show ?thesis using Cons.IH [of "pre @ ch" "acc @ ch"] Cons.prems by simp
  qed
qed

lemma spells_string:
  assumes "utf8 m"
  shows "spells anything ([CHR 0x22] @ escaped_string m @ [CHR 0x22]) [(Str, m)]"
proof (rule spells_token)
  fix pre rest :: string
  have esc: "escaped_string m = concat (map escape_char (chars m))"
    by (simp add: escaped_string_def escape_char_def [abs_def])
  have "lex_token (pre @ ([CHR 0x22] @ escaped_string m @ [CHR 0x22]) @ rest) (length pre) (CHR 0x22) =
      lex_string_loop ((pre @ [CHR 0x22]) @ concat (map escape_char (chars m)) @ CHR 0x22 # rest) (length pre) [] (length (pre @ [CHR 0x22]))"
    by (simp add: lex_token_def lex_string_def esc)
  also have "\<dots> = Ok (\<lparr>tk_kind = Str, tk_text = m,
      tk_span = \<lparr>span_start = length pre, span_end = length pre + length (escaped_string m) + 2\<rparr>\<rparr>, length pre + length (escaped_string m) + 2)"
    using chars_good [OF assms] by (subst lex_string_loop_escaped) (auto simp: concat_chars esc)
  finally show "\<exists>t. lex_token (pre @ ([CHR 0x22] @ escaped_string m @ [CHR 0x22]) @ rest) (length pre)
      (hd ([CHR 0x22] @ escaped_string m @ [CHR 0x22])) = Ok (t, length pre + length ([CHR 0x22] @ escaped_string m @ [CHR 0x22]))
      \<and> lexeme t = (Str, m)"
    by (simp add: lexeme_def)
qed (simp_all add: is_ascii_whitespace_def)

section \<open>Canonical trees\<close>

text \<open>
  The trees whose rendering can be read back: names are plain identifiers or lookup paths, are not
  taken for variables, wildcards or entity ids, and are not reserved where they stand; the separator
  of extra arguments is recorded only when there are any.
\<close>

definition canon_name :: "string \<Rightarrow> bool" where
  "canon_name n \<longleftrightarrow> ident n \<and> hd n \<noteq> CHR ''$'' \<and> hd n \<noteq> CHR 0x23 \<and> n \<noteq> ''_''"

fun canon_expr :: "ref_expr \<Rightarrow> bool" where
  "canon_expr (Name n) \<longleftrightarrow> canon_name n"
| "canon_expr (Var n) \<longleftrightarrow> ident (CHR ''$'' # n) \<and> n \<noteq> ''this''"
| "canon_expr (Value e) \<longleftrightarrow> canon_expr e"
| "canon_expr _ \<longleftrightarrow> True"

definition canon_traversal :: "traversal option \<Rightarrow> bool" where
  "canon_traversal o' \<longleftrightarrow> (case o' of None \<Rightarrow> True | Some t \<Rightarrow> wf_traversal t
     \<and> (case tv_rel t of None \<Rightarrow> True | Some rel \<Rightarrow> ident rel \<and> \<not> is_traversal_flag rel))"

definition canon_first :: "reference \<Rightarrow> bool" where
  "canon_first r \<longleftrightarrow> operand (rf_expr r) \<and> canon_expr (rf_expr r) \<and> canon_traversal (rf_traversal r)"

definition canon_arg :: "reference \<Rightarrow> bool" where
  "canon_arg r \<longleftrightarrow> wf_arg r \<and> canon_expr (rf_expr r) \<and> canon_traversal (rf_traversal r)
     \<and> (case rf_expr r of Name n \<Rightarrow> \<not> is_traversal_flag n | _ \<Rightarrow> True)"

definition canon_id :: "id_term \<Rightarrow> bool" where
  "canon_id i \<longleftrightarrow> canon_first (id_first i)
     \<and> (case id_src i of Explicit r \<Rightarrow> canon_arg r | _ \<Rightarrow> True)
     \<and> (case id_second i of Some r \<Rightarrow> canon_arg r | None \<Rightarrow> True)
     \<and> list_all canon_arg (id_extra i)
     \<and> (id_src i = EmptySrc \<longrightarrow> id_second i = None)
     \<and> (id_second i = None \<longrightarrow> id_extra i = [])
     \<and> (id_extra i = [] \<longrightarrow> id_extra_oper i = XAnd)
     \<and> length (id_extra i) < TERM_ARG_COUNT_MAX"

definition canon_eq :: "oper \<Rightarrow> eq_term \<Rightarrow> bool" where
  "canon_eq oper e \<longleftrightarrow> wf_eq oper e \<and> canon_expr (eq_left e)
     \<and> (case eq_right e of
          RefOperand r \<Rightarrow> canon_expr r
        | NameOperand m \<Rightarrow> utf8 m \<and> (eq_kind e = MatchOp \<and> oper \<noteq> ONot \<longrightarrow> not_before CHR ''!'' m))"

definition unreserved :: "ref_expr \<Rightarrow> bool" where
  "unreserved e \<longleftrightarrow> (case e of Name n \<Rightarrow> keyword_of n = None | _ \<Rightarrow> True)"

fun canon_term :: "nat \<Rightarrow> qterm \<Rightarrow> bool" where
  "canon_term d (QTerm acc oper (IdBody i)) \<longleftrightarrow> canon_id i \<and> (id_flag i \<noteq> None \<longrightarrow> oper \<in> {OAnd, OOr})
     \<and> (oper \<in> {OAnd, OOr} \<and> id_flag i = None \<and> (id_src i \<noteq> Implicit \<or> id_second i = None) \<longrightarrow> unreserved (rf_expr (id_first i)))"
| "canon_term d (QTerm acc oper (EqBody e)) \<longleftrightarrow> canon_eq oper e \<and> unreserved (eq_left e)"
| "canon_term d (QTerm acc oper (ScopeBody ts)) \<longleftrightarrow>
     0 < d \<and> acc = None \<and> oper \<in> {OAnd, OOr, ONot, OOptional}
     \<and> (\<forall>t \<in> set ts. canon_term (d - 1) t) \<and> (ts \<noteq> [] \<longrightarrow> t_oper (last ts) \<noteq> OOr)"

definition canonical :: "flecs_query \<Rightarrow> bool" where
  "canonical q \<longleftrightarrow> (\<forall>t \<in> set (q_terms q). canon_term SCOPE_DEPTH_MAX t)
     \<and> (q_terms q \<noteq> [] \<longrightarrow> t_oper (last (q_terms q)) \<noteq> OOr)"

section \<open>The lexemes of a tree\<close>

fun expr_lex :: "ref_expr \<Rightarrow> lexeme list" where
  "expr_lex (Name n) = [(Ident, n)]"
| "expr_lex This = [(Ident, ''$this'')]"
| "expr_lex (Var n) = [(Ident, CHR ''$'' # n)]"
| "expr_lex Wildcard = [(Star, [])]"
| "expr_lex AnyRef = [(Ident, ''_'')]"
| "expr_lex (Entity n) = [(Ident, CHR 0x23 # show_nat (unat n))]"
| "expr_lex (Value e) = (At, []) # expr_lex e"
| "expr_lex Implied = []"

fun flags_lex :: "string list \<Rightarrow> lexeme list" where
  "flags_lex [] = []"
| "flags_lex [w] = [(Ident, w)]"
| "flags_lex (w # ws) = (Ident, w) # (Pipe, []) # flags_lex ws"

definition traversal_lex :: "traversal \<Rightarrow> lexeme list" where
  "traversal_lex t = flags_lex (traversal_flags t) @ (case tv_rel t of None \<Rightarrow> [] | Some rel \<Rightarrow> [(Ident, rel)])"

definition ref_lex :: "reference \<Rightarrow> lexeme list" where
  "ref_lex r = (case (rf_expr r, rf_traversal r) of
       (Implied, Some t) \<Rightarrow> traversal_lex t
     | (Implied, None) \<Rightarrow> []
     | (e, Some t) \<Rightarrow> expr_lex e @ (Pipe, []) # traversal_lex t
     | (e, None) \<Rightarrow> expr_lex e)"

definition extras_lex :: "id_term \<Rightarrow> lexeme list" where
  "extras_lex i = concat (map (\<lambda>r. (case id_extra_oper i of XAnd \<Rightarrow> (Comma, []) | XOr \<Rightarrow> (OrOr, [])) # ref_lex r) (id_extra i))"

definition flag_lex :: "id_flag option \<Rightarrow> lexeme list" where
  "flag_lex f = (case f of
       Some AutoOverride \<Rightarrow> [(Ident, ''auto_override''), (Pipe, [])]
     | Some Toggle \<Rightarrow> [(Ident, ''toggle''), (Pipe, [])]
     | None \<Rightarrow> [])"

definition core_lex :: "id_term \<Rightarrow> lexeme list" where
  "core_lex i = (case id_src i of
          Implicit \<Rightarrow>
            (case id_second i of
               None \<Rightarrow> ref_lex (id_first i)
             | Some second \<Rightarrow> (LParen, []) # ref_lex (id_first i) @ (Comma, []) # ref_lex second @ extras_lex i @ [(RParen, [])])
        | EmptySrc \<Rightarrow> ref_lex (id_first i) @ [(LParen, []), (RParen, [])]
        | Explicit src \<Rightarrow>
            ref_lex (id_first i) @ (LParen, []) # ref_lex src
            @ (case id_second i of None \<Rightarrow> [] | Some second \<Rightarrow> (Comma, []) # ref_lex second @ extras_lex i) @ [(RParen, [])])"

definition eq_lex :: "eq_term \<Rightarrow> bool \<Rightarrow> lexeme list" where
  "eq_lex e negated = expr_lex (eq_left e) @
     (case (eq_kind e, negated, eq_right e) of
        (MatchOp, True, NameOperand n) \<Rightarrow> [(TMatch, []), (Str, CHR ''!'' # n)]
      | (k, n, right) \<Rightarrow>
          (case (k, n) of (EqualOp, False) \<Rightarrow> (EqEq, []) | (EqualOp, True) \<Rightarrow> (Neq, []) | _ \<Rightarrow> (TMatch, []))
          # (case right of RefOperand r \<Rightarrow> expr_lex r | NameOperand m \<Rightarrow> [(Str, m)]))"

definition oper_lex :: "oper \<Rightarrow> bool \<Rightarrow> lexeme list" where
  "oper_lex oper negated_eq = (case oper of
       OAnd \<Rightarrow> [] | OOr \<Rightarrow> []
     | ONot \<Rightarrow> if negated_eq then [] else [(Bang, [])]
     | OOptional \<Rightarrow> [(Question, [])]
     | OAndFrom \<Rightarrow> [(Ident, ''and''), (Pipe, [])]
     | OOrFrom \<Rightarrow> [(Ident, ''or''), (Pipe, [])]
     | ONotFrom \<Rightarrow> [(Ident, ''not''), (Pipe, [])])"

definition access_word :: "access \<Rightarrow> string" where
  "access_word a = (case a of AccDefault \<Rightarrow> ''default'' | AccIn \<Rightarrow> ''in'' | AccOut \<Rightarrow> ''out''
     | AccInOut \<Rightarrow> ''inout'' | AccNone \<Rightarrow> ''none'' | AccFilter \<Rightarrow> ''filter'')"

definition access_lex :: "access option \<Rightarrow> lexeme list" where
  "access_lex a = (case a of None \<Rightarrow> [] | Some a \<Rightarrow> [(LBracket, []), (Ident, access_word a), (RBracket, [])])"

fun join_lex :: "(oper \<times> lexeme list) list \<Rightarrow> lexeme list" where
  "join_lex [] = []"
| "join_lex [(_, w)] = w"
| "join_lex ((oper, w) # ws) = w @ (if oper = OOr then (OrOr, []) else (Comma, [])) # join_lex ws"

fun term_lex :: "qterm \<Rightarrow> lexeme list" where
  "term_lex (QTerm acc oper body) =
     access_lex acc @ oper_lex oper (case body of EqBody _ \<Rightarrow> True | _ \<Rightarrow> False)
     @ (case body of
          IdBody i \<Rightarrow> flag_lex (id_flag i) @ core_lex i
        | EqBody e \<Rightarrow> eq_lex e (oper = ONot)
        | ScopeBody ts \<Rightarrow> (LBrace, []) # join_lex (map (\<lambda>t. (t_oper t, term_lex t)) ts) @ [(RBrace, [])])"

definition terms_lex :: "qterm list \<Rightarrow> lexeme list" where
  "terms_lex ts = join_lex (map (\<lambda>t. (t_oper t, term_lex t)) ts)"

end
