(* ===== verification/Flecs_Relex.thy ===== *)
theory Flecs_Relex
  imports Flecs_Respell
begin

text \<open>Lexing the rendering of a canonical tree gives the lexemes of the tree.\<close>

section \<open>Composition\<close>

lemma spells_weaken: "spells F w ks \<Longrightarrow> (\<And>r. G r \<Longrightarrow> F r) \<Longrightarrow> spells G w ks"
  unfolding spells_def by blast

lemma spells_then: "spells anything w ks \<Longrightarrow> spells G v ls \<Longrightarrow> spells G (w @ v) (ks @ ls)"
  by (rule spells_append [where F = anything]) (auto simp: anything_def)

definition opens_delim :: "string \<Rightarrow> bool" where
  "opens_delim v \<longleftrightarrow> (case v of [] \<Rightarrow> False | c # _ \<Rightarrow> c \<in> set '' ,|()}]'')"

lemma spells_delim: "spells delim w ks \<Longrightarrow> spells G v ls \<Longrightarrow> opens_delim v \<Longrightarrow> spells G (w @ v) (ks @ ls)"
  by (rule spells_append [where F = delim]) (auto simp: delim_def opens_delim_def split: list.splits)

text \<open>How an operand begins.\<close>

definition opens :: "string \<Rightarrow> bool" where
  "opens w \<longleftrightarrow> (case w of [] \<Rightarrow> False | c # _ \<Rightarrow> is_ident_start c \<or> c \<in> set ''*@({'')"

lemma opens_not_before: "opens w \<Longrightarrow> c \<in> set ''|='' \<Longrightarrow> not_before c (w @ rest)"
  by (auto simp: opens_def not_before_def is_ident_start_def is_ascii_alphabetic_def split: list.splits)

lemma opens_append: "opens w \<Longrightarrow> opens (w @ v)"
  by (auto simp: opens_def split: list.splits)

lemma spells_pipe: "spells G v ls \<Longrightarrow> opens v \<Longrightarrow> spells G (CHR ''|'' # v) ((Pipe, []) # ls)"
  using spells_append [OF spells_punct(11), of G v ls] opens_not_before [of v "CHR ''|''"] by simp

lemma spells_bang: "spells G v ls \<Longrightarrow> opens v \<Longrightarrow> spells G (CHR ''!'' # v) ((Bang, []) # ls)"
  using spells_append [OF spells_punct(12), of G v ls] opens_not_before [of v "CHR ''=''"] by simp

lemma spells_chars:
  "spells G v ls \<Longrightarrow> spells G (CHR '' '' # v) ls"
  "spells G v ls \<Longrightarrow> spells G (CHR '','' # v) ((Comma, []) # ls)"
  "spells G v ls \<Longrightarrow> spells G (CHR ''('' # v) ((LParen, []) # ls)"
  "spells G v ls \<Longrightarrow> spells G (CHR '')'' # v) ((RParen, []) # ls)"
  "spells G v ls \<Longrightarrow> spells G (CHR ''['' # v) ((LBracket, []) # ls)"
  "spells G v ls \<Longrightarrow> spells G (CHR '']'' # v) ((RBracket, []) # ls)"
  "spells G v ls \<Longrightarrow> spells G (CHR ''{'' # v) ((LBrace, []) # ls)"
  "spells G v ls \<Longrightarrow> spells G (CHR ''}'' # v) ((RBrace, []) # ls)"
  "spells G v ls \<Longrightarrow> spells G (CHR ''?'' # v) ((Question, []) # ls)"
  "spells G v ls \<Longrightarrow> spells G (CHR ''@'' # v) ((At, []) # ls)"
  "spells G v ls \<Longrightarrow> spells G (CHR ''*'' # v) ((Star, []) # ls)"
  "spells G v ls \<Longrightarrow> spells G (CHR ''|'' # CHR ''|'' # v) ((OrOr, []) # ls)"
  "spells G v ls \<Longrightarrow> spells G (CHR ''='' # CHR ''='' # v) ((EqEq, []) # ls)"
  "spells G v ls \<Longrightarrow> spells G (CHR ''!'' # CHR ''='' # v) ((Neq, []) # ls)"
  "spells G v ls \<Longrightarrow> spells G (CHR ''~'' # CHR ''='' # v) ((TMatch, []) # ls)"
  using spells_then [OF spells_space] spells_punct(1-10) [THEN spells_then] spells_wide [THEN spells_then]
  by fastforce+

section \<open>References\<close>

lemma chars_ascii: "list_all ascii s \<Longrightarrow> chars s = map (\<lambda>c. [c]) s"
proof (induction s)
  case (Cons c s)
  then have "next_char (c # s) = Some [c]" by (simp add: next_char_def utf8_len_def ascii_def)
  with Cons show ?case by (simp add: chars.simps [of "c # s"])
qed simp

lemma ident_char_cases:
  assumes "ident_char c"
  shows "ascii c" "name_char [c]" "c \<noteq> CHR ''<''" "c \<noteq> CHR ''>''" "c \<noteq> CHR 0x5C"
  using assms
  by (auto simp: ident_char_def ascii_def name_char_def is_ascii_alphanumeric_def is_ident_continue_def
      is_ident_start_def is_ascii_alphabetic_def is_digit_def Let_def)

lemma escape_ident_chars: "list_all ident_char n \<Longrightarrow> escape_name_loop 0 (map (\<lambda>c. [c]) n) = n"
  by (induction n) (auto simp: ident_char_cases)

lemma escaped_ident: "ident n \<Longrightarrow> escaped_name n = n"
  by (simp add: escaped_name_def chars_ascii ident_char_cases(1) escape_ident_chars ident_def list_all_iff)

lemma ident_opens: "ident n \<Longrightarrow> opens n"
  by (auto simp: ident_def opens_def split: list.splits)

lemma digits_no_dots: "list_all is_digit ds \<Longrightarrow> no_dots ds"
  by (induction ds rule: no_dots.induct) (auto simp: is_digit_def)

lemma ident_entity: "ident (CHR 0x23 # show_nat n)"
proof -
  have d: "list_all is_digit (show_nat n)" by (auto simp: list_all_iff intro: show_nat_digits)
  then have "list_all ident_char (show_nat n)" by (auto simp: list_all_iff ident_char_def is_ident_continue_def)
  moreover have "no_dots (CHR 0x23 # show_nat n)" using digits_no_dots [OF d] by (cases "show_nat n") auto
  ultimately show ?thesis
    by (simp add: ident_def is_ident_start_def ident_char_def is_ident_continue_def)
qed

lemma ident_words: "ident ''$this''" "ident ''_''"
  by code_simp+

lemma spells_expr:
  assumes "operand e" and "canon_expr e"
  shows "spells delim (show_ref_expr e) (expr_lex e)" and "opens (show_ref_expr e)"
proof -
  have id: "spells delim w [(Ident, w)] \<and> opens w" if "ident w" for w
    using that spells_ident ident_opens by simp
  have "spells delim (show_ref_expr e) (expr_lex e) \<and> opens (show_ref_expr e)"
  proof (cases e)
    case (Name n)
    with assms(2) show ?thesis using id [of n] by (simp add: canon_name_def escaped_ident)
  next
    case (Entity n)
    then show ?thesis using id [OF ident_entity] by simp
  next
    case Wildcard
    then show ?thesis using spells_weaken [OF spells_punct(10), of delim] by (simp add: anything_def opens_def)
  next
    case (Var n)
    then show ?thesis using assms id by simp
  qed (use assms id ident_words in auto)
  then show "spells delim (show_ref_expr e) (expr_lex e)" "opens (show_ref_expr e)" by auto
qed

lemma ident_flags: "w \<in> set (traversal_flags t) \<Longrightarrow> ident w \<and> is_traversal_flag w"
proof -
  have "ident ''self''" "ident ''up''" "ident ''cascade''" "ident ''desc''" by code_simp+
  then show "w \<in> set (traversal_flags t) \<Longrightarrow> ident w \<and> is_traversal_flag w"
    by (auto simp: traversal_flags_def is_traversal_flag_def split: if_splits)
qed

lemma spells_flags:
  assumes "\<forall>w \<in> set ws. ident w" and "ws \<noteq> []"
  shows "spells delim (intersperse ''|'' ws) (flags_lex ws) \<and> opens (intersperse ''|'' ws)"
  using assms
proof (induction ws rule: flags_lex.induct)
  case (2 w)
  then show ?case by (simp add: spells_ident ident_opens)
next
  case (3 w v vs)
  then have "spells delim (CHR ''|'' # intersperse ''|'' (v # vs)) ((Pipe, []) # flags_lex (v # vs))" by (intro spells_pipe) auto
  with 3 show ?case using spells_delim [OF spells_ident [of w]] ident_opens [of w]
    by (simp add: opens_delim_def opens_append)
qed simp

lemma traversal_flags_nonempty: "wf_traversal t \<Longrightarrow> traversal_flags t \<noteq> []"
  by (auto simp: wf_traversal_def traversal_flags_def)

lemma spells_traversal:
  assumes "canon_traversal (Some t)"
  shows "spells delim (show_traversal t) (traversal_lex t)" and "opens (show_traversal t)"
proof -
  have ne: "traversal_flags t \<noteq> []" using assms by (intro traversal_flags_nonempty) (auto simp: canon_traversal_def split: option.splits)
  note fl = spells_flags [of "traversal_flags t"]
  have rel: "spells delim (CHR '' '' # rel) [(Ident, rel)]" if "tv_rel t = Some rel" for rel
    using assms that by (intro spells_chars(1) spells_ident) (auto simp: canon_traversal_def)
  show "spells delim (show_traversal t) (traversal_lex t)"
    using fl ne ident_flags spells_delim [OF _ rel]
    by (auto simp: show_traversal_def traversal_lex_def opens_delim_def split: option.splits)
  show "opens (show_traversal t)" using fl ne ident_flags by (auto simp: show_traversal_def intro: opens_append)
qed

lemma spells_ref:
  assumes "canon_expr (rf_expr r)" and "canon_traversal (rf_traversal r)" and "wf_arg r"
  shows "spells delim (show_ref r) (ref_lex r)" and "opens (show_ref r)"
proof -
  have "spells delim (show_ref r) (ref_lex r) \<and> opens (show_ref r)"
  proof (cases "rf_expr r = Implied")
    case True
    then obtain t where "rf_traversal r = Some t" using assms(3) by (auto simp: wf_arg_def)
    with True assms(2) show ?thesis using spells_traversal by (simp add: show_ref_def ref_lex_def)
  next
    case False
    have e: "spells delim (show_ref_expr (rf_expr r)) (expr_lex (rf_expr r)) \<and> opens (show_ref_expr (rf_expr r))"
    proof (cases "rf_expr r")
      case (Value v)
      then have "spells delim (show_ref_expr v) (expr_lex v)" using assms(1,3) by (intro spells_expr) (auto simp: wf_arg_def)
      with Value show ?thesis using spells_chars(10) by (simp add: opens_def)
    qed (use spells_expr [of "rf_expr r"] assms False in auto)
    show ?thesis
    proof (cases "rf_traversal r")
      case None
      with e False show ?thesis by (cases "rf_expr r") (auto simp: show_ref_def ref_lex_def)
    next
      case (Some t)
      have "spells delim (CHR ''|'' # show_traversal t) ((Pipe, []) # traversal_lex t)"
        using spells_traversal [of t] assms(2) Some by (intro spells_pipe) auto
      from spells_delim [OF conjunct1 [OF e] this] opens_append [OF conjunct2 [OF e], of "CHR ''|'' # show_traversal t"]
        Some False show ?thesis
        by (cases "rf_expr r") (auto simp: show_ref_def ref_lex_def opens_delim_def)
    qed
  qed
  then show "spells delim (show_ref r) (ref_lex r)" "opens (show_ref r)" by auto
qed

lemma spells_arg: "canon_arg r \<Longrightarrow> spells delim (show_ref r) (ref_lex r)" "canon_arg r \<Longrightarrow> opens (show_ref r)"
  by (auto simp: canon_arg_def intro: spells_ref)

lemma canon_first_wf_arg: "canon_first r \<Longrightarrow> wf_arg r"
  by (cases "rf_expr r")
    (auto simp: canon_first_def wf_arg_def wf_traversal_opt_def canon_traversal_def split: option.splits)

lemma spells_first: "canon_first r \<Longrightarrow> spells delim (show_ref r) (ref_lex r)" "canon_first r \<Longrightarrow> opens (show_ref r)"
  using canon_first_wf_arg [of r] by (auto simp: canon_first_def intro: spells_ref)

section \<open>Terms\<close>

lemma spells_extras:
  assumes "list_all canon_arg rs"
  shows "spells delim (concat (map (\<lambda>r. (case x of XAnd \<Rightarrow> '', '' | XOr \<Rightarrow> '' || '') @ show_ref r) rs))
    (concat (map (\<lambda>r. (case x of XAnd \<Rightarrow> (Comma, []) | XOr \<Rightarrow> (OrOr, [])) # ref_lex r) rs))"
  using assms
proof (induction rs)
  case (Cons r rs)
  let ?w = "concat (map (\<lambda>r. (case x of XAnd \<Rightarrow> '', '' | XOr \<Rightarrow> '' || '') @ show_ref r) rs)"
  have ih: "spells delim ?w (concat (map (\<lambda>r. (case x of XAnd \<Rightarrow> (Comma, []) | XOr \<Rightarrow> (OrOr, [])) # ref_lex r) rs))"
    using Cons by simp
  have "spells delim (show_ref r @ ?w) (ref_lex r @ concat (map (\<lambda>r. (case x of XAnd \<Rightarrow> (Comma, []) | XOr \<Rightarrow> (OrOr, [])) # ref_lex r) rs))"
  proof (cases rs)
    case Nil
    then show ?thesis using Cons.prems spells_arg(1) [of r] by simp
  next
    case (Cons r' rs')
    then have "opens_delim ?w" by (cases x) (simp_all add: opens_delim_def)
    with ih Cons.prems show ?thesis by (intro spells_delim spells_arg) auto
  qed
  then show ?case by (cases x) (auto intro!: spells_chars)
qed (simp add: spells_Nil)

lemma opens_delim_extras: "rs \<noteq> [] \<Longrightarrow> opens_delim (concat (map (\<lambda>r. (case x of XAnd \<Rightarrow> '', '' | XOr \<Rightarrow> '' || '') @ show_ref r) rs) @ v)"
  by (cases rs; cases x) (auto simp: opens_delim_def)

lemma spells_close: "spells delim w ks \<Longrightarrow> spells anything (w @ '')'') (ks @ [(RParen, [])])"
  by (rule spells_delim [OF _ spells_punct(3)]) (simp_all add: opens_delim_def)

lemma spells_targets:
  assumes "canon_arg r" and "list_all canon_arg (id_extra i)"
  shows "spells anything (show_ref r @ show_extras i @ '')'') (ref_lex r @ extras_lex i @ [(RParen, [])])"
proof -
  have ex: "spells delim (show_extras i) (extras_lex i)"
    unfolding show_extras_def extras_lex_def by (rule spells_extras [OF assms(2)])
  show ?thesis
  proof (cases "id_extra i = []")
    case True
    then show ?thesis using spells_close [OF spells_arg(1) [OF assms(1)]] by (simp add: show_extras_def extras_lex_def)
  next
    case False
    then have "opens_delim (show_extras i @ '')'')" by (simp add: show_extras_def opens_delim_extras)
    then show ?thesis using spells_delim [OF spells_arg(1) [OF assms(1)] spells_close [OF ex]] by simp
  qed
qed

text \<open>The body of an id term without its flag.\<close>

definition show_core :: "id_term \<Rightarrow> string" where
  "show_core i = show_id (i\<lparr>id_flag := None\<rparr>)"

lemma show_extras_flag [simp]: "show_extras (i\<lparr>id_flag := f\<rparr>) = show_extras i"
  by (simp add: show_extras_def)

lemma spells_core:
  assumes "canon_id i"
  shows "spells delim (show_core i) (core_lex i)" and "opens (show_core i)"
proof -
  note c = assms [unfolded canon_id_def]
  have f: "spells delim (show_ref (id_first i)) (ref_lex (id_first i))" "opens (show_ref (id_first i))"
    using c spells_first by auto
  have any: "spells anything w ks \<Longrightarrow> spells delim w ks" for w ks by (erule spells_weaken) (simp add: anything_def)
  have "spells delim (show_core i) (core_lex i) \<and> opens (show_core i)"
  proof (cases "id_src i")
    case Implicit
    show ?thesis
    proof (cases "id_second i")
      case None
      then show ?thesis using f Implicit by (simp add: show_core_def show_id_def core_lex_def)
    next
      case (Some r)
      have "spells anything (show_ref r @ show_extras i @ '')'') (ref_lex r @ extras_lex i @ [(RParen, [])])"
        using c Some by (intro spells_targets) auto
      then have "spells anything (CHR '','' # CHR '' '' # show_ref r @ show_extras i @ '')'') ((Comma, []) # ref_lex r @ extras_lex i @ [(RParen, [])])"
        by (intro spells_chars)
      from spells_chars(3) [OF spells_delim [OF f(1) this]] Some Implicit show ?thesis
        by (auto simp: show_core_def show_id_def core_lex_def opens_delim_def opens_def intro!: any)
    qed
  next
    case EmptySrc
    have "spells anything ''()'' [(LParen, []), (RParen, [])]" by (intro spells_chars spells_punct)
    from spells_delim [OF f(1) this] f(2) EmptySrc show ?thesis
      by (auto simp: show_core_def show_id_def core_lex_def opens_delim_def intro!: any opens_append)
  next
    case (Explicit r)
    then have r: "spells delim (show_ref r) (ref_lex r)" using c spells_arg by auto
    have "spells anything (show_ref r @ (case id_second i of None \<Rightarrow> [] | Some second \<Rightarrow> '', '' @ show_ref second @ show_extras i) @ '')'')
        (ref_lex r @ (case id_second i of None \<Rightarrow> [] | Some second \<Rightarrow> (Comma, []) # ref_lex second @ extras_lex i) @ [(RParen, [])])"
    proof (cases "id_second i")
      case None
      then show ?thesis using spells_close [OF r] by simp
    next
      case (Some r2)
      have "spells anything (show_ref r2 @ show_extras i @ '')'') (ref_lex r2 @ extras_lex i @ [(RParen, [])])"
        using c Some by (intro spells_targets) auto
      then have "spells anything (CHR '','' # CHR '' '' # show_ref r2 @ show_extras i @ '')'') ((Comma, []) # ref_lex r2 @ extras_lex i @ [(RParen, [])])"
        by (intro spells_chars)
      from spells_delim [OF r this] Some show ?thesis by (simp add: opens_delim_def)
    qed
    from spells_delim [OF f(1) spells_chars(3) [OF this]] f(2) Explicit show ?thesis
      by (auto simp: show_core_def show_id_def core_lex_def opens_delim_def intro!: any opens_append cong del: option.case_cong_weak)
  qed
  then show "spells delim (show_core i) (core_lex i)" "opens (show_core i)" by auto
qed

lemma opens_chars: "opens (CHR ''('' # v)" "opens (CHR ''{'' # v)" "opens (CHR ''@'' # v)" "opens (CHR ''*'' # v)"
  by (simp_all add: opens_def)

lemma keyword_idents: "ident ''auto_override''" "ident ''toggle''" "ident ''and''" "ident ''or''" "ident ''not''"
  by code_simp+

lemma spells_keyword: "ident k \<Longrightarrow> spells G v ls \<Longrightarrow> opens v \<Longrightarrow> spells G (k @ CHR ''|'' # v) ((Ident, k) # (Pipe, []) # ls)"
  using spells_delim [OF spells_ident spells_pipe, of k G v ls] by (simp add: opens_delim_def)

lemma spells_id:
  assumes "canon_id i"
  shows "spells delim (show_id i) (flag_lex (id_flag i) @ core_lex i)" and "opens (show_id i)"
proof -
  note core = spells_core [OF assms]
  have eq: "show_id i = (case id_flag i of Some AutoOverride \<Rightarrow> ''auto_override|'' | Some Toggle \<Rightarrow> ''toggle|'' | None \<Rightarrow> []) @ show_core i"
    by (simp add: show_core_def show_id_def cong del: option.case_cong_weak src.case_cong_weak)
  show "spells delim (show_id i) (flag_lex (id_flag i) @ core_lex i)"
    using core spells_keyword [OF keyword_idents(1) core] spells_keyword [OF keyword_idents(2) core]
    by (auto simp: eq flag_lex_def split: option.splits id_flag.splits)
  have "opens (''auto_override|'' @ v)" "opens (''toggle|'' @ v)" for v
    by (simp_all add: opens_def is_ident_start_def is_ascii_alphabetic_def)
  then show "opens (show_id i)" using core(2) by (auto simp: eq split: option.splits id_flag.splits)
qed

lemma escaped_bang: "escaped_string (CHR ''!'' # n) = CHR ''!'' # escaped_string n"
proof -
  have "chars (CHR ''!'' # n) = ''!'' # chars n" by (simp add: chars.simps [of "CHR ''!'' # n"] next_char_def utf8_len_def)
  then show ?thesis by (simp add: escaped_string_def)
qed

lemma utf8_Cons_ascii: "ascii c \<Longrightarrow> utf8 m \<Longrightarrow> utf8 (c # m)"
  using utf8_append [of "[c]" m] utf8_singleton by simp

lemma spells_eq:
  assumes "canon_eq oper e"
  shows "spells delim (write_eq e (oper = ONot)) (eq_lex e (oper = ONot))" and "opens (write_eq e (oper = ONot))"
proof -
  note c = assms [unfolded canon_eq_def wf_eq_def]
  have l: "spells delim (show_ref_expr (eq_left e)) (expr_lex (eq_left e))" "opens (show_ref_expr (eq_left e))"
    using c spells_expr by auto
  have any: "spells anything w ks \<Longrightarrow> spells delim w ks" for w ks by (erule spells_weaken) (simp add: anything_def)
  have str: "spells delim (CHR 0x22 # escaped_string m @ [CHR 0x22]) [(Str, m)]" if "utf8 m" for m
    using any [OF spells_string [OF that]] by simp
  have right: "spells delim (case eq_right e of RefOperand r \<Rightarrow> show_ref_expr r | NameOperand m \<Rightarrow> [CHR 0x22] @ escaped_string m @ [CHR 0x22])
      (case eq_right e of RefOperand r \<Rightarrow> expr_lex r | NameOperand m \<Rightarrow> [(Str, m)])"
    using c str spells_expr(1) by (auto split: eq_operand.splits)
  have go: "spells delim (show_ref_expr (eq_left e) @ CHR '' '' # v) (expr_lex (eq_left e) @ ls)" if "spells delim v ls" for v ls
    using spells_delim [OF l(1) spells_chars(1) [OF that]] by (simp add: opens_delim_def)
  show "opens (write_eq e (oper = ONot))" using l(2) by (simp add: write_eq_def opens_append)
  show "spells delim (write_eq e (oper = ONot)) (eq_lex e (oper = ONot))"
  proof (cases "\<exists>m. eq_kind e = MatchOp \<and> oper = ONot \<and> eq_right e = NameOperand m")
    case True
    then obtain m where m: "eq_kind e = MatchOp" "oper = ONot" "eq_right e = NameOperand m" by blast
    then have "utf8 (CHR ''!'' # m)" using c by (auto intro!: utf8_Cons_ascii simp: ascii_def)
    from go [OF spells_chars(15) [OF spells_chars(1) [OF str [OF this]]]] m show ?thesis
      by (simp add: write_eq_def eq_lex_def escaped_bang)
  next
    case False
    then show ?thesis
      using go [OF spells_chars(13) [OF spells_chars(1) [OF right]]] go [OF spells_chars(14) [OF spells_chars(1) [OF right]]]
        go [OF spells_chars(15) [OF spells_chars(1) [OF right]]]
      by (cases "eq_kind e"; cases "oper = ONot"; cases "eq_right e") (simp_all add: write_eq_def eq_lex_def)
  qed
qed

lemma spells_access: "spells G v ls \<Longrightarrow> spells G ((case acc of None \<Rightarrow> [] | Some a \<Rightarrow> show_access a @ '' '') @ v) (access_lex acc @ ls)"
proof (cases acc)
  case (Some a)
  assume "spells G v ls"
  then have v: "spells G (CHR '']'' # CHR '' '' # v) ((RBracket, []) # ls)" by (intro spells_chars)
  have "ident (access_word a)" by (cases a; simp only: access_word_def access.case; code_simp)
  from spells_chars(5) [OF spells_delim [OF spells_ident [OF this] v]] show ?thesis
    by (cases a) (simp_all add: Some opens_delim_def access_lex_def access_word_def)
qed (simp add: access_lex_def)

lemma spells_oper:
  assumes v: "spells G v ls" "opens v"
  shows "spells G (show_oper oper neg @ v) (oper_lex oper neg @ ls)"
proof -
  note kw = spells_keyword [OF keyword_idents(3) v] spells_keyword [OF keyword_idents(4) v] spells_keyword [OF keyword_idents(5) v]
  show ?thesis using v spells_bang [OF v] spells_chars(9) [OF v(1)] kw by (cases oper) (simp_all add: show_oper_def oper_lex_def)
qed

lemma spells_join:
  assumes "\<And>t. t \<in> set ts \<Longrightarrow> spells delim (show_term t) (term_lex t)"
  shows "spells delim (write_terms ts) (terms_lex ts)"
  using assms
proof (induction ts rule: induct_list012)
  case (3 t u ts)
  have u: "spells delim (write_terms (u # ts)) (terms_lex (u # ts))" using 3 by simp
  have sep: "spells delim ((if t_oper t = OOr then '' || '' else '', '') @ write_terms (u # ts))
      ((if t_oper t = OOr then (OrOr, []) else (Comma, [])) # terms_lex (u # ts))"
    using spells_chars(1) [OF spells_chars(12) [OF spells_chars(1) [OF u]]] spells_chars(2) [OF spells_chars(1) [OF u]] by simp
  have "spells delim (show_term t) (term_lex t)" using 3(3) by simp
  from spells_delim [OF this sep] show ?case
    by (auto simp: write_terms_def terms_lex_def opens_delim_def split: if_splits)
qed (simp_all add: write_terms_def terms_lex_def spells_Nil)

lemma spells_term:
  assumes "canon_term d t"
  shows "spells delim (show_term t) (term_lex t)"
  using assms
proof (induction d t rule: canon_term.induct)
  case (1 d acc oper i)
  then show ?case using spells_access [OF spells_oper [OF spells_id]] by simp
next
  case (2 d acc oper e)
  then show ?case using spells_access [OF spells_oper [OF spells_eq]] by simp
next
  case (3 d acc oper ts)
  have "spells delim (write_terms ts) (terms_lex ts)" using 3 by (intro spells_join) auto
  from spells_delim [OF this spells_punct(7)] have "spells anything (write_terms ts @ ''}'') (terms_lex ts @ [(RBrace, [])])"
    by (simp add: opens_delim_def)
  then have "spells delim (write_terms ts @ ''}'') (terms_lex ts @ [(RBrace, [])])"
    by (rule spells_weaken) (simp add: anything_def)
  then have "spells delim (CHR ''{'' # write_terms ts @ ''}'') ((LBrace, []) # terms_lex ts @ [(RBrace, [])])" by (intro spells_chars)
  from spells_access [OF spells_oper [OF this opens_chars(2), of oper False], of acc] show ?case
    by (simp add: write_terms_def terms_lex_def opens_chars)
qed

text \<open>The whole text: the lexemes of the terms, then the end of the input.\<close>

lemma lex_rendered:
  assumes "\<forall>t \<in> set ts. canon_term d t"
  shows "\<exists>toks. lex (write_terms ts) = Ok toks \<and> map lexeme toks = terms_lex ts @ [(Eof, [])]"
proof -
  let ?w = "write_terms ts"
  have sp: "spells delim ?w (terms_lex ts)" using assms spells_term by (intro spells_join) blast
  have d: "delim []" by (simp add: delim_def)
  from sp [unfolded spells_def, rule_format, OF d, of "[]" "[]"]
  obtain toks where toks: "map lexeme toks = terms_lex ts" "lex_loop ?w [] 0 = lex_loop ?w toks (length ?w)" by auto
  have "skip_while is_ascii_whitespace ?w (length ?w) = length ?w" by (subst skip_while.simps) simp
  then have "skip_trivia ?w (length ?w) = Ok (length ?w)" by (subst skip_trivia.simps) (simp add: byte_at_def)
  then have "lex_loop ?w toks (length ?w) = Ok (toks @ [eof_token (length ?w)])" by (subst lex_loop.simps) (simp add: byte_at_def)
  with toks show ?thesis by (auto simp: lex_def lexeme_def eof_token_def)
qed

end
