(* ===== verification/Flecs_Reread.thy ===== *)
theory Flecs_Reread
  imports Flecs_Relex
begin

text \<open>Parsing the lexemes of a canonical tree gives the tree back.\<close>

section \<open>Methods that read lexemes\<close>

definition at :: "parser \<Rightarrow> lexeme list \<Rightarrow> bool" where
  "at p ks \<longleftrightarrow> map lexeme (drop (ps_index p) (ps_tokens p)) = ks \<and> ks \<noteq> []"

lemma at_index: "at p ks \<Longrightarrow> ps_index p < length (ps_tokens p)"
  by (cases "ps_index p < length (ps_tokens p)") (auto simp: at_def)

lemma at_cur: "at p (k # ks) \<Longrightarrow> lexeme (cur p) = k"
  using at_index [of p "k # ks"] by (auto simp: at_def cur_def simp flip: Cons_nth_drop_Suc)

lemma at_advance: "at p (k # ks) \<Longrightarrow> ks \<noteq> [] \<Longrightarrow> at (advance p) ks"
  using at_index [of p "k # ks"]
  by (auto simp: at_def advance_def simp flip: Cons_nth_drop_Suc)

text \<open>
  \<open>reads d E m ks a\<close>: at scope depth \<open>d\<close>, standing before \<open>ks\<close> and something that satisfies \<open>E\<close>,
  the method \<open>m\<close> succeeds with \<open>a\<close>, consumes \<open>ks\<close> and leaves the depth unchanged.
\<close>

definition reads :: "nat \<Rightarrow> (lexeme list \<Rightarrow> bool) \<Rightarrow> 'a parse_action \<Rightarrow> lexeme list \<Rightarrow> 'a \<Rightarrow> bool" where
  "reads d E m ks a \<longleftrightarrow> (\<forall>p rest. at p (ks @ rest) \<and> rest \<noteq> [] \<and> E rest \<and> ps_scope_depth p = d \<longrightarrow>
     (\<exists>q. m p = Ok (a, q) \<and> at q rest \<and> ps_scope_depth q = d))"

lemma reads_ret: "reads d E (ret a) [] a"
  by (simp add: reads_def ret_def)

lemma reads_bind:
  assumes "reads d E m ks a" and "reads d F (f a) ls b" and "\<And>rest. rest \<noteq> [] \<Longrightarrow> F rest \<Longrightarrow> E (ls @ rest)"
  shows "reads d F (bind_p m f) (ks @ ls) b"
  unfolding reads_def
proof (intro allI impI)
  fix p rest
  assume p: "at p ((ks @ ls) @ rest) \<and> rest \<noteq> [] \<and> F rest \<and> ps_scope_depth p = d"
  with assms(1,3) obtain q where q: "m p = Ok (a, q)" "at q (ls @ rest)" "ps_scope_depth q = d"
    unfolding reads_def by (metis append.assoc append_is_Nil_conv)
  with assms(2) p obtain r where "f a q = Ok (b, r)" "at r rest" "ps_scope_depth r = d" unfolding reads_def by blast
  with q show "\<exists>q. bind_p m f p = Ok (b, q) \<and> at q rest \<and> ps_scope_depth q = d" by (auto simp: bind_p_def)
qed

lemma reads_weaken: "reads d E m ks a \<Longrightarrow> (\<And>rest. rest \<noteq> [] \<Longrightarrow> F rest \<Longrightarrow> E rest) \<Longrightarrow> reads d F m ks a"
  unfolding reads_def by blast

lemma reads_peek:
  assumes "\<And>t rest. E rest \<Longrightarrow> rest \<noteq> [] \<Longrightarrow> lexeme t = hd (ks @ rest) \<Longrightarrow> reads d (\<lambda>r. r = rest) (f t) ks b"
  shows "reads d E (bind_p peek f) ks b"
  unfolding reads_def
proof (intro allI impI)
  fix p rest
  assume p: "at p (ks @ rest) \<and> rest \<noteq> [] \<and> E rest \<and> ps_scope_depth p = d"
  have "lexeme (cur p) = hd (ks @ rest)" using p at_cur [of p "hd (ks @ rest)" "tl (ks @ rest)"] by simp
  with assms p have "reads d (\<lambda>r. r = rest) (f (cur p)) ks b" by blast
  moreover have "peek p = Ok (cur p, p)" using at_index [OF conjunct1 [OF p]] by (simp add: peek_def index_slice_def cur_def)
  ultimately show "\<exists>q. bind_p peek f p = Ok (b, q) \<and> at q rest \<and> ps_scope_depth q = d"
    using p by (simp add: reads_def bind_p_def)
qed

lemma reads_bump:
  assumes "\<And>t. lexeme t = k \<Longrightarrow> reads d E (f t) ks b"
  shows "reads d E (bind_p bump f) (k # ks) b"
  unfolding reads_def
proof (intro allI impI)
  fix p rest
  assume p: "at p ((k # ks) @ rest) \<and> rest \<noteq> [] \<and> E rest \<and> ps_scope_depth p = d"
  then have "lexeme (cur p) = k" "at (advance p) (ks @ rest)" by (auto intro: at_cur at_advance)
  moreover have "bump p = Ok (cur p, advance p)" using at_index [OF conjunct1 [OF p]] by (simp add: bump_def index_slice_def cur_def advance_def)
  ultimately show "\<exists>q. bind_p bump f p = Ok (b, q) \<and> at q rest \<and> ps_scope_depth q = d"
    using p assms [of "cur p"] by (simp add: reads_def bind_p_def)
qed

lemma reads_lift: "m = Ok a \<Longrightarrow> reads d E (lift_p m) [] a"
  by (simp add: reads_def lift_p_def)

lemma reads_expect_bind:
  assumes "fst k = kind" and "\<And>t. lexeme t = k \<Longrightarrow> reads d E (f t) ks b"
  shows "reads d E (bind_p (expect kind msg) f) (k # ks) b"
proof -
  have "bind_p (expect kind msg) f p = bind_p bump f p" if "at p (k # rest)" for p rest
    using at_cur [OF that] at_index [OF that] assms(1)
    by (auto simp: expect_def bind_p_def bump_def index_slice_def cur_def lexeme_def ret_def)
  moreover have "reads d E (bind_p bump f) (k # ks) b" using assms(2) by (rule reads_bump)
  ultimately show ?thesis unfolding reads_def by (metis append_Cons)
qed

lemma lexeme_eq: "lexeme t = k \<Longrightarrow> tk_kind t = fst k \<and> tk_text t = snd k"
  by (auto simp: lexeme_def)

section \<open>References\<close>

lemma parse_show_u64: "parse_u64 (show_nat (unat n)) = Some n"
proof -
  let ?s = "show_nat (unat n)"
  have "unat n < 2 ^ 64" using unsigned_less [of n, where ?'a = nat] by simp
  moreover have "(case ?s of c # r \<Rightarrow> if c = CHR ''+'' then r else ?s | [] \<Rightarrow> ?s) = ?s"
    using show_nat_digits [of "CHR ''+''" "unat n"] by (cases ?s) (auto simp: is_digit_def)
  moreover have "list_all is_digit ?s" by (auto simp: list_all_iff intro: show_nat_digits)
  ultimately show ?thesis by (simp only: parse_u64_def Let_def nat_of_digits_show_nat) simp
qed

lemma classify_lexeme:
  assumes "operand e" and "canon_expr e" and "expr_lex e = [lexeme t]"
  shows "classify t = Ok e" and "is_ref_kind (tk_kind t)"
proof -
  have kt: "expr_lex e = [(tk_kind t, tk_text t)]" using assms(3) by (simp add: lexeme_def)
  show "is_ref_kind (tk_kind t)" using kt assms(1) by (cases e) (auto simp: is_ref_kind_def)
  have sl: "slice_from (c # n) 1 = (Ok n :: (parse_error, string) res)" if "ident (c # n)" for c n
  proof -
    have "list_all ascii (c # n)" using that ident_char_cases(1) by (auto simp: ident_def list_all_iff)
    then show ?thesis by (cases n) (auto simp: slice_from_def is_boundary_def ascii_def cont_def)
  qed
  show "classify t = Ok e"
  proof (cases e)
    case (Name n)
    then obtain c m where n: "n = c # m" using assms(2) by (cases n) (auto simp: canon_name_def ident_def)
    then have t: "tk_kind t = Ident" "tk_text t = c # m" using kt Name by auto
    have "c \<noteq> CHR ''$''" "c \<noteq> CHR 0x23" "c # m \<noteq> ''_''" using assms(2) Name n by (auto simp: canon_name_def)
    then show ?thesis using Name n by (auto simp: classify_def t byte_at_def)
  next
    case (Var n)
    then have t: "tk_kind t = Ident" "tk_text t = CHR ''$'' # n" using kt by auto
    show ?thesis using Var assms(2) sl [of "CHR ''$''" n] by (auto simp: classify_def t byte_at_def)
  next
    case (Entity n)
    have "parse_u64 (show_nat (unat n)) = Some n" by (rule parse_show_u64)
    moreover have "tk_kind t = Ident" "tk_text t = CHR 0x23 # show_nat (unat n)" using kt Entity by auto
    ultimately show ?thesis using Entity sl [OF ident_entity, of "unat n"] by (auto simp: classify_def byte_at_def entity_id_def)
  qed (use kt assms in \<open>auto simp: classify_def\<close>)
qed

lemma expr_lex_single: "operand e \<Longrightarrow> \<exists>k. expr_lex e = [k]"
  by (cases e) auto

definition no_flag :: "lexeme list \<Rightarrow> bool" where
  "no_flag rest \<longleftrightarrow> fst (hd rest) \<noteq> Pipe \<and> fst (hd rest) \<noteq> Ident"

definition set_flag :: "traversal \<Rightarrow> string \<Rightarrow> traversal" where
  "set_flag t w = (if w = ''self'' then t\<lparr>tv_self := True\<rparr> else if w = ''up'' then t\<lparr>tv_up := True\<rparr>
     else if w = ''cascade'' then t\<lparr>tv_cascade := True\<rparr> else t\<lparr>tv_desc := True\<rparr>)"

lemma set_traversal_flag_ok: "is_traversal_flag (tk_text w) \<Longrightarrow> set_traversal_flag t w = Ok (set_flag t (tk_text w))"
  by (auto simp: set_traversal_flag_def set_flag_def is_traversal_flag_def)

text \<open>What the traversal loop does after a flag.\<close>

definition after_flag :: "traversal \<Rightarrow> traversal parse_action" where
  "after_flag t = bind_p peek (\<lambda>nxt.
       if tk_kind nxt = Pipe then bind_p bump (\<lambda>_. traversal_loop t)
       else if tk_kind nxt = Ident \<and> \<not> is_traversal_flag (tk_text nxt) then bind_p bump (\<lambda>rel. ret (t\<lparr>tv_rel := Some (tk_text rel)\<rparr>))
       else ret t)"

lemma traversal_loop_step:
  "traversal_loop t = bind_p (expect Ident ''traversal flag'') (\<lambda>word. bind_p (lift_p (set_traversal_flag t word)) after_flag)"
  (is "_ = ?R")
proof (rule ext)
  fix p
  have app: "(if b then f else g) x = (if b then f x else g x)" for b and f g :: "parser \<Rightarrow> 'x" and x by simp
  have assoc: "bind_res (bind_res m f) g = bind_res m (\<lambda>x. bind_res (f x) g)" for m :: "('e, 'a) res" and f :: "'a \<Rightarrow> ('e, 'b) res" and g :: "'b \<Rightarrow> ('e, 'c) res"
    by (cases m) auto
  show "traversal_loop t p = ?R p"
    by (subst traversal_loop.simps)
      (simp only: after_flag_def bind_p_def lift_p_def ret_def peek_def app assoc bind_res.simps split_def fst_conv snd_conv)
qed

lemma bind_lift: "m = Ok a \<Longrightarrow> bind_p (lift_p m) f = f a"
  by (rule ext) (simp add: bind_p_def lift_p_def)

definition rel_lex :: "string option \<Rightarrow> lexeme list" where
  "rel_lex rel = (case rel of None \<Rightarrow> [] | Some w \<Rightarrow> [(Ident, w)])"

lemma reads_after_last:
  assumes "rel = None \<or> (\<exists>w. rel = Some w \<and> \<not> is_traversal_flag w)" and "tv_rel t = None"
  shows "reads d no_flag (after_flag t) (rel_lex rel) (t\<lparr>tv_rel := rel\<rparr>)"
  unfolding after_flag_def
proof (rule reads_peek)
  fix nxt rest
  assume nxt: "no_flag rest" "rest \<noteq> []" "lexeme nxt = hd (rel_lex rel @ rest)"
  show "reads d (\<lambda>r. r = rest) (if tk_kind nxt = Pipe then bind_p bump (\<lambda>_. traversal_loop t)
       else if tk_kind nxt = Ident \<and> \<not> is_traversal_flag (tk_text nxt) then bind_p bump (\<lambda>rel. ret (t\<lparr>tv_rel := Some (tk_text rel)\<rparr>))
       else ret t) (rel_lex rel) (t\<lparr>tv_rel := rel\<rparr>)"
  proof (cases rel)
    case None
    then have "tk_kind nxt \<noteq> Pipe" "tk_kind nxt \<noteq> Ident" using nxt lexeme_eq [of nxt] by (auto simp: no_flag_def rel_lex_def)
    moreover have "t\<lparr>tv_rel := None\<rparr> = t" using assms(2) by simp
    ultimately show ?thesis using None by (simp add: reads_ret rel_lex_def)
  next
    case (Some v)
    then have k: "tk_kind nxt = Ident" "tk_text nxt = v" "\<not> is_traversal_flag v"
      using nxt assms(1) lexeme_eq [of nxt] by (auto simp: rel_lex_def)
    have "reads d (\<lambda>r. r = rest) (bind_p bump (\<lambda>rel. ret (t\<lparr>tv_rel := Some (tk_text rel)\<rparr>))) [(Ident, v)] (t\<lparr>tv_rel := Some v\<rparr>)"
      by (rule reads_bump) (auto simp: lexeme_def intro: reads_ret)
    with k Some show ?thesis by (simp add: rel_lex_def)
  qed
qed

lemma reads_traversal_loop:
  assumes "\<forall>w \<in> set ws. is_traversal_flag w" and "ws \<noteq> []" and "rel = None \<or> (\<exists>w. rel = Some w \<and> \<not> is_traversal_flag w)"
    and "tv_rel t = None"
  shows "reads d no_flag (traversal_loop t) (flags_lex ws @ rel_lex rel) ((foldl set_flag t ws)\<lparr>tv_rel := rel\<rparr>)"
  using assms(1,2,4)
proof (induction ws arbitrary: t rule: flags_lex.induct)
  case (2 w)
  have "tv_rel (set_flag t w) = None" using 2(3) by (simp add: set_flag_def)
  note last = reads_after_last [OF assms(3) this]
  have step: "set_traversal_flag t word = Ok (set_flag t w)" if "lexeme word = (Ident, w)" for word
    using 2(1) lexeme_eq [OF that] set_traversal_flag_ok [of word t] by simp
  show ?case
    by (subst traversal_loop_step, simp only: flags_lex.simps append_Cons append_Nil foldl.simps, rule reads_expect_bind)
      (simp, subst bind_lift [OF step], assumption, rule last)
next
  case (3 w v vs)
  have "tv_rel (set_flag t w) = None" using 3(4) by (simp add: set_flag_def)
  then have ih: "reads d no_flag (traversal_loop (set_flag t w)) (flags_lex (v # vs) @ rel_lex rel) ((foldl set_flag (set_flag t w) (v # vs))\<lparr>tv_rel := rel\<rparr>)"
    using 3 by simp
  have step: "set_traversal_flag t word = Ok (set_flag t w)" if "lexeme word = (Ident, w)" for word
    using 3(2) lexeme_eq [OF that] set_traversal_flag_ok [of word t] by simp
  have next_flag: "reads d no_flag (after_flag (set_flag t w)) ((Pipe, []) # flags_lex (v # vs) @ rel_lex rel)
      ((foldl set_flag (set_flag t w) (v # vs))\<lparr>tv_rel := rel\<rparr>)"
    unfolding after_flag_def
  proof (rule reads_peek)
    fix nxt rest
    assume nxt: "no_flag rest" "lexeme nxt = hd (((Pipe, []) # flags_lex (v # vs) @ rel_lex rel) @ rest)"
    then have "tk_kind nxt = Pipe" by (simp add: lexeme_def)
    moreover have "reads d (\<lambda>r. r = rest) (bind_p bump (\<lambda>_. traversal_loop (set_flag t w))) ((Pipe, []) # flags_lex (v # vs) @ rel_lex rel)
      ((foldl set_flag (set_flag t w) (v # vs))\<lparr>tv_rel := rel\<rparr>)"
      by (rule reads_bump, rule reads_weaken [OF ih]) (use nxt in simp)
    ultimately show "reads d (\<lambda>r. r = rest) (if tk_kind nxt = Pipe then bind_p bump (\<lambda>_. traversal_loop (set_flag t w))
       else if tk_kind nxt = Ident \<and> \<not> is_traversal_flag (tk_text nxt)
         then bind_p bump (\<lambda>rel. ret ((set_flag t w)\<lparr>tv_rel := Some (tk_text rel)\<rparr>)) else ret (set_flag t w))
      ((Pipe, []) # flags_lex (v # vs) @ rel_lex rel) ((foldl set_flag (set_flag t w) (v # vs))\<lparr>tv_rel := rel\<rparr>)" by simp
  qed
  show ?case
    by (subst traversal_loop_step, simp only: flags_lex.simps append_Cons append_Nil foldl.simps(2) [of _ _ w], rule reads_expect_bind)
      (simp, subst bind_lift [OF step], assumption, rule next_flag)
qed simp

lemma fold_flags: "(foldl set_flag default_traversal (traversal_flags t))\<lparr>tv_rel := tv_rel t\<rparr> = t"
  by (cases t) (auto simp: traversal_flags_def default_traversal_def set_flag_def)

lemma reads_traversal: "canon_traversal (Some t) \<Longrightarrow> reads d no_flag parse_traversal (traversal_lex t) t"
proof -
  assume c: "canon_traversal (Some t)"
  then have "traversal_flags t \<noteq> []" by (intro traversal_flags_nonempty) (auto simp: canon_traversal_def split: option.splits)
  then have "reads d no_flag (traversal_loop default_traversal) (flags_lex (traversal_flags t) @ rel_lex (tv_rel t))
      ((foldl set_flag default_traversal (traversal_flags t))\<lparr>tv_rel := tv_rel t\<rparr>)"
    using c ident_flags by (intro reads_traversal_loop) (auto simp: canon_traversal_def default_traversal_def split: option.splits)
  then show ?thesis by (simp only: fold_flags parse_traversal_def traversal_lex_def rel_lex_def)
qed

end
