(* ===== verification/Flecs_Roundtrip.thy ===== *)
theory Flecs_Roundtrip
  imports Flecs_Reread
begin

text \<open>
  Reading back whole terms: the parser methods above the references, on the lexemes of a canonical
  tree, and the round trip of a query through its rendering.
\<close>

section \<open>Arguments\<close>

definition opt_lex :: "traversal option \<Rightarrow> lexeme list" where
  "opt_lex tv = (case tv of None \<Rightarrow> [] | Some t \<Rightarrow> (Pipe, []) # traversal_lex t)"

lemma reads_opt_traversal:
  assumes "canon_traversal tv" shows "reads d no_flag opt_traversal (opt_lex tv) tv"
  unfolding opt_traversal_def
proof (rule reads_peek)
  fix t rest
  assume t: "no_flag rest" "rest \<noteq> []" "lexeme t = hd (opt_lex tv @ rest)"
  show "reads d (\<lambda>r. r = rest) (if tk_kind t = Pipe then bind_p bump (\<lambda>_. bind_p parse_traversal (\<lambda>tv. ret (Some tv))) else ret None) (opt_lex tv) tv"
  proof (cases tv)
    case None
    then have "tk_kind t \<noteq> Pipe" using t lexeme_eq [of t] by (auto simp: no_flag_def opt_lex_def)
    then show ?thesis using None by (simp add: opt_lex_def reads_ret)
  next
    case (Some v)
    then have "tk_kind t = Pipe" using t by (simp add: opt_lex_def lexeme_def)
    moreover have "reads d (\<lambda>r. r = rest) (bind_p parse_traversal (\<lambda>tv. ret (Some tv))) (traversal_lex v @ []) (Some v)"
      by (rule reads_bind [OF reads_traversal reads_ret]) (use assms Some t in auto)
    ultimately show ?thesis using Some reads_bump [of "(Pipe, [])"] by (simp add: opt_lex_def)
  qed
qed

lemma ref_lex_operand: "operand (rf_expr r) \<Longrightarrow> ref_lex r = expr_lex (rf_expr r) @ opt_lex (rf_traversal r)"
  by (cases "rf_expr r"; cases "rf_traversal r") (auto simp: ref_lex_def opt_lex_def)

lemma traversal_lex_hd: "wf_traversal t \<Longrightarrow> \<exists>w ks. traversal_lex t = (Ident, w) # ks \<and> is_traversal_flag w"
proof -
  assume "wf_traversal t"
  then obtain w ws where "traversal_flags t = w # ws" using traversal_flags_nonempty [of t] by (cases "traversal_flags t") auto
  then show ?thesis using ident_flags [of w t] by (cases ws) (auto simp: traversal_lex_def)
qed

lemma canon_not_flag:
  assumes "operand e" and "canon_expr e" and "case e of Name n \<Rightarrow> \<not> is_traversal_flag n | _ \<Rightarrow> True" and "expr_lex e = [(Ident, w)]"
  shows "\<not> is_traversal_flag w"
  using assms by (cases e) (auto simp: is_traversal_flag_def)

lemma reference_eta: "\<lparr>rf_expr = rf_expr r, rf_traversal = rf_traversal r\<rparr> = r"
  by (cases r) simp

lemma reads_arg_ref:
  assumes "canon_arg r" shows "reads d no_flag arg_ref (ref_lex r) r"
proof (cases "operand (rf_expr r)")
  case True
  then obtain k where k: "expr_lex (rf_expr r) = [k]" using expr_lex_single by blast
  have c: "canon_expr (rf_expr r)" "canon_traversal (rf_traversal r)" using assms by (auto simp: canon_arg_def)
  have cl: "classify t = Ok (rf_expr r) \<and> is_ref_kind (tk_kind t)" if "lexeme t = k" for t
    using classify_lexeme [OF True c(1)] k that by auto
  show ?thesis unfolding arg_ref_def ref_lex_operand [OF True] k append_Cons append_Nil
  proof (rule reads_peek)
    fix t rest
    assume t: "no_flag rest" "rest \<noteq> []" "lexeme t = hd ((k # opt_lex (rf_traversal r)) @ rest)"
    then have tk: "lexeme t = k" by simp
    have nf: "\<not> (tk_kind t = Ident \<and> is_traversal_flag (tk_text t))"
      using canon_not_flag [OF True c(1)] assms k tk by (auto simp: canon_arg_def lexeme_def)
    have body: "reads d (\<lambda>q. q = rest) (bind_p opt_traversal (\<lambda>tv. ret \<lparr>rf_expr = rf_expr r, rf_traversal = tv\<rparr>)) (opt_lex (rf_traversal r) @ []) r"
      by (rule reads_bind [OF reads_opt_traversal [OF c(2)]]) (use t in \<open>auto simp: reference_eta reads_ret\<close>)
    have "reads d (\<lambda>q. q = rest) (bind_p bump (\<lambda>_. bind_p (lift_p (classify t)) (\<lambda>e. bind_p opt_traversal (\<lambda>tv.
         ret \<lparr>rf_expr = e, rf_traversal = tv\<rparr>)))) (k # opt_lex (rf_traversal r)) r"
      by (rule reads_bump) (use body cl [OF tk] in \<open>simp add: bind_lift\<close>)
    then show "reads d (\<lambda>q. q = rest) (if tk_kind t = Ident \<and> is_traversal_flag (tk_text t) then
       bind_p parse_traversal (\<lambda>tv. ret \<lparr>rf_expr = Implied, rf_traversal = Some tv\<rparr>)
     else if tk_kind t = At then
       bind_p bump (\<lambda>_. bind_p bump (\<lambda>inner.
         if is_ref_kind (tk_kind inner)
         then bind_p (lift_p (classify inner)) (\<lambda>e. ret (plain (Value e)))
         else lift_p (unexpected inner ''identifier'')))
     else if is_ref_kind (tk_kind t) then
       bind_p bump (\<lambda>_. bind_p (lift_p (classify t)) (\<lambda>e. bind_p opt_traversal (\<lambda>tv.
         ret \<lparr>rf_expr = e, rf_traversal = tv\<rparr>)))
     else lift_p (unexpected t ''identifier'')) (k # opt_lex (rf_traversal r)) r"
      using nf cl [OF tk] by (auto simp: is_ref_kind_def)
  qed
next
  case False
  then consider e where "rf_expr r = Value e" "operand e" "rf_traversal r = None"
    | tv where "rf_expr r = Implied" "rf_traversal r = Some tv"
    using assms by (cases "rf_expr r") (auto simp: canon_arg_def wf_arg_def)
  then show ?thesis
  proof cases
    case (1 e)
    then obtain k where k: "expr_lex e = [k]" using expr_lex_single by blast
    have ce: "canon_expr e" using assms 1 by (simp add: canon_arg_def)
    have r: "r = plain (Value e)" using 1 by (simp add: plain_def)
    have cl: "classify t = Ok e \<and> is_ref_kind (tk_kind t)" if "lexeme t = k" for t
      using classify_lexeme [OF 1(2) ce] k that by auto
    have val: "reads d E (bind_p bump (\<lambda>_. bind_p bump (\<lambda>inner.
         if is_ref_kind (tk_kind inner)
         then bind_p (lift_p (classify inner)) (\<lambda>e. ret (plain (Value e)))
         else lift_p (unexpected inner ''identifier'')))) [(At, []), k] r" for E
      by (intro reads_bump) (simp add: cl bind_lift r reads_ret)
    show ?thesis unfolding arg_ref_def
      by (rule reads_peek) (use val 1 k in \<open>auto simp: ref_lex_def lexeme_def\<close>)
  next
    case (2 tv)
    have ct: "canon_traversal (Some tv)" using assms 2 by (simp add: canon_arg_def)
    then obtain w ks where w: "traversal_lex tv = (Ident, w) # ks" "is_traversal_flag w"
      using traversal_lex_hd [of tv] by (auto simp: canon_traversal_def split: option.splits)
    have r: "r = \<lparr>rf_expr = Implied, rf_traversal = Some tv\<rparr>" using 2 by simp
    show ?thesis unfolding arg_ref_def
    proof (rule reads_peek)
      fix t rest
      assume t: "no_flag rest" "rest \<noteq> []" "lexeme t = hd (ref_lex r @ rest)"
      then have "tk_kind t = Ident \<and> is_traversal_flag (tk_text t)" using w 2 by (auto simp: ref_lex_def lexeme_def)
      moreover have "reads d (\<lambda>q. q = rest) (bind_p parse_traversal (\<lambda>tv. ret \<lparr>rf_expr = Implied, rf_traversal = Some tv\<rparr>)) (traversal_lex tv @ []) r"
        by (rule reads_bind [OF reads_traversal [OF ct]]) (use t r in \<open>auto intro: reads_ret\<close>)
      ultimately show "reads d (\<lambda>q. q = rest) (if tk_kind t = Ident \<and> is_traversal_flag (tk_text t) then
       bind_p parse_traversal (\<lambda>tv. ret \<lparr>rf_expr = Implied, rf_traversal = Some tv\<rparr>)
     else if tk_kind t = At then
       bind_p bump (\<lambda>_. bind_p bump (\<lambda>inner.
         if is_ref_kind (tk_kind inner)
         then bind_p (lift_p (classify inner)) (\<lambda>e. ret (plain (Value e)))
         else lift_p (unexpected inner ''identifier'')))
     else if is_ref_kind (tk_kind t) then
       bind_p bump (\<lambda>_. bind_p (lift_p (classify t)) (\<lambda>e. bind_p opt_traversal (\<lambda>tv.
         ret \<lparr>rf_expr = e, rf_traversal = tv\<rparr>)))
     else lift_p (unexpected t ''identifier'')) (ref_lex r) r" using 2 by (simp add: ref_lex_def)
    qed
  qed
qed

definition any_end :: "lexeme list \<Rightarrow> bool" where
  "any_end rest \<longleftrightarrow> True"

lemma store_arg_oper [simp]: "id_extra_oper (store_arg index r i) = id_extra_oper i"
  by (simp add: store_arg_def)

lemma arg_last:
  assumes "canon_arg r" and "index \<le> TERM_ARG_COUNT_MAX"
  shows "reads d any_end (arg_list i index) (ref_lex r @ [(RParen, [])]) (store_arg index r i)"
proof -
  have n: "\<not> TERM_ARG_COUNT_MAX < index" using assms(2) by simp
  show ?thesis
    by (subst arg_list_step, simp only: if_not_P [OF n], rule reads_bind [OF reads_arg_ref [OF assms(1)]], rule reads_bump)
      (auto simp: lexeme_def no_flag_def intro: reads_ret)
qed

lemma arg_more:
  assumes "canon_arg r" and "index \<le> TERM_ARG_COUNT_MAX" and "k = (case x of XAnd \<Rightarrow> (Comma, []) | XOr \<Rightarrow> (OrOr, []))"
    and "1 < index \<Longrightarrow> id_extra_oper i = x"
    and "reads d any_end (arg_list ((store_arg index r i)\<lparr>id_extra_oper := x\<rparr>) (index + 1)) ls j"
  shows "reads d any_end (arg_list i index) (ref_lex r @ k # ls) j"
proof -
  have n: "\<not> TERM_ARG_COUNT_MAX < index" using assms(2) by simp
  show ?thesis
  proof (subst arg_list_step, simp only: if_not_P [OF n], rule reads_bind [OF reads_arg_ref [OF assms(1)]], rule reads_bump)
    fix sep
    assume "lexeme sep = k"
    then have sep: "tk_kind sep \<noteq> RParen" "tk_kind sep = Comma \<or> tk_kind sep = OrOr" "(if tk_kind sep = Comma then XAnd else XOr) = x"
      using assms(3) by (cases x; auto simp: lexeme_def)+
    show "reads d any_end
        (if tk_kind sep = RParen then ret (store_arg index r i)
        else if tk_kind sep \<noteq> Comma \<and> tk_kind sep \<noteq> OrOr
        then lift_p (unexpected sep ([CHR 0x27] @ '','' @ [CHR 0x27] @ '' or '' @ [CHR 0x27] @ '')'' @ [CHR 0x27]))
        else if 1 < index \<and> id_extra_oper (store_arg index r i) \<noteq> (if tk_kind sep = Comma then XAnd else XOr)
        then fail_with (new_error ''cannot mix operators in extra term arguments'' (tk_span sep))
        else arg_list ((store_arg index r i)\<lparr>id_extra_oper := (if tk_kind sep = Comma then XAnd else XOr)\<rparr>) (index + 1)) ls j"
      using sep assms(4,5) by auto
  qed (use assms(3) in \<open>auto simp: no_flag_def split: extra_oper.splits\<close>)
qed

definition extra_args_lex :: "extra_oper \<Rightarrow> reference list \<Rightarrow> lexeme list" where
  "extra_args_lex x rs = concat (map (\<lambda>r. (case x of XAnd \<Rightarrow> (Comma, []) | XOr \<Rightarrow> (OrOr, [])) # ref_lex r) rs)"

lemma extras_lex_args: "extras_lex i = extra_args_lex (id_extra_oper i) (id_extra i)"
  by (simp add: extras_lex_def extra_args_lex_def)

lemma reads_extra_args:
  assumes "canon_arg r" and "list_all canon_arg rs" and "2 \<le> index" and "index + length rs \<le> TERM_ARG_COUNT_MAX" and "id_extra_oper i = x"
  shows "reads d any_end (arg_list i index) (ref_lex r @ extra_args_lex x rs @ [(RParen, [])]) (i\<lparr>id_extra := id_extra i @ r # rs\<rparr>)"
  using assms
proof (induction rs arbitrary: r index i)
  case Nil
  then show ?case using arg_last [of r index d i] by (simp add: extra_args_lex_def store_arg_def)
next
  case (Cons r' rs)
  have "reads d any_end (arg_list ((store_arg index r i)\<lparr>id_extra_oper := x\<rparr>) (index + 1)) (ref_lex r' @ extra_args_lex x rs @ [(RParen, [])])
      (((store_arg index r i)\<lparr>id_extra_oper := x\<rparr>)\<lparr>id_extra := id_extra ((store_arg index r i)\<lparr>id_extra_oper := x\<rparr>) @ r' # rs\<rparr>)"
    using Cons.prems by (intro Cons.IH) auto
  moreover have "((store_arg index r i)\<lparr>id_extra_oper := x\<rparr>)\<lparr>id_extra := id_extra ((store_arg index r i)\<lparr>id_extra_oper := x\<rparr>) @ r' # rs\<rparr>
      = i\<lparr>id_extra := id_extra i @ r # r' # rs\<rparr>"
    using Cons.prems(3,5) by (cases i) (auto simp: store_arg_def)
  ultimately have "reads d any_end (arg_list i index) (ref_lex r @ (case x of XAnd \<Rightarrow> (Comma, []) | XOr \<Rightarrow> (OrOr, [])) #
      ref_lex r' @ extra_args_lex x rs @ [(RParen, [])]) (i\<lparr>id_extra := id_extra i @ r # r' # rs\<rparr>)"
    using Cons.prems by (intro arg_more) auto
  then show ?case by (simp add: extra_args_lex_def)
qed

lemma reads_targets:
  assumes "canon_arg r" and "list_all canon_arg rs" and "length rs < TERM_ARG_COUNT_MAX" and "id_extra i = []"
    and "rs = [] \<Longrightarrow> id_extra_oper i = x"
  shows "reads d any_end (arg_list i 1) (ref_lex r @ extra_args_lex x rs @ [(RParen, [])])
    (i\<lparr>id_second := Some r, id_extra := rs, id_extra_oper := x\<rparr>)"
proof (cases rs)
  case Nil
  have "i\<lparr>id_second := Some r, id_extra := [], id_extra_oper := x\<rparr> = store_arg 1 r i"
    using assms(4,5) Nil by (cases i) (simp add: store_arg_def)
  then show ?thesis using arg_last [OF assms(1), of 1 d i] Nil by (simp add: extra_args_lex_def TERM_ARG_COUNT_MAX_def)
next
  case (Cons r' rs')
  let ?j = "(store_arg 1 r i)\<lparr>id_extra_oper := x\<rparr>"
  have "reads d any_end (arg_list ?j 2) (ref_lex r' @ extra_args_lex x rs' @ [(RParen, [])]) (?j\<lparr>id_extra := id_extra ?j @ r' # rs'\<rparr>)"
    using assms(2,3) Cons by (intro reads_extra_args) auto
  moreover have "?j\<lparr>id_extra := id_extra ?j @ r' # rs'\<rparr> = i\<lparr>id_second := Some r, id_extra := rs, id_extra_oper := x\<rparr>"
    using assms(4) Cons by (simp add: store_arg_def)
  ultimately have "reads d any_end (arg_list i 1) (ref_lex r @ (case x of XAnd \<Rightarrow> (Comma, []) | XOr \<Rightarrow> (OrOr, [])) #
      ref_lex r' @ extra_args_lex x rs' @ [(RParen, [])]) (i\<lparr>id_second := Some r, id_extra := rs, id_extra_oper := x\<rparr>)"
    using assms(1) by (intro arg_more) (auto simp: TERM_ARG_COUNT_MAX_def numeral_2_eq_2)
  then show ?thesis using Cons by (simp add: extra_args_lex_def)
qed

section \<open>Bodies\<close>

text \<open>The parenthesised arguments of an id term with an explicit or empty source.\<close>

definition args_lex :: "id_term \<Rightarrow> lexeme list" where
  "args_lex i = (case id_src i of
       Implicit \<Rightarrow> []
     | EmptySrc \<Rightarrow> [(LParen, []), (RParen, [])]
     | Explicit src \<Rightarrow> (LParen, []) # ref_lex src
         @ (case id_second i of None \<Rightarrow> [] | Some second \<Rightarrow> (Comma, []) # ref_lex second @ extras_lex i) @ [(RParen, [])])"

lemma ref_lex_hd: "canon_arg r \<Longrightarrow> \<exists>k ks. ref_lex r = k # ks \<and> fst k \<noteq> RParen"
proof -
  assume c: "canon_arg r"
  show ?thesis
  proof (cases "rf_expr r = Implied")
    case True
    then show ?thesis using c traversal_lex_hd [of "the (rf_traversal r)"]
      by (auto simp: canon_arg_def wf_arg_def wf_traversal_opt_def ref_lex_def)
  next
    case False
    then show ?thesis by (cases "rf_expr r"; cases "rf_traversal r") (auto simp: ref_lex_def)
  qed
qed

lemma reads_args:
  assumes "canon_id i" and "id_flag i = None" and "args_lex i = (LParen, []) # ks"
  shows "reads d any_end (args (id_first i)) ks (IdBody i)"
proof -
  note c = assms(1) [unfolded canon_id_def]
  let ?c = "component (id_first i)"
  consider "id_src i = EmptySrc" | r where "id_src i = Explicit r" using assms(3) by (cases "id_src i") (auto simp: args_lex_def)
  then show ?thesis
  proof cases
    case 1
    then have ks: "ks = [(RParen, [])]" using assms(3) by (simp add: args_lex_def)
    have i: "i = ?c\<lparr>id_src := EmptySrc\<rparr>" using 1 c assms(2) by (cases i) (simp add: component_def)
    have "reads d E (bind_p bump (\<lambda>_. ret (IdBody (?c\<lparr>id_src := EmptySrc\<rparr>)))) [(RParen, [])] (IdBody i)" for E
      using i by (intro reads_bump) (simp add: reads_ret)
    then show ?thesis unfolding args_def ks by (intro reads_peek) (auto simp: lexeme_def)
  next
    case (2 r)
    have cr: "canon_arg r" using c 2 by simp
    have "reads d any_end (arg_list ?c 0) ks i"
    proof (cases "id_second i")
      case None
      have "i = store_arg 0 r ?c" using 2 None c assms(2) by (cases i) (simp add: component_def store_arg_def)
      then show ?thesis using arg_last [OF cr, of 0 d ?c] assms(3) 2 None by (simp add: args_lex_def)
    next
      case (Some r2)
      let ?j = "(store_arg 0 r ?c)\<lparr>id_extra_oper := XAnd\<rparr>"
      have "reads d any_end (arg_list ?j 1) (ref_lex r2 @ extra_args_lex (id_extra_oper i) (id_extra i) @ [(RParen, [])])
          (?j\<lparr>id_second := Some r2, id_extra := id_extra i, id_extra_oper := id_extra_oper i\<rparr>)"
        using c Some by (intro reads_targets) (auto simp: store_arg_def component_def)
      moreover have "?j\<lparr>id_second := Some r2, id_extra := id_extra i, id_extra_oper := id_extra_oper i\<rparr> = i"
        using 2 Some assms(2) by (cases i) (simp add: component_def store_arg_def)
      ultimately have "reads d any_end (arg_list ?c 0) (ref_lex r @ (Comma, []) # ref_lex r2 @ extra_args_lex (id_extra_oper i) (id_extra i) @ [(RParen, [])]) i"
        using cr by (intro arg_more [where x = XAnd]) auto
      then show ?thesis using assms(3) 2 Some by (simp add: args_lex_def extras_lex_args)
    qed
    then have body: "reads d any_end (bind_p (arg_list ?c 0) (\<lambda>i. ret (IdBody i))) (ks @ []) (IdBody i)"
      by (rule reads_bind) (auto intro: reads_ret simp: any_end_def)
    obtain k ks' where "ks = k # ks'" "fst k \<noteq> RParen" using ref_lex_hd [OF cr] assms(3) 2 by (auto simp: args_lex_def)
    then show ?thesis unfolding args_def
      using body by (intro reads_peek) (auto simp: lexeme_def any_end_def elim!: reads_weaken)
  qed
qed

lemma reads_pair_body:
  assumes "canon_id i" and "id_flag i = None" and "id_src i = Implicit" and "id_second i = Some r"
  shows "reads d any_end pair_body (ref_lex (id_first i) @ (Comma, []) # ref_lex r @ extras_lex i @ [(RParen, [])]) (IdBody i)"
proof -
  note c = assms(1) [unfolded canon_id_def canon_first_def]
  obtain k where k: "expr_lex (rf_expr (id_first i)) = [k]" using c expr_lex_single by blast
  let ?c = "component (id_first i)"
  have "reads d any_end (arg_list ?c 1) (ref_lex r @ extra_args_lex (id_extra_oper i) (id_extra i) @ [(RParen, [])])
      (?c\<lparr>id_second := Some r, id_extra := id_extra i, id_extra_oper := id_extra_oper i\<rparr>)"
    using c assms(4) by (intro reads_targets) (auto simp: component_def)
  moreover have "?c\<lparr>id_second := Some r, id_extra := id_extra i, id_extra_oper := id_extra_oper i\<rparr> = i"
    using assms by (cases i) (simp add: component_def)
  ultimately have "reads d any_end (arg_list ?c 1) (ref_lex r @ extras_lex i @ [(RParen, [])]) i" by (simp add: extras_lex_args)
  then have "reads d any_end (bind_p (arg_list ?c 1) (\<lambda>i. ret (IdBody i))) ((ref_lex r @ extras_lex i @ [(RParen, [])]) @ []) (IdBody i)"
    by (rule reads_bind) (auto intro: reads_ret simp: any_end_def)
  then have tail: "reads d any_end (bind_p (expect Comma msg) (\<lambda>_. bind_p (arg_list ?c 1) (\<lambda>i. ret (IdBody i))))
      ((Comma, []) # ref_lex r @ extras_lex i @ [(RParen, [])]) (IdBody i)" for msg
    by (intro reads_expect_bind) simp_all
  have mid: "reads d any_end (bind_p opt_traversal (\<lambda>tv. bind_p (expect Comma msg) (\<lambda>_.
      bind_p (arg_list (component \<lparr>rf_expr = rf_expr (id_first i), rf_traversal = tv\<rparr>) 1) (\<lambda>i. ret (IdBody i)))))
      (opt_lex (rf_traversal (id_first i)) @ (Comma, []) # ref_lex r @ extras_lex i @ [(RParen, [])]) (IdBody i)" for msg
    by (rule reads_bind [OF reads_opt_traversal]) (use c tail in \<open>auto simp: reference_eta no_flag_def\<close>)
  have cl: "classify t = Ok (rf_expr (id_first i)) \<and> is_ref_kind (tk_kind t)" if "lexeme t = k" for t
    using classify_lexeme [of "rf_expr (id_first i)"] c k that by auto
  have eq: "ref_lex (id_first i) @ (Comma, []) # ref_lex r @ extras_lex i @ [(RParen, [])] =
      k # opt_lex (rf_traversal (id_first i)) @ (Comma, []) # ref_lex r @ extras_lex i @ [(RParen, [])]"
    using c k by (simp add: ref_lex_operand)
  show ?thesis unfolding pair_body_def eq by (rule reads_bump) (use mid cl in \<open>simp add: bind_lift\<close>)
qed

text \<open>What follows a term.\<close>

definition term_end :: "lexeme list \<Rightarrow> bool" where
  "term_end rest \<longleftrightarrow> fst (hd rest) \<in> {Comma, OrOr, RBrace, Eof}"

lemma args_lex_Nil: "args_lex i = [] \<longleftrightarrow> id_src i = Implicit"
  by (auto simp: args_lex_def split: src.splits)

lemma args_lex_hd: "args_lex i \<noteq> [] \<Longrightarrow> \<exists>ks. args_lex i = (LParen, []) # ks"
  by (auto simp: args_lex_def split: src.splits)

lemma component_eta:
  "canon_id i \<Longrightarrow> id_flag i = None \<Longrightarrow> id_src i = Implicit \<Longrightarrow> id_second i = None \<Longrightarrow> component (id_first i) = i"
  by (cases i) (simp add: component_def canon_id_def)

lemma reads_opt_args:
  assumes "canon_id i" and "id_flag i = None" and "id_src i = Implicit \<Longrightarrow> id_second i = None" and "args_lex i \<noteq> []"
  shows "reads d any_end (bind_p bump (\<lambda>_. bind_p (args (id_first i)) (\<lambda>b. ret (b, oper)))) (args_lex i) (IdBody i, oper)"
proof -
  obtain ks where ks: "args_lex i = (LParen, []) # ks" using args_lex_hd [OF assms(4)] by blast
  have "reads d any_end (bind_p (args (id_first i)) (\<lambda>b. ret (b, oper))) (ks @ []) (IdBody i, oper)"
    by (rule reads_bind [OF reads_args [OF assms(1,2) ks] reads_ret]) (simp add: any_end_def)
  then show ?thesis unfolding ks by (intro reads_bump) simp
qed

lemma reads_id_body:
  assumes "canon_id i" and "id_flag i = None" and "id_src i = Implicit \<Longrightarrow> id_second i = None"
  shows "reads d term_end (id_body (rf_expr (id_first i)) oper) (opt_lex (rf_traversal (id_first i)) @ args_lex i) (IdBody i, oper)"
proof (cases "rf_traversal (id_first i)")
  case None
  have pl: "plain (rf_expr (id_first i)) = id_first i" using None by (cases "id_first i") (simp add: plain_def)
  show ?thesis
  proof (cases "args_lex i = []")
    case True
    then have "component (plain (rf_expr (id_first i))) = i" using pl component_eta [OF assms(1,2)] assms(3) by (simp add: args_lex_Nil)
    then show ?thesis unfolding id_body_def using True None
      by (intro reads_peek) (auto simp: opt_lex_def term_end_def dest!: lexeme_eq intro: reads_ret)
  next
    case False
    then obtain ks where ks: "args_lex i = (LParen, []) # ks" using args_lex_hd by blast
    show ?thesis unfolding id_body_def
      using reads_weaken [OF reads_opt_args [OF assms False]] None ks pl
      by (intro reads_peek) (auto simp: opt_lex_def any_end_def lexeme_def)
  qed
next
  case (Some t)
  have r: "\<lparr>rf_expr = rf_expr (id_first i), rf_traversal = Some t\<rparr> = id_first i" using Some by (cases "id_first i") simp
  have ct: "canon_traversal (Some t)" using assms(1) Some by (simp add: canon_id_def canon_first_def)
  let ?tail = "bind_p peek (\<lambda>t2. if tk_kind t2 = LParen then bind_p bump (\<lambda>_. bind_p (args (id_first i)) (\<lambda>b. ret (b, oper)))
           else ret (IdBody (component (id_first i)), oper))"
  have tail: "reads d term_end ?tail (args_lex i) (IdBody i, oper)"
  proof (cases "args_lex i = []")
    case True
    then have "component (id_first i) = i" using component_eta [OF assms(1,2)] assms(3) by (simp add: args_lex_Nil)
    then show ?thesis using True by (intro reads_peek) (auto simp: term_end_def dest!: lexeme_eq intro: reads_ret)
  next
    case False
    then obtain ks where ks: "args_lex i = (LParen, []) # ks" using args_lex_hd by blast
    then show ?thesis using reads_weaken [OF reads_opt_args [OF assms False]]
      by (intro reads_peek) (auto simp: any_end_def lexeme_def)
  qed
  have nf: "no_flag (args_lex i @ rest)" if "term_end rest" for rest
    using that args_lex_hd [of i] by (cases "args_lex i = []") (auto simp: no_flag_def term_end_def)
  have body: "reads d term_end (bind_p bump (\<lambda>_. bind_p parse_traversal (\<lambda>tv.
         let r = \<lparr>rf_expr = rf_expr (id_first i), rf_traversal = Some tv\<rparr> in
         bind_p peek (\<lambda>t2.
           if tk_kind t2 = LParen then bind_p bump (\<lambda>_. bind_p (args r) (\<lambda>b. ret (b, oper)))
           else ret (IdBody (component r), oper))))) ((Pipe, []) # traversal_lex t @ args_lex i) (IdBody i, oper)"
    by (rule reads_bump, rule reads_bind [OF reads_traversal [OF ct]]) (use tail r nf in \<open>simp_all add: Let_def\<close>)
  show ?thesis unfolding id_body_def
    by (rule reads_peek) (use body Some in \<open>auto simp: opt_lex_def lexeme_def elim!: reads_weaken\<close>)
qed

lemma reads_ret': "a = b \<Longrightarrow> reads d E (ret a) [] b"
  by (simp add: reads_ret)

text \<open>The lexemes of an equality: the left operand, the operator and the right operand.\<close>

definition eq_oper_lex :: "eq_op \<Rightarrow> bool \<Rightarrow> lexeme" where
  "eq_oper_lex op neg = (case op of EqualOp \<Rightarrow> if neg then (Neq, []) else (EqEq, []) | MatchOp \<Rightarrow> (TMatch, []))"

definition eq_right_lex :: "eq_term \<Rightarrow> bool \<Rightarrow> lexeme" where
  "eq_right_lex e neg = (case eq_right e of
       RefOperand r \<Rightarrow> hd (expr_lex r)
     | NameOperand m \<Rightarrow> (Str, if eq_kind e = MatchOp \<and> neg then CHR ''!'' # m else m))"

lemma eq_lex_parts:
  assumes "canon_eq oper e"
  shows "eq_lex e neg = expr_lex (eq_left e) @ [eq_oper_lex (eq_kind e) neg, eq_right_lex e neg]"
proof -
  have "expr_lex r = [hd (expr_lex r)]" if "eq_right e = RefOperand r" for r
    using assms that expr_lex_single [of r] by (auto simp: canon_eq_def wf_eq_def)
  then show ?thesis
    by (cases "eq_kind e"; cases neg; cases "eq_right e") (auto simp: eq_lex_def eq_oper_lex_def eq_right_lex_def)
qed

lemma reads_eq_body:
  assumes "canon_eq oper e" and neg: "neg = (oper = ONot)"
  shows "reads d any_end (eq_body (eq_left e) (eq_kind e) (eq_kind e = EqualOp \<and> neg) OAnd)
    [eq_right_lex e neg] (EqBody e, if neg then ONot else OAnd)"
proof -
  note c = assms(1) [unfolded canon_eq_def wf_eq_def]
  have e: "\<lparr>eq_left = eq_left e, eq_kind = eq_kind e, eq_right = eq_right e\<rparr> = e" by (cases e) simp
  show ?thesis
  proof (cases "eq_right e")
    case (RefOperand r)
    then have r: "operand r" "canon_expr r" "neg \<Longrightarrow> eq_kind e = EqualOp" using c neg by auto
    have cl: "classify t = Ok r \<and> is_ref_kind (tk_kind t)" if "lexeme t = hd (expr_lex r)" for t
      using classify_lexeme [OF r(1,2)] expr_lex_single [OF r(1)] that by auto
    show ?thesis unfolding eq_body_def
      by (simp only: simp_thms if_False, rule reads_bump)
        (use cl r(3) RefOperand in \<open>auto simp: eq_right_lex_def bind_lift e [unfolded RefOperand] intro!: reads_ret'\<close>)
  next
    case (NameOperand m)
    then have m: "eq_kind e = MatchOp \<Longrightarrow> \<not> neg \<Longrightarrow> not_before CHR ''!'' m" using c neg by auto
    have nr: "\<not> is_ref_kind Str" by (simp add: is_ref_kind_def)
    have k: "eq_kind e = MatchOp \<or> eq_kind e = EqualOp" by (cases "eq_kind e") auto
    show ?thesis unfolding eq_body_def
      by (simp only: simp_thms if_False, rule reads_bump)
        (use m nr k NameOperand in \<open>auto simp: eq_right_lex_def lexeme_def e [unfolded NameOperand] not_before_def
           split: list.splits if_splits intro!: reads_ret'\<close>)
  qed
qed

lemma reads_ref_expr:
  assumes "operand e" and "canon_expr e" and "\<And>d. reads d E (f e) ks b"
  shows "reads d E (bind_p parse_ref_expr f) (expr_lex e @ ks) b"
proof -
  obtain k where k: "expr_lex e = [k]" using assms(1) expr_lex_single by blast
  have "bind_p parse_ref_expr f = bind_p bump (\<lambda>t. bind_p (lift_p (classify t)) f)"
  proof (rule ext)
    fix p show "bind_p parse_ref_expr f p = bind_p bump (\<lambda>t. bind_p (lift_p (classify t)) f) p"
      by (cases "bump p") (auto simp: bind_p_def parse_ref_expr_def)
  qed
  moreover have "reads d E (bind_p bump (\<lambda>t. bind_p (lift_p (classify t)) f)) (k # ks) b"
    by (rule reads_bump) (use assms(3) classify_lexeme [OF assms(1,2)] k in \<open>simp add: bind_lift\<close>)
  ultimately show ?thesis by (simp add: k)
qed

definition is_pair :: "id_term \<Rightarrow> bool" where
  "is_pair i \<longleftrightarrow> id_src i = Implicit \<and> id_second i \<noteq> None"

lemma core_lex_pair:
  "is_pair i \<Longrightarrow> core_lex i = (LParen, []) # ref_lex (id_first i) @ (Comma, []) # ref_lex (the (id_second i)) @ extras_lex i @ [(RParen, [])]"
  by (auto simp: is_pair_def core_lex_def)

lemma core_lex_id:
  assumes "canon_id i" and "\<not> is_pair i"
  shows "core_lex i = expr_lex (rf_expr (id_first i)) @ opt_lex (rf_traversal (id_first i)) @ args_lex i"
  using assms by (cases "id_src i") (auto simp: is_pair_def core_lex_def args_lex_def ref_lex_operand canon_id_def canon_first_def)

lemma canon_id_flag: "canon_id (i\<lparr>id_flag := f\<rparr>) = canon_id i"
  by (simp add: canon_id_def)

lemma core_lex_flag [simp]: "core_lex (i\<lparr>id_flag := f\<rparr>) = core_lex i"
  by (simp add: core_lex_def extras_lex_def cong del: option.case_cong_weak src.case_cong_weak)

lemma is_pair_flag [simp]: "is_pair (i\<lparr>id_flag := f\<rparr>) = is_pair i"
  by (simp add: is_pair_def)

lemma reads_pair:
  assumes "canon_id i" and "id_flag i = None" and "is_pair i"
  shows "reads d any_end (bind_p bump (\<lambda>_. bind_p pair_body (\<lambda>b. ret (b, oper)))) (core_lex i) (IdBody i, oper)"
proof -
  obtain r where r: "id_src i = Implicit" "id_second i = Some r" using assms(3) by (auto simp: is_pair_def)
  have "reads d any_end (bind_p pair_body (\<lambda>b. ret (b, oper))) ((ref_lex (id_first i) @ (Comma, []) # ref_lex r @ extras_lex i @ [(RParen, [])]) @ []) (IdBody i, oper)"
    by (rule reads_bind [OF reads_pair_body [OF assms(1,2) r] reads_ret]) (simp add: any_end_def)
  then show ?thesis using r by (auto simp: core_lex_pair [OF assms(3)] intro!: reads_bump)
qed

lemma reads_id:
  assumes "canon_id i" and "id_flag i = None" and "\<not> is_pair i"
  shows "reads d term_end (bind_p parse_ref_expr (\<lambda>first. id_body first oper)) (core_lex i) (IdBody i, oper)"
  unfolding core_lex_id [OF assms(1,3)]
  by (rule reads_ref_expr, use assms in \<open>simp_all add: canon_id_def canon_first_def\<close>, rule reads_id_body)
    (use assms in \<open>auto simp: is_pair_def\<close>)

lemma eq_kinds: "fst (eq_oper_lex EqualOp True) = Neq" "fst (eq_oper_lex EqualOp False) = EqEq" "fst (eq_oper_lex MatchOp b) = TMatch"
  by (simp_all add: eq_oper_lex_def)

lemma reads_eq:
  assumes "canon_eq oper e" and neg: "neg = (oper = ONot)"
  shows "reads d any_end (bind_p parse_ref_expr (\<lambda>first. id_body first OAnd)) (eq_lex e neg) (EqBody e, if neg then ONot else OAnd)"
  unfolding eq_lex_parts [OF assms(1)]
proof (rule reads_ref_expr)
  fix d
  have body: "reads d E (bind_p bump (\<lambda>_. eq_body (eq_left e) (eq_kind e) (eq_kind e = EqualOp \<and> neg) OAnd))
      [eq_oper_lex (eq_kind e) neg, eq_right_lex e neg] (EqBody e, if neg then ONot else OAnd)" for E
    by (rule reads_bump, rule reads_weaken [OF reads_eq_body [OF assms]]) (simp add: any_end_def)
  show "reads d any_end (id_body (eq_left e) OAnd) [eq_oper_lex (eq_kind e) neg, eq_right_lex e neg] (EqBody e, if neg then ONot else OAnd)"
    unfolding id_body_def
    by (rule reads_peek, cases "eq_kind e"; cases neg)
      (use body in \<open>auto simp: eq_kinds dest!: lexeme_eq\<close>)
qed (use assms(1) in \<open>auto simp: canon_eq_def wf_eq_def\<close>)

lemma core_lex_hd:
  assumes "canon_id i"
  shows "\<exists>k ks. core_lex i = k # ks \<and> (if is_pair i then fst k = LParen else is_ref_kind (fst k))"
proof (cases "is_pair i")
  case True
  then show ?thesis by (simp add: core_lex_pair)
next
  case False
  have "operand (rf_expr (id_first i))" using assms by (simp add: canon_id_def canon_first_def)
  then show ?thesis using False
    by (cases "rf_expr (id_first i)") (auto simp: core_lex_id [OF assms False] is_ref_kind_def)
qed

lemma core_lex_not_number: "canon_id i \<Longrightarrow> fst (hd (core_lex i)) \<noteq> Number"
proof (cases "is_pair i")
  case False
  assume c: "canon_id i"
  then have "operand (rf_expr (id_first i))" by (simp add: canon_id_def canon_first_def)
  then show ?thesis by (cases "rf_expr (id_first i)") (auto simp: core_lex_id [OF c False])
qed (simp add: core_lex_pair)

lemma reads_keyword_operand:
  assumes "canon_id i"
  shows "reads d term_end (keyword_operand (id_flag i) oper) (core_lex i) (IdBody i, oper)"
proof -
  let ?i = "i\<lparr>id_flag := None\<rparr>"
  have c: "canon_id ?i" "id_flag ?i = None" using assms by (auto simp: canon_id_flag)
  have orig: "?i\<lparr>id_flag := id_flag i\<rparr> = i" by (cases i) simp
  obtain k ks where k: "core_lex i = k # ks" "if is_pair i then fst k = LParen else is_ref_kind (fst k)"
    using core_lex_hd [OF assms] by blast
  let ?fin = "\<lambda>(body, oper'). ret (case body of IdBody i' \<Rightarrow> IdBody (i'\<lparr>id_flag := id_flag i\<rparr>) | _ \<Rightarrow> body, oper')"
  have fin: "reads d E (?fin (IdBody ?i, oper)) [] (IdBody i, oper)" for E using orig by (simp add: reads_ret)
  show ?thesis
  proof (cases "is_pair i")
    case True
    have pair: "reads d any_end (bind_p bump (\<lambda>_. bind_p pair_body (\<lambda>b. ret (b, oper)))) (core_lex i) (IdBody ?i, oper)"
      using reads_pair [OF c, of d oper] True by simp
    have "reads d E (bind_p (bind_p bump (\<lambda>_. bind_p pair_body (\<lambda>b. ret (b, oper)))) ?fin) (core_lex i @ []) (IdBody i, oper)" for E
      by (rule reads_bind [where f = ?fin, OF pair fin]) (simp add: any_end_def)
    then show ?thesis unfolding keyword_operand_def using k True
      by (intro reads_peek) (auto simp: lexeme_def)
  next
    case False
    have id: "reads d term_end (bind_p parse_ref_expr (\<lambda>first. id_body first oper)) (core_lex i) (IdBody ?i, oper)"
      using reads_id [OF c, of d oper] False by simp
    have "reads d (\<lambda>r. r = rest) (bind_p (bind_p parse_ref_expr (\<lambda>first. id_body first oper)) ?fin) (core_lex i @ []) (IdBody i, oper)"
      if "term_end rest" for rest
      by (rule reads_bind [where f = ?fin, OF id fin]) (use that in simp)
    then show ?thesis unfolding keyword_operand_def using k False
      by (intro reads_peek) (auto simp: is_ref_kind_def lexeme_def)
  qed
qed

section \<open>Terms\<close>

definition body_method :: "qterm list parse_action \<Rightarrow> access option \<Rightarrow> oper \<Rightarrow> token \<Rightarrow> (term_body \<times> oper) parse_action" where
  "body_method scope_terms acc oper t =
     (if tk_kind t = LBrace \<and> acc = None then bind_p (scope_body scope_terms) (\<lambda>b. ret (b, oper))
      else if tk_kind t = LParen then bind_p bump (\<lambda>_. bind_p pair_body (\<lambda>b. ret (b, oper)))
      else if is_ref_kind (tk_kind t) then
        bind_p (if oper \<noteq> OAnd then ret None else keyword) (\<lambda>k.
          case k of
            Some (KOper o') \<Rightarrow> keyword_operand None o'
          | Some (KFlag f) \<Rightarrow> keyword_operand (Some f) oper
          | None \<Rightarrow> bind_p parse_ref_expr (\<lambda>first. id_body first oper))
      else lift_p (unexpected t ''term''))"

definition prefix_lex :: "oper \<Rightarrow> lexeme list" where
  "prefix_lex oper = (case oper of ONot \<Rightarrow> [(Bang, [])] | OOptional \<Rightarrow> [(Question, [])] | _ \<Rightarrow> [])"

definition body_start :: "lexeme list \<Rightarrow> bool" where
  "body_start ks \<longleftrightarrow> ks \<noteq> [] \<and> fst (hd ks) \<notin> {LBracket, Bang, Question}"

lemma reads_access: "reads d (\<lambda>rest. fst (hd rest) \<noteq> LBracket) parse_access (access_lex acc) acc"
proof (cases acc)
  case None
  then show ?thesis unfolding parse_access_def
    by (intro reads_peek) (auto simp: access_lex_def dest!: lexeme_eq intro: reads_ret)
next
  case (Some a)
  have acc: "access_of (access_word a) = Some a" by (cases a) (simp_all add: access_of_def access_word_def)
  have inner: "reads d E (bind_p (expect RBracket m2) (\<lambda>_. ret (Some a))) [(RBracket, [])] (Some a)" for E m2
    by (rule reads_expect_bind) (simp_all add: reads_ret)
  have "reads d E (bind_p bump (\<lambda>_. bind_p (expect Ident ''access modifier'') (\<lambda>word.
       case access_of (tk_text word) of
         None \<Rightarrow> fail_with (new_error (''invalid access modifier '' @ [CHR 0x27] @ tk_text word @ [CHR 0x27]) (tk_span word))
       | Some a \<Rightarrow> bind_p (expect RBracket ([CHR 0x27] @ '']'' @ [CHR 0x27])) (\<lambda>_. ret (Some a)))))
      [(LBracket, []), (Ident, access_word a), (RBracket, [])] (Some a)" for E
    by (rule reads_bump, rule reads_expect_bind) (use acc inner in \<open>auto dest!: lexeme_eq\<close>)
  then show ?thesis unfolding parse_access_def Some
    by (intro reads_peek) (auto simp: access_lex_def dest!: lexeme_eq)
qed

lemma reads_prefix:
  assumes "oper \<in> {OAnd, ONot, OOptional}"
  shows "reads d body_start prefix_oper (prefix_lex oper) oper"
proof -
  have "reads d E (bind_p bump (\<lambda>_. ret ONot)) [(Bang, [])] ONot" "reads d E (bind_p bump (\<lambda>_. ret OOptional)) [(Question, [])] OOptional" for E
    by (intro reads_bump, rule reads_ret)+
  with assms show ?thesis unfolding prefix_oper_def
    by (intro reads_peek) (auto simp: prefix_lex_def body_start_def reads_ret dest!: lexeme_eq)
qed

lemma reads_parse_term:
  assumes "oper \<in> {OAnd, ONot, OOptional}" and "body_start ks"
    and "\<And>t. lexeme t = hd ks \<Longrightarrow> reads d term_end (body_method st acc oper t) ks (b, oper')"
  shows "reads d term_end (parse_term st) (access_lex acc @ prefix_lex oper @ ks) (QTerm acc oper' b)"
proof -
  have ne: "ks \<noteq> []" using assms(2) by (simp add: body_start_def)
  have "reads d term_end (bind_p peek (\<lambda>t. bind_p (body_method st acc oper t) (\<lambda>(body, oper'). ret (QTerm acc oper' body)))) ks (QTerm acc oper' b)"
  proof (rule reads_peek)
    fix t rest
    assume t: "term_end rest" "rest \<noteq> []" "lexeme t = hd (ks @ rest)"
    have "reads d (\<lambda>r. r = rest) (bind_p (body_method st acc oper t) (\<lambda>(body, oper'). ret (QTerm acc oper' body))) (ks @ []) (QTerm acc oper' b)"
      by (rule reads_bind [OF assms(3)]) (use t ne in \<open>auto intro: reads_ret\<close>)
    then show "reads d (\<lambda>r. r = rest) (bind_p (body_method st acc oper t) (\<lambda>(body, oper'). ret (QTerm acc oper' body))) ks (QTerm acc oper' b)" by simp
  qed
  then have "reads d term_end (bind_p prefix_oper (\<lambda>oper. bind_p peek (\<lambda>t. bind_p (body_method st acc oper t) (\<lambda>(body, oper'). ret (QTerm acc oper' body)))))
      (prefix_lex oper @ ks) (QTerm acc oper' b)"
    by (rule reads_bind [OF reads_prefix [OF assms(1)]]) (use assms(2) in \<open>auto simp: body_start_def\<close>)
  then have "reads d term_end (bind_p parse_access (\<lambda>acc. bind_p prefix_oper (\<lambda>oper. bind_p peek (\<lambda>t. bind_p (body_method st acc oper t)
      (\<lambda>(body, oper'). ret (QTerm acc oper' body)))))) (access_lex acc @ prefix_lex oper @ ks) (QTerm acc oper' b)"
    by (rule reads_bind [OF reads_access]) (use assms(1,2) in \<open>auto simp: body_start_def prefix_lex_def\<close>)
  then show ?thesis by (simp only: parse_term_def body_method_def)
qed

lemma bind_ret: "bind_p (ret a) f = f a"
  by (rule ext) (simp add: bind_p_def ret_def)

lemma bind_assoc: "bind_p (bind_p m f) g = bind_p m (\<lambda>a. bind_p (f a) g)"
proof (rule ext)
  fix p show "bind_p (bind_p m f) g p = bind_p m (\<lambda>a. bind_p (f a) g) p"
    by (cases "m p") (auto simp: bind_p_def)
qed

lemma reads_no_keyword:
  assumes "ks = k # ks'" and "fst k = Ident \<Longrightarrow> keyword_of (snd k) = None" and "reads d E (f None) ks b"
  shows "reads d E (bind_p keyword f) ks b"
  unfolding keyword_def bind_assoc
proof (rule reads_peek)
  fix t rest
  assume t: "E rest" "lexeme t = hd (ks @ rest)"
  then have "tk_kind t \<noteq> Ident \<or> keyword_of (tk_text t) = None" using assms(1,2) by (auto simp: lexeme_def)
  moreover have "reads d (\<lambda>r. r = rest) (f None) ks b" using assms(3) by (rule reads_weaken) (use t in simp)
  ultimately show "reads d (\<lambda>r. r = rest) (bind_p (if tk_kind t \<noteq> Ident then ret None
     else (case keyword_of (tk_text t) of
         None \<Rightarrow> ret None
       | Some k \<Rightarrow> bind_p bump (\<lambda>_. bind_p (expect Pipe ([CHR 0x27] @ ''|'' @ [CHR 0x27])) (\<lambda>_. ret (Some k))))) f) ks b"
    by (auto simp: bind_ret)
qed

lemma reads_with_keyword:
  assumes "keyword_of w = Some k" and "reads d E (f (Some k)) ks b"
  shows "reads d E (bind_p keyword f) ((Ident, w) # (Pipe, []) # ks) b"
  unfolding keyword_def bind_assoc
proof (rule reads_peek)
  fix t rest
  assume t: "E rest" "lexeme t = hd (((Ident, w) # (Pipe, []) # ks) @ rest)"
  then have k: "tk_kind t = Ident" "keyword_of (tk_text t) = Some k" using assms(1) by (auto simp: lexeme_def)
  have "reads d (\<lambda>r. r = rest) (f (Some k)) ks b" using assms(2) by (rule reads_weaken) (use t in simp)
  then have "reads d (\<lambda>r. r = rest) (bind_p bump (\<lambda>_. bind_p (expect Pipe m) (\<lambda>_. f (Some k)))) ((Ident, w) # (Pipe, []) # ks) b" for m
    by (intro reads_bump reads_expect_bind) auto
  then show "reads d (\<lambda>r. r = rest) (bind_p (if tk_kind t \<noteq> Ident then ret None
     else (case keyword_of (tk_text t) of
         None \<Rightarrow> ret None
       | Some k \<Rightarrow> bind_p bump (\<lambda>_. bind_p (expect Pipe ([CHR 0x27] @ ''|'' @ [CHR 0x27])) (\<lambda>_. ret (Some k)))))  f) ((Ident, w) # (Pipe, []) # ks) b"
    by (simp add: k bind_assoc bind_ret)
qed

lemma reads_scope:
  assumes "d < SCOPE_DEPTH_MAX" and "reads (d + 1) any_end st ks ts"
  shows "reads d any_end (scope_body st) ((LBrace, []) # ks) (ScopeBody ts)"
  unfolding scope_body_def
proof (rule reads_bump)
  fix brace
  show "reads d any_end (\<lambda>p. let p1 = p\<lparr>ps_scope_depth := ps_scope_depth p + 1\<rparr> in
     if SCOPE_DEPTH_MAX < ps_scope_depth p1
     then Err (new_error (''scopes nested deeper than '' @ show_nat SCOPE_DEPTH_MAX) (tk_span brace))
     else bind_res (st p1) (\<lambda>(inner, p2).
       if ps_scope_depth p2 = 0 then Panic else Ok (ScopeBody inner, p2\<lparr>ps_scope_depth := ps_scope_depth p2 - 1\<rparr>))) ks (ScopeBody ts)"
    unfolding reads_def
  proof (intro allI impI)
    fix p rest
    assume p: "at p (ks @ rest) \<and> rest \<noteq> [] \<and> any_end rest \<and> ps_scope_depth p = d"
    then have "at (p\<lparr>ps_scope_depth := d + 1\<rparr>) (ks @ rest)" by (simp add: at_def)
    with assms(2) p obtain q where q: "st (p\<lparr>ps_scope_depth := d + 1\<rparr>) = Ok (ts, q)" "at q rest" "ps_scope_depth q = d + 1"
      unfolding reads_def by (metis parser.select_convs(3) parser.surjective parser.update_convs(3))
    then show "\<exists>q. (let p1 = p\<lparr>ps_scope_depth := ps_scope_depth p + 1\<rparr> in
     if SCOPE_DEPTH_MAX < ps_scope_depth p1
     then Err (new_error (''scopes nested deeper than '' @ show_nat SCOPE_DEPTH_MAX) (tk_span brace))
     else bind_res (st p1) (\<lambda>(inner, p2).
       if ps_scope_depth p2 = 0 then Panic else Ok (ScopeBody inner, p2\<lparr>ps_scope_depth := ps_scope_depth p2 - 1\<rparr>))) = Ok (ScopeBody ts, q)
       \<and> at q rest \<and> ps_scope_depth q = d"
      using p assms(1) by (auto simp: Let_def at_def)
  qed
qed

definition as_and :: "qterm \<Rightarrow> qterm" where
  "as_and t = QTerm (t_access t) (if t_oper t = OOr then OAnd else t_oper t) (t_body t)"

lemma reads_id_method:
  assumes "canon_id i" and "id_flag i = None" and "oper \<in> {OAnd, ONot, OOptional}"
    and "oper = OAnd \<Longrightarrow> \<not> is_pair i \<Longrightarrow> unreserved (rf_expr (id_first i))"
    and "lexeme t = hd (core_lex i)"
  shows "reads d term_end (body_method st acc oper t) (core_lex i) (IdBody i, oper)"
proof -
  obtain k ks where k: "core_lex i = k # ks" "if is_pair i then fst k = LParen else is_ref_kind (fst k)"
    using core_lex_hd [OF assms(1)] by blast
  have tk: "tk_kind t = fst k" using assms(5) k(1) by (auto simp: lexeme_def)
  show ?thesis
  proof (cases "is_pair i")
    case True
    then show ?thesis using reads_weaken [OF reads_pair [OF assms(1,2) True]] k(2) tk by (simp add: body_method_def any_end_def)
  next
    case False
    have kind: "is_ref_kind (tk_kind t)" using k(2) False tk by simp
    have id: "reads d term_end (bind_p parse_ref_expr (\<lambda>first. id_body first oper)) (core_lex i) (IdBody i, oper)"
      by (rule reads_id [OF assms(1,2) False])
    have unres: "keyword_of (snd k) = None" if "fst k = Ident" "oper = OAnd"
    proof -
      have "expr_lex (rf_expr (id_first i)) = [k]"
        using k(1) core_lex_id [OF assms(1) False] expr_lex_single [of "rf_expr (id_first i)"] assms(1)
        by (auto simp: canon_id_def canon_first_def)
      then show ?thesis using assms(4) False that
        by (cases "rf_expr (id_first i)") (auto simp: unreserved_def keyword_of_def)
    qed
    show ?thesis
    proof (cases "oper = OAnd")
      case True
      then show ?thesis unfolding body_method_def using kind unres id
        by (auto simp: is_ref_kind_def intro!: reads_no_keyword [OF k(1)])
    next
      case False
      then show ?thesis unfolding body_method_def using kind id by (auto simp: is_ref_kind_def bind_ret)
    qed
  qed
qed

lemma reads_keyword_method:
  assumes "canon_id i" and "keyword_of w = Some k" and "lexeme t = (Ident, w)"
    and "k = KOper oper \<and> id_flag i = None \<or> k = KFlag (the (id_flag i)) \<and> id_flag i \<noteq> None \<and> oper = OAnd"
  shows "reads d term_end (body_method st acc OAnd t) ((Ident, w) # (Pipe, []) # core_lex i) (IdBody i, oper)"
proof -
  have "tk_kind t = Ident" using assms(3) by (simp add: lexeme_def)
  moreover have "reads d term_end (case Some k of Some (KOper o') \<Rightarrow> keyword_operand None o'
      | Some (KFlag f) \<Rightarrow> keyword_operand (Some f) OAnd
      | None \<Rightarrow> bind_p parse_ref_expr (\<lambda>first. id_body first OAnd)) (core_lex i) (IdBody i, oper)"
    using reads_keyword_operand [OF assms(1), of d oper] assms(4) by auto
  ultimately show ?thesis unfolding body_method_def by (auto simp: is_ref_kind_def intro!: reads_with_keyword [OF assms(2)])
qed

lemma reads_eq_method:
  assumes "canon_eq oper e" and "unreserved (eq_left e)" and "lexeme t = hd (eq_lex e (oper = ONot))"
  shows "reads d term_end (body_method st acc OAnd t) (eq_lex e (oper = ONot)) (EqBody e, if oper = ONot then ONot else OAnd)"
proof -
  define neg where "neg = (oper = ONot)"
  have op: "operand (eq_left e)" using assms(1) by (simp add: canon_eq_def wf_eq_def)
  then obtain k where k: "expr_lex (eq_left e) = [k]" using expr_lex_single by blast
  then have lx: "eq_lex e neg = k # [eq_oper_lex (eq_kind e) neg, eq_right_lex e neg]"
    using eq_lex_parts [OF assms(1)] by simp
  have kind: "is_ref_kind (tk_kind t)" using assms(3) lx k op unfolding neg_def [symmetric] by (cases "eq_left e") (auto simp: lexeme_def is_ref_kind_def)
  have unres: "keyword_of (snd k) = None" if "fst k = Ident"
    using assms(2) k op that by (cases "eq_left e") (auto simp: unreserved_def keyword_of_def)
  have id: "reads d term_end (bind_p parse_ref_expr (\<lambda>first. id_body first OAnd)) (eq_lex e neg) (EqBody e, if neg then ONot else OAnd)"
    by (rule reads_weaken [OF reads_eq [OF assms(1) neg_def]]) (simp add: any_end_def)
  have "reads d term_end (bind_p keyword (\<lambda>k. case k of Some (KOper o') \<Rightarrow> keyword_operand None o'
      | Some (KFlag f) \<Rightarrow> keyword_operand (Some f) OAnd
      | None \<Rightarrow> bind_p parse_ref_expr (\<lambda>first. id_body first OAnd))) (eq_lex e neg) (EqBody e, if neg then ONot else OAnd)"
    by (rule reads_no_keyword [OF lx unres]) (simp_all add: id)
  then show ?thesis unfolding body_method_def neg_def [symmetric] using kind by (auto simp: is_ref_kind_def)
qed

lemma core_start: "canon_id i \<Longrightarrow> body_start (core_lex i)"
  using core_lex_hd [of i] by (auto simp: body_start_def is_ref_kind_def split: if_splits)

lemma eq_start:
  assumes "canon_eq oper e" shows "body_start (eq_lex e neg)"
proof -
  have "operand (eq_left e)" using assms by (simp add: canon_eq_def wf_eq_def)
  then show ?thesis by (cases "eq_left e") (auto simp: eq_lex_parts [OF assms] body_start_def)
qed

lemma reads_term:
  assumes "canon_term (SCOPE_DEPTH_MAX - d) t"
    and scope: "\<And>ts. t_body t = ScopeBody ts \<Longrightarrow> reads (d + 1) any_end st (terms_lex ts @ [(RBrace, [])]) ts"
  shows "reads d term_end (parse_term st) (term_lex t) (as_and t)"
proof (cases t)
  case (QTerm acc oper body)
  show ?thesis
  proof (cases body)
    case (IdBody i)
    note c = assms(1) [unfolded QTerm IdBody canon_term.simps]
    have ci: "canon_id i" using c by simp
    have plain: "reads d term_end (parse_term st) (access_lex acc @ prefix_lex op @ core_lex i) (QTerm acc op (IdBody i))"
      if "id_flag i = None" "op \<in> {OAnd, ONot, OOptional}" "op = OAnd \<Longrightarrow> oper \<in> {OAnd, OOr}" for op
      using that ci c by (intro reads_parse_term core_start reads_id_method) (auto simp: is_pair_def)
    have kw: "reads d term_end (parse_term st) (access_lex acc @ prefix_lex OAnd @ (Ident, w) # (Pipe, []) # core_lex i) (QTerm acc op (IdBody i))"
      if "keyword_of w = Some k" "k = KOper op \<and> id_flag i = None \<or> k = KFlag (the (id_flag i)) \<and> id_flag i \<noteq> None \<and> op = OAnd" for w k op
      using that ci by (intro reads_parse_term reads_keyword_method) (auto simp: body_start_def)
    show ?thesis
    proof (cases "id_flag i")
      case None
      show ?thesis
        using plain [OF None, of oper] plain [OF None, of OAnd] kw [of "''and''" "KOper oper" oper]
          kw [of "''or''" "KOper oper" oper] kw [of "''not''" "KOper oper" oper] None
        by (cases oper) (auto simp: QTerm IdBody as_and_def oper_lex_def prefix_lex_def flag_lex_def keyword_of_def)
    next
      case (Some f)
      then have "oper \<in> {OAnd, OOr}" using c by simp
      then show ?thesis
        using kw [of "''auto_override''" "KFlag f" OAnd] kw [of "''toggle''" "KFlag f" OAnd] Some
        by (cases f) (auto simp: QTerm IdBody as_and_def oper_lex_def prefix_lex_def flag_lex_def keyword_of_def)
    qed
  next
    case (EqBody e)
    note c = assms(1) [unfolded QTerm EqBody canon_term.simps]
    have op: "oper \<in> {OAnd, OOr, ONot}" using c by (simp add: canon_eq_def wf_eq_def)
    have "reads d term_end (parse_term st) (access_lex acc @ prefix_lex OAnd @ eq_lex e (oper = ONot)) (QTerm acc (if oper = ONot then ONot else OAnd) (EqBody e))"
      using c by (intro reads_parse_term reads_eq_method) (auto intro: eq_start)
    with op show ?thesis by (auto simp: QTerm EqBody as_and_def oper_lex_def prefix_lex_def)
  next
    case (ScopeBody ts)
    note c = assms(1) [unfolded QTerm ScopeBody canon_term.simps]
    define op where "op = (if oper = OOr then OAnd else oper)"
    have op: "op \<in> {OAnd, ONot, OOptional}" using c by (auto simp: op_def)
    have "reads d any_end (scope_body st) ((LBrace, []) # terms_lex ts @ [(RBrace, [])]) (ScopeBody ts)"
      using c scope [of ts] by (intro reads_scope) (auto simp: QTerm ScopeBody)
    then have "reads d any_end (bind_p (scope_body st) (\<lambda>b. ret (b, op))) (((LBrace, []) # terms_lex ts @ [(RBrace, [])]) @ []) (ScopeBody ts, op)"
      by (rule reads_bind) (auto intro: reads_ret simp: any_end_def)
    then have "reads d term_end (body_method st acc op t') ((LBrace, []) # terms_lex ts @ [(RBrace, [])]) (ScopeBody ts, op)"
      if "lexeme t' = (LBrace, [])" for t'
      using that c by (auto simp: body_method_def lexeme_def any_end_def elim!: reads_weaken)
    then have "reads d term_end (parse_term st) (access_lex acc @ prefix_lex op @ (LBrace, []) # terms_lex ts @ [(RBrace, [])]) (QTerm acc op (ScopeBody ts))"
      using op by (intro reads_parse_term) (auto simp: body_start_def)
    then show ?thesis using c
      by (auto simp: QTerm ScopeBody as_and_def op_def oper_lex_def prefix_lex_def terms_lex_def split: if_splits)
  qed
qed

section \<open>Term lists\<close>

definition close_lex :: "scope_context \<Rightarrow> lexeme list" where
  "close_lex ctx = (case ctx of TopLevel \<Rightarrow> [] | Scope \<Rightarrow> [(RBrace, [])])"

definition list_end :: "scope_context \<Rightarrow> lexeme list \<Rightarrow> bool" where
  "list_end ctx rest \<longleftrightarrow> ctx = Scope \<or> fst (hd rest) = Eof"

lemma terms_loop_step:
  "terms_loop (Suc fuel) ctx ts = bind_p peek (\<lambda>t.
       if tk_kind t = Eof then
         (if ctx = Scope then lift_p (unexpected t ([CHR 0x27] @ ''}'' @ [CHR 0x27])) else ret ts)
       else if tk_kind t = RBrace \<and> ctx = Scope then bind_p bump (\<lambda>_. ret ts)
       else bind_p (parse_term (terms_loop fuel Scope [])) (\<lambda>new.
           bind_p (separator (ts @ [new])) (terms_loop fuel ctx)))"
  by (rule ext) simp

lemma reads_terms_done: "0 < fuel \<Longrightarrow> reads d (list_end ctx) (terms_loop fuel ctx ts) (close_lex ctx) ts"
proof -
  assume "0 < fuel"
  then obtain n where n: "fuel = Suc n" by (cases fuel) auto
  have "reads d E (bind_p bump (\<lambda>_. ret ts)) [(RBrace, [])] ts" for E by (intro reads_bump) (rule reads_ret)
  then show ?thesis unfolding n terms_loop_step
    by (intro reads_peek, cases ctx) (auto simp: close_lex_def list_end_def reads_ret dest!: lexeme_eq)
qed

lemma term_lex_hd:
  assumes "canon_term d t" shows "\<exists>k ks. term_lex t = k # ks \<and> fst k \<notin> {Eof, RBrace, Number}"
proof (cases t)
  case (QTerm acc oper body)
  have acc: ?thesis if "acc \<noteq> None" using that QTerm by (auto simp: access_lex_def)
  have st: "body_start ks \<Longrightarrow> \<exists>k ks'. ks = k # ks'" for ks by (cases ks) (auto simp: body_start_def)
  show ?thesis
  proof (cases body)
    case (IdBody i)
    then have c: "canon_id i" using assms QTerm by simp
    then obtain k ks where "core_lex i = k # ks" "if is_pair i then fst k = LParen else is_ref_kind (fst k)" "fst k \<noteq> Number"
      using core_lex_hd [OF c] core_lex_not_number [OF c] by auto
    then show ?thesis using QTerm IdBody acc
      by (cases acc; cases oper; cases "id_flag i"; cases "the (id_flag i)") (auto simp: access_lex_def oper_lex_def flag_lex_def is_ref_kind_def split: if_splits)
  next
    case (EqBody e)
    then have c: "canon_eq oper e" using assms QTerm by simp
    then have "operand (eq_left e)" by (simp add: canon_eq_def wf_eq_def)
    then obtain k ks where "eq_lex e (oper = ONot) = k # ks" "fst k \<notin> {Eof, RBrace, Number}"
      by (cases "eq_left e") (auto simp: eq_lex_parts [OF c])
    then show ?thesis using QTerm EqBody by (cases acc; cases oper) (auto simp: access_lex_def oper_lex_def)
  next
    case (ScopeBody ts)
    then show ?thesis using QTerm by (cases acc; cases oper) (auto simp: access_lex_def oper_lex_def)
  qed
qed

lemma reads_separator_end:
  assumes "t_oper t \<noteq> OOr"
  shows "reads d (\<lambda>rest. fst (hd rest) \<in> {Eof, RBrace}) (separator (acc @ [as_and t])) [] (acc @ [t])"
proof -
  have "as_and t = t" using assms by (cases t) (simp add: as_and_def)
  then show ?thesis unfolding separator_def by (intro reads_peek) (auto intro: reads_ret dest!: lexeme_eq)
qed

lemma reads_separator_more:
  "reads d (\<lambda>rest. fst (hd rest) \<notin> {Eof, RBrace}) (separator (acc @ [as_and t])) [if t_oper t = OOr then (OrOr, []) else (Comma, [])] (acc @ [t])"
proof (cases "t_oper t = OOr")
  case True
  have t: "set_last_oper OOr (acc @ [as_and t]) = acc @ [t]" "t_oper (as_and t) = OAnd" using True by (cases t; simp add: as_and_def)+
  have "reads d E (bind_p bump (\<lambda>or_token.
         if acc @ [as_and t] = [] then (\<lambda>_. Panic)
         else if t_oper (last (acc @ [as_and t])) \<noteq> OAnd
         then fail_with (new_error ''cannot mix operators in || expression'' (tk_span or_token))
         else bind_p peek (\<lambda>t2.
           if tk_kind t2 = Eof \<or> tk_kind t2 = RBrace
           then fail_with (new_error (''expected term after '' @ [CHR 0x27] @ ''||'' @ [CHR 0x27]) (tk_span or_token))
           else ret (set_last_oper OOr (acc @ [as_and t]))))) [(OrOr, [])] (acc @ [t])"
    if "E = (\<lambda>r. r = rest0)" "fst (hd rest0) \<notin> {Eof, RBrace}" for E rest0
  proof (rule reads_bump, simp only: t last_snoc simp_thms if_False append_is_Nil_conv list.distinct, rule reads_peek)
    fix t2 rest
    assume "E rest" "lexeme t2 = hd ([] @ rest)"
    then have "tk_kind t2 \<noteq> Eof \<and> tk_kind t2 \<noteq> RBrace" using that lexeme_eq [of t2] by auto
    then show "reads d (\<lambda>r. r = rest) (if tk_kind t2 = Eof \<or> tk_kind t2 = RBrace
           then fail_with (new_error (''expected term after '' @ [CHR 0x27] @ ''||'' @ [CHR 0x27]) (tk_span or_token))
           else ret (acc @ [t])) [] (acc @ [t])" for or_token by (simp add: reads_ret)
  qed
  then show ?thesis unfolding separator_def using True by (intro reads_peek) (auto simp: lexeme_def)
next
  case False
  then have "as_and t = t" by (cases t) (simp add: as_and_def)
  moreover have "reads d E (bind_p bump (\<lambda>_. ret (acc @ [t]))) [(Comma, [])] (acc @ [t])" for E by (intro reads_bump) (rule reads_ret)
  ultimately show ?thesis unfolding separator_def using False by (intro reads_peek) (auto simp: lexeme_def)
qed

lemma terms_lex_Cons:
  "terms_lex [t] = term_lex t"
  "terms_lex (t # u # us) = term_lex t @ (if t_oper t = OOr then (OrOr, []) else (Comma, [])) # terms_lex (u # us)"
  by (simp_all add: terms_lex_def)

text \<open>One unit of fuel per lexeme is more than enough: every term has at least one.\<close>

lemma reads_terms:
  assumes "\<forall>t \<in> set us. canon_term (SCOPE_DEPTH_MAX - d) t" and "us \<noteq> [] \<Longrightarrow> t_oper (last us) \<noteq> OOr"
    and "length (terms_lex us) < fuel"
  shows "reads d (list_end ctx) (terms_loop fuel ctx acc) (terms_lex us @ close_lex ctx) (acc @ us)"
  using assms
proof (induction fuel arbitrary: d ctx acc us)
  case (Suc fuel)
  show ?case
  proof (cases us)
    case Nil
    then show ?thesis using reads_terms_done [of "Suc fuel" d ctx acc] by (simp add: terms_lex_def del: terms_loop.simps)
  next
    case (Cons t vs)
    have ct: "canon_term (SCOPE_DEPTH_MAX - d) t" using Suc.prems(1) Cons by simp
    obtain k ks where k: "term_lex t = k # ks" "fst k \<notin> {Eof, RBrace}" using term_lex_hd [OF ct] by auto
    have len: "length (term_lex t) < Suc fuel" using Suc.prems(3) Cons by (cases vs) (auto simp: terms_lex_Cons)
    have scope: "reads (d + 1) any_end (terms_loop fuel Scope []) (terms_lex ts @ [(RBrace, [])]) ts" if "t_body t = ScopeBody ts" for ts
    proof -
      have tx: "length (terms_lex ts) + 2 \<le> length (term_lex t)" using that by (cases t) (auto simp: terms_lex_def)
      have "reads (d + 1) (list_end Scope) (terms_loop fuel Scope []) (terms_lex ts @ close_lex Scope) ([] @ ts)"
        using ct that tx len by (intro Suc.IH; cases t) auto
      then have "reads (d + 1) (list_end Scope) (terms_loop fuel Scope []) (terms_lex ts @ [(RBrace, [])]) ts" by (simp add: close_lex_def)
      then show ?thesis by (rule reads_weaken) (simp add: list_end_def)
    qed
    have tm: "reads d term_end (parse_term (terms_loop fuel Scope [])) (term_lex t) (as_and t)"
      by (rule reads_term [OF ct scope])
    define rest where "rest = (if vs = [] then close_lex ctx else (if t_oper t = OOr then (OrOr, []) else (Comma, [])) # terms_lex vs @ close_lex ctx)"
    have lx: "terms_lex us @ close_lex ctx = term_lex t @ rest" using Cons by (cases vs) (auto simp: terms_lex_Cons rest_def)
    have ends: "term_end (rest @ r)" if "list_end ctx r" for r
      using that by (cases ctx) (auto simp: rest_def term_end_def close_lex_def list_end_def)
    have next_terms: "reads d (list_end ctx) (bind_p (separator (acc @ [as_and t])) (terms_loop fuel ctx)) rest (acc @ us)"
    proof (cases vs)
      case Nil
      have "t_oper t \<noteq> OOr" using Suc.prems(2) Cons Nil by simp
      note sep = reads_separator_end [OF this, of d acc]
      have "0 < fuel" using Suc.prems(3) Cons Nil k by (simp add: terms_lex_Cons)
      then have "reads d (list_end ctx) (bind_p (separator (acc @ [as_and t])) (terms_loop fuel ctx)) ([] @ close_lex ctx) (acc @ [t])"
        by (intro reads_bind [OF sep reads_terms_done]) (cases ctx; auto simp: close_lex_def list_end_def)+
      then show ?thesis using Nil Cons by (simp add: rest_def)
    next
      case (Cons v ws)
      obtain k' ks' where k': "term_lex v = k' # ks'" "fst k' \<notin> {Eof, RBrace}"
        using Suc.prems(1) \<open>us = t # vs\<close> Cons term_lex_hd [of "SCOPE_DEPTH_MAX - d" v] by auto
      have hd': "\<exists>ls. terms_lex vs = k' # ls" using Cons k'(1) by (cases ws) (auto simp: terms_lex_Cons)
      have "reads d (list_end ctx) (terms_loop fuel ctx (acc @ [t])) (terms_lex vs @ close_lex ctx) ((acc @ [t]) @ vs)"
        using Suc.prems \<open>us = t # vs\<close> Cons by (intro Suc.IH) (auto simp: terms_lex_Cons)
      then have "reads d (list_end ctx) (bind_p (separator (acc @ [as_and t])) (terms_loop fuel ctx))
          ([if t_oper t = OOr then (OrOr, []) else (Comma, [])] @ terms_lex vs @ close_lex ctx) ((acc @ [t]) @ vs)"
        by (rule reads_bind [OF reads_separator_more]) (use hd' k'(2) in auto)
      then show ?thesis using Cons \<open>us = t # vs\<close> by (simp add: rest_def)
    qed
    have "reads d (list_end ctx) (bind_p (parse_term (terms_loop fuel Scope [])) (\<lambda>new. bind_p (separator (acc @ [new])) (terms_loop fuel ctx)))
        (term_lex t @ rest) (acc @ us)"
      by (rule reads_bind [OF tm]) (use ends next_terms in auto)
    then show ?thesis unfolding terms_loop_step lx
      using k by (intro reads_peek) (auto simp: lexeme_def elim!: reads_weaken)
  qed
qed simp

section \<open>Queries\<close>

text \<open>The text of a non-empty query is not the text \<^verbatim>\<open>0\<close> of the empty one.\<close>

lemma write_terms_not_zero:
  assumes "\<forall>t \<in> set ts. canon_term d t" and "ts \<noteq> []"
  shows "write_terms ts \<noteq> ''0''"
proof
  assume z: "write_terms ts = ''0''"
  obtain toks where toks: "lex ''0'' = Ok toks" "map lexeme toks = terms_lex ts @ [(Eof, [])]"
    using lex_rendered [OF assms(1)] z by auto
  have "lex ''0'' = Ok [\<lparr>tk_kind = Number, tk_text = ''0'', tk_span = \<lparr>span_start = 0, span_end = 1\<rparr>\<rparr>, eof_token 1]" by code_simp
  with toks have one: "terms_lex ts = [(Number, ''0'')]" by (auto simp: lexeme_def eof_token_def)
  obtain t us where ts: "ts = t # us" using assms(2) by (cases ts) auto
  obtain k ks where "term_lex t = k # ks" "fst k \<noteq> Number" using term_lex_hd [of d t] assms(1) ts by auto
  then show False using one ts by (cases us) (auto simp: terms_lex_Cons)
qed

lemma show_parse:
  assumes "canonical q" shows "parse (show_query q) = Ok q"
proof (cases "q_terms q = []")
  case True
  then show ?thesis by (cases q) (simp add: show_query_def parse_def)
next
  case False
  let ?ts = "q_terms q"
  have c: "\<forall>t \<in> set ?ts. canon_term (SCOPE_DEPTH_MAX - 0) t" "t_oper (last ?ts) \<noteq> OOr" using assms False by (auto simp: canonical_def)
  obtain toks where toks: "lex (write_terms ?ts) = Ok toks" "map lexeme toks = terms_lex ?ts @ [(Eof, [])]"
    using lex_rendered [of ?ts SCOPE_DEPTH_MAX] c(1) by auto
  let ?p = "\<lparr>ps_tokens = toks, ps_index = 0, ps_scope_depth = 0\<rparr>"
  have "length toks = Suc (length (terms_lex ?ts))" using arg_cong [OF toks(2), of length] by simp
  then have "reads 0 (list_end TopLevel) (terms_loop (length toks) TopLevel []) (terms_lex ?ts @ close_lex TopLevel) ([] @ ?ts)"
    using c by (intro reads_terms) auto
  moreover have "at ?p ((terms_lex ?ts @ close_lex TopLevel) @ [(Eof, [])])" using toks(2) by (simp add: at_def close_lex_def)
  ultimately obtain p' where "terms_loop (length toks) TopLevel [] ?p = Ok (?ts, p')"
    unfolding reads_def list_end_def by fastforce
  moreover have "write_terms ?ts \<noteq> ''0''" using c(1) False by (intro write_terms_not_zero) auto
  ultimately show ?thesis using False toks(1) by (cases q) (simp add: show_query_def parse_def)
qed

end
