(* ===== verification/Dag_Spec.thy ===== *)
theory Dag_Spec
  imports Topo_Order BTree_Map Byte_Text
begin

text \<open>
  The graph side of \<^verbatim>\<open>packages/dag-runner/src/main.rs\<close>: the node specifications of a run, their
  validation, the restriction to \<^verbatim>\<open>--only\<close> names, the choice of the output mode, the depth-first
  cycle check, and the depth-first order in which the nodes are spawned.

  A \<^verbatim>\<open>HashMap\<close> of nodes is the list of its entries in its iteration order, with distinct keys.
  The order is arbitrary, so a statement about all such lists is a statement about every iteration
  order. An \<^verbatim>\<open>anyhow\<close> error is its message.
\<close>

section \<open>Node specifications\<close>

datatype kind = Task | Service

datatype stdio_mode = Capture | Prefixed | InheritStdio

datatype log_stream = Stdout | Stderr | Either

record http_ready =
  hr_url :: string
  hr_status :: nat
  hr_body_contains :: "string option"

datatype ready_when = TcpReady string | LogLineReady string log_stream | HttpReady http_ready

record node_spec =
  command :: "string list"
  depends_on :: "string list"
  node_env :: "(string, string) btree"
  timeout_secs :: "nat option"
  node_kind :: kind
  ready_probe :: "ready_when option"
  ready_timeout_secs :: nat
  node_stdio :: stdio_mode
  lifeline_fd :: "int option"

type_synonym nodes = "(string \<times> node_spec) list"

definition default_ready_status :: nat where
  "default_ready_status = 200"

definition default_ready_timeout_secs :: nat where
  "default_ready_timeout_secs = 60"

definition is_service :: "node_spec \<Rightarrow> bool" where
  "is_service node \<longleftrightarrow> node_kind node = Service"

datatype output_mode = Auto | Tui | Plain | Json

text \<open>\<^verbatim>\<open>nodes[name]\<close> panics on an unknown name.\<close>

definition node_at :: "nodes \<Rightarrow> string \<Rightarrow> ('e, node_spec) res" where
  "node_at nodes name = expect_some (map_of nodes name)"

definition quoted :: "string \<Rightarrow> string" where
  "quoted s = [CHR 0x22] @ s @ [CHR 0x22]"

section \<open>Output mode\<close>

definition inheriting :: "nodes \<Rightarrow> string list" where
  "inheriting nodes = sort (map fst (filter (\<lambda>(_, node). node_stdio node = InheritStdio) nodes))"

definition resolve_mode :: "output_mode \<Rightarrow> bool \<Rightarrow> nodes \<Rightarrow> (string, output_mode) res" where
  "resolve_mode requested is_terminal nodes =
     (let inherited = inheriting nodes in
      case requested of
        Auto \<Rightarrow> Ok (if inherited = [] \<and> is_terminal then Tui else Plain)
      | Tui \<Rightarrow>
          if inherited \<noteq> [] then Err (''--output tui cannot be used with '' @ quoted ''stdio'' @ '': '' @ quoted ''inherit'' @ '' (''
            @ intersperse '', '' inherited @ ''): an inherited child writes over the spinners. Use --output plain, or set those nodes to ''
            @ quoted ''prefixed'' @ ''.'')
          else Ok Tui
      | Json \<Rightarrow>
          if inherited \<noteq> [] then Err (''--output json cannot be used with '' @ quoted ''stdio'' @ '': '' @ quoted ''inherit'' @ '' (''
            @ intersperse '', '' inherited @ ''): an inherited child writes into the NDJSON stream on stdout. Set those nodes to ''
            @ quoted ''prefixed'' @ '', whose echo goes to stderr.'')
          else Ok Json
      | Plain \<Rightarrow> Ok Plain)"

section \<open>Validation of a node\<close>

definition check_probe :: "string \<Rightarrow> node_spec \<Rightarrow> (string, unit) res" where
  "check_probe name node =
     (case (node_kind node, ready_probe node) of
        (Task, Some _) \<Rightarrow> Err (''node '' @ name @ '' is a task but sets ready_when; a task is ready when it exits zero. Set ''
          @ quoted ''kind'' @ '': '' @ quoted ''service'' @ '' if it is meant to stay up.'')
      | (Service, None) \<Rightarrow> Err (''node '' @ name @ '' is a service but sets no ready_when; without one a dependent would start ''
          @ ''against a process that has not finished coming up. Add a tcp, http, or log_line probe.'')
      | _ \<Rightarrow> Ok ())"

definition check_timeout :: "string \<Rightarrow> node_spec \<Rightarrow> (string, unit) res" where
  "check_timeout name node =
     (if is_service node \<and> timeout_secs node \<noteq> None
      then Err (''node '' @ name @ '' is a service but sets timeout_secs; a service is expected to stay up for the whole run. ''
        @ ''Use ready_timeout_secs to bound how long it may take to come up.'')
      else Ok ())"

fun is_log_line :: "ready_when option \<Rightarrow> bool" where
  "is_log_line (Some (LogLineReady _ _)) = True"
| "is_log_line _ = False"

definition check_stdio :: "string \<Rightarrow> node_spec \<Rightarrow> (string, unit) res" where
  "check_stdio name node =
     (if node_stdio node = InheritStdio \<and> is_log_line (ready_probe node)
      then Err (''node '' @ name @ '' asks for log_line readiness with '' @ quoted ''stdio'' @ '': '' @ quoted ''inherit''
        @ ''; an inherited stream goes straight to the terminal and the runner never sees a line to match. Use the default ''
        @ quoted ''capture'' @ '', or '' @ quoted ''prefixed'' @ ''.'')
      else Ok ())"

definition check_lifeline :: "string \<Rightarrow> node_spec \<Rightarrow> (string, unit) res" where
  "check_lifeline name node =
     (case lifeline_fd node of
        Some fd \<Rightarrow>
          if fd < 3 then Err (''node '' @ name @ '' sets lifeline_fd '' @ show_int fd @ ''; 0, 1 and 2 are the child's own stdio and a ''
            @ ''negative number is not a descriptor. Pick 3 or above.'')
          else Ok ()
      | None \<Rightarrow> Ok ())"

definition validate_node :: "string \<Rightarrow> node_spec \<Rightarrow> (string, unit) res" where
  "validate_node name node =
     (if command node = [] then Err (''node '' @ name @ '' has empty command'')
      else bind_res (check_probe name node) (\<lambda>_.
           bind_res (check_timeout name node) (\<lambda>_.
           bind_res (check_stdio name node) (\<lambda>_.
           check_lifeline name node))))"

section \<open>The cycle check\<close>

datatype cycle_color = Gray | Black

type_synonym colors = "string \<Rightarrow> cycle_color option"

text \<open>
  The recursion of \<^verbatim>\<open>visit_cycle\<close> is as deep as its stack, which holds distinct nodes. The first
  argument bounds the depth; running out of it is a panic, which the bound of \<^verbatim>\<open>detect_cycle\<close> rules out.
\<close>

fun visit_cycle :: "nat \<Rightarrow> nodes \<Rightarrow> string \<Rightarrow> colors \<times> string list \<Rightarrow> (string, colors \<times> string list) res" where
  "visit_cycle 0 nodes name (color, stack) = Panic"
| "visit_cycle (Suc depth) nodes name (color, stack) =
     (case color name of
        Some Gray \<Rightarrow> Err (''cycle detected: '' @ intersperse '' -> '' (stack @ [name]))
      | Some Black \<Rightarrow> Ok (color, stack)
      | None \<Rightarrow>
          bind_res (node_at nodes name) (\<lambda>node.
          bind_res (fold_res (visit_cycle depth nodes) (depends_on node) (color(name \<mapsto> Gray), stack @ [name]))
            (\<lambda>(color, stack). Ok (color(name \<mapsto> Black), butlast stack))))"

definition detect_cycle :: "nodes \<Rightarrow> (string, unit) res" where
  "detect_cycle nodes =
     bind_res (fold_res (\<lambda>name color.
         bind_res (visit_cycle (Suc (length nodes)) nodes name (color, [])) (\<lambda>(color, _). Ok color))
       (sort (map fst nodes)) Map.empty)
     (\<lambda>_. Ok ())"

section \<open>Validation of a specification\<close>

fun validate_deps :: "nodes \<Rightarrow> string \<Rightarrow> string list \<Rightarrow> (string, unit) res" where
  "validate_deps nodes name [] = Ok ()"
| "validate_deps nodes name (dep # deps) =
     (if dep \<notin> fst ` set nodes then Err (''node '' @ name @ '' depends on unknown node '' @ dep)
      else validate_deps nodes name deps)"

fun validate_nodes :: "nodes \<Rightarrow> (string \<times> node_spec) list \<Rightarrow> (string, unit) res" where
  "validate_nodes nodes [] = Ok ()"
| "validate_nodes nodes ((name, node) # rest) =
     bind_res (validate_node name node) (\<lambda>_.
     bind_res (validate_deps nodes name (depends_on node)) (\<lambda>_.
     validate_nodes nodes rest))"

definition validate :: "nodes \<Rightarrow> (string, unit) res" where
  "validate nodes = bind_res (validate_nodes nodes nodes) (\<lambda>_. detect_cycle nodes)"

section \<open>Restriction to named nodes\<close>

definition missing_names :: "nodes \<Rightarrow> string list \<Rightarrow> string list" where
  "missing_names nodes only = sort (filter (\<lambda>name. name \<notin> fst ` set nodes) (remdups only))"

definition dangling_edges :: "nodes \<Rightarrow> string list \<Rightarrow> string list" where
  "dangling_edges nodes only =
     sort (concat (map (\<lambda>(name, node). map (\<lambda>dep. name @ '' -> '' @ dep) (filter (\<lambda>dep. dep \<notin> set only) (depends_on node))) nodes))"

definition filter_only :: "nodes \<Rightarrow> string list \<Rightarrow> (string, nodes) res" where
  "filter_only nodes only =
     (let missing = missing_names nodes only in
      if missing \<noteq> [] then Err (''--only names not found in spec: '' @ intersperse '', '' missing)
      else
        let kept = filter (\<lambda>(name, _). name \<in> set only) nodes; dangling = dangling_edges kept only in
        if dangling \<noteq> [] then Err (''--only would drop dependencies of kept nodes: '' @ intersperse '', '' dangling
          @ ''; add the missing names to --only'')
        else Ok kept)"

section \<open>The spawn order\<close>

fun visit_topo :: "nat \<Rightarrow> nodes \<Rightarrow> string \<Rightarrow> string set \<times> string list \<Rightarrow> (string, string set \<times> string list) res" where
  "visit_topo 0 nodes name (visited, order) = Panic"
| "visit_topo (Suc depth) nodes name (visited, order) =
     (if name \<in> visited then Ok (visited, order)
      else
        bind_res (node_at nodes name) (\<lambda>node.
        bind_res (fold_res (visit_topo depth nodes) (depends_on node) (insert name visited, order))
          (\<lambda>(visited, order). Ok (visited, order @ [name]))))"

definition topological_order :: "nodes \<Rightarrow> (string, string list) res" where
  "topological_order nodes =
     bind_res (fold_res (visit_topo (Suc (length nodes)) nodes) (sort (map fst nodes)) ({}, [])) (\<lambda>(_, order). Ok order)"

text \<open>The part of \<^verbatim>\<open>main\<close> before anything is spawned.\<close>

definition prepare :: "string list \<Rightarrow> output_mode \<Rightarrow> bool \<Rightarrow> nodes \<Rightarrow> (string, nodes \<times> output_mode) res" where
  "prepare only requested is_terminal nodes =
     bind_res (if only \<noteq> [] then filter_only nodes only else Ok nodes) (\<lambda>spec.
     bind_res (validate spec) (\<lambda>_.
     bind_res (resolve_mode requested is_terminal spec) (\<lambda>mode.
     Ok (spec, mode))))"

section \<open>The graph\<close>

definition node_names :: "nodes \<Rightarrow> string set" where
  "node_names nodes = fst ` set nodes"

definition node_deps :: "nodes \<Rightarrow> string \<Rightarrow> string set" where
  "node_deps nodes n = (case map_of nodes n of Some node \<Rightarrow> set (depends_on node) | None \<Rightarrow> {})"

definition dag_rel :: "nodes \<Rightarrow> (string \<times> string) set" where
  "dag_rel nodes = {(d, n). d \<in> node_deps nodes n}"

definition closed :: "nodes \<Rightarrow> bool" where
  "closed nodes \<longleftrightarrow> (\<forall>n. node_deps nodes n \<subseteq> node_names nodes)"

lemma node_at_names: "n \<in> node_names nodes \<Longrightarrow> \<exists>node. map_of nodes n = Some node \<and> node_deps nodes n = set (depends_on node)"
  by (cases "map_of nodes n") (auto simp: node_names_def node_deps_def map_of_eq_None_iff)

lemma finite_names [simp]: "finite (node_names nodes)"
  by (simp add: node_names_def)

lemma card_names: "card (node_names nodes) \<le> length nodes"
  unfolding node_names_def by (metis card_length length_map list.set_map)

lemma stack_bound: "distinct stack \<Longrightarrow> set stack \<subseteq> node_names nodes \<Longrightarrow> length stack \<le> length nodes"
  using card_mono [of "node_names nodes" "set stack"] card_names [of nodes] by (simp add: distinct_card)

end
