(* ===== verification/Dag_Graph.thy ===== *)
theory Dag_Graph
  imports Dag_Spec "HOL-Library.Multiset"
begin

text \<open>
  Correctness of the two depth-first walks of the DAG runner. The cycle check succeeds exactly on
  acyclic graphs and otherwise reports a walk along dependencies that ends where it has been before;
  the spawn order lists every node once, after all it depends on. Neither walk indexes an unknown node
  nor goes deeper than the number of nodes.
\<close>

section \<open>The cycle check\<close>

abbreviation dep_walk :: "nodes \<Rightarrow> string list \<Rightarrow> bool" where
  "dep_walk nodes \<equiv> successively (\<lambda>n d. d \<in> node_deps nodes n)"

definition reports_cycle :: "nodes \<Rightarrow> string \<Rightarrow> bool" where
  "reports_cycle nodes e \<longleftrightarrow>
     (\<exists>pre n via. e = ''cycle detected: '' @ intersperse '' -> '' (pre @ n # via @ [n]) \<and> dep_walk nodes (pre @ n # via @ [n]))"

lemma dep_walk_reach: "dep_walk nodes (n # ms) \<Longrightarrow> ms \<noteq> [] \<Longrightarrow> (last ms, n) \<in> (dag_rel nodes)\<^sup>+"
proof (induction ms arbitrary: n)
  case (Cons m ms)
  have e: "(m, n) \<in> dag_rel nodes" using Cons.prems(1) by (simp add: dag_rel_def)
  show ?case
  proof (cases "ms = []")
    case False
    with Cons have "(last ms, m) \<in> (dag_rel nodes)\<^sup>+" by simp
    with e False show ?thesis by auto
  qed (use e in auto)
qed simp

lemma reports_cycle_real:
  assumes "reports_cycle nodes e"
  shows "\<not> acyclic (dag_rel nodes)"
proof -
  obtain pre n via where "dep_walk nodes (pre @ n # via @ [n])" using assms by (auto simp: reports_cycle_def)
  then have "dep_walk nodes (n # via @ [n])" by (simp add: successively_append_iff)
  from dep_walk_reach [OF this] show ?thesis by (auto simp: acyclic_def)
qed

definition black_rel :: "nodes \<Rightarrow> colors \<Rightarrow> (string \<times> string) set" where
  "black_rel nodes color = {(d, n). color n = Some Black \<and> d \<in> node_deps nodes n}"

text \<open>
  The state of the walk: the gray nodes are the stack, a walk along dependencies; the black nodes are
  closed under dependencies and acyclic.
\<close>

definition dfs_inv :: "nodes \<Rightarrow> colors \<Rightarrow> string list \<Rightarrow> bool" where
  "dfs_inv nodes color stack \<longleftrightarrow>
     distinct stack \<and> set stack = {n. color n = Some Gray} \<and> set stack \<subseteq> node_names nodes \<and> dep_walk nodes stack
     \<and> (\<forall>n. color n = Some Black \<longrightarrow> (\<forall>d \<in> node_deps nodes n. color d = Some Black))
     \<and> acyclic (black_rel nodes color)"

definition blacker :: "colors \<Rightarrow> colors \<Rightarrow> bool" where
  "blacker color color' \<longleftrightarrow> (\<forall>n. color n = Some Black \<longrightarrow> color' n = Some Black)"

lemma dfs_inv_push:
  assumes "dfs_inv nodes color stack" and "color n = None" and "n \<in> node_names nodes"
    and "stack = [] \<or> n \<in> node_deps nodes (last stack)"
  shows "dfs_inv nodes (color(n \<mapsto> Gray)) (stack @ [n])"
proof -
  have "black_rel nodes (color(n \<mapsto> Gray)) = black_rel nodes color"
    using assms(2) by (auto simp: black_rel_def)
  moreover have "{m. (color(n \<mapsto> Gray)) m = Some Gray} = insert n {m. color m = Some Gray}" by auto
  ultimately show ?thesis using assms by (auto simp: dfs_inv_def successively_append_iff)
qed

text \<open>A node whose dependencies are all black can turn black: nothing black depends on it.\<close>

lemma acyclic_black:
  assumes "acyclic (black_rel nodes color)" and "color n \<noteq> Some Black"
    and closed: "\<And>m d. color m = Some Black \<Longrightarrow> d \<in> node_deps nodes m \<Longrightarrow> color d = Some Black"
    and deps: "\<And>d. d \<in> node_deps nodes n \<Longrightarrow> color d = Some Black"
  shows "acyclic (black_rel nodes (color(n \<mapsto> Black)))"
proof -
  let ?R = "black_rel nodes (color(n \<mapsto> Black))"
  have black: "color d = Some Black" if "(d, m) \<in> ?R" for d m
    using that closed deps by (auto simp: black_rel_def split: if_splits)
  have "color a = Some Black" if "(a, b) \<in> ?R\<^sup>+" for a b
    using that by (induction rule: converse_trancl_induct) (auto intro: black)
  moreover have "(a, b) \<in> (black_rel nodes color)\<^sup>+" if "(a, b) \<in> ?R\<^sup>+" "b \<noteq> n" for a b
    using that
  proof (induction rule: trancl_induct)
    case (base b)
    then show ?case by (auto simp: black_rel_def)
  next
    case (step b c)
    then have "b \<noteq> n" using black [of b c] assms(2) by auto
    moreover have "(b, c) \<in> black_rel nodes color" using step by (auto simp: black_rel_def)
    ultimately show ?case using step.IH by auto
  qed
  ultimately show ?thesis using assms(1,2) unfolding acyclic_def by metis
qed

lemma dfs_inv_pop:
  assumes "dfs_inv nodes color (stack @ [n])" and "\<And>d. d \<in> node_deps nodes n \<Longrightarrow> color d = Some Black"
  shows "dfs_inv nodes (color(n \<mapsto> Black)) stack"
proof -
  have "color n = Some Gray" "n \<notin> set stack" using assms(1) by (auto simp: dfs_inv_def)
  then have "acyclic (black_rel nodes (color(n \<mapsto> Black)))"
    using assms by (intro acyclic_black) (auto simp: dfs_inv_def)
  moreover have "set stack = {m. (color(n \<mapsto> Black)) m = Some Gray}"
    using assms(1) \<open>n \<notin> set stack\<close> by (auto simp: dfs_inv_def)
  ultimately show ?thesis using assms by (auto simp: dfs_inv_def successively_append_iff)
qed

text \<open>The loop over the dependencies of a node, given that the walk is right one level deeper.\<close>

definition visited_from :: "nodes \<Rightarrow> colors \<Rightarrow> string list \<Rightarrow> string list \<Rightarrow> colors \<times> string list \<Rightarrow> bool" where
  "visited_from nodes color stack ds = (\<lambda>(c, s).
     s = stack \<and> dfs_inv nodes c stack \<and> (\<forall>d \<in> set ds. c d = Some Black) \<and> blacker color c)"

lemma visit_cycle_loop:
  assumes "\<And>d c. d \<in> set ds \<Longrightarrow> dfs_inv nodes c stack \<Longrightarrow>
      ends (visit d (c, stack)) (visited_from nodes c stack [d]) (reports_cycle nodes)"
    and "dfs_inv nodes color stack"
  shows "ends (fold_res visit ds (color, stack)) (visited_from nodes color stack ds) (reports_cycle nodes)"
proof (rule ends_fold_res [where I = "visited_from nodes color stack"])
  show "visited_from nodes color stack [] (color, stack)"
    using assms(2) by (simp add: visited_from_def blacker_def)
  fix es d fs and s :: "colors \<times> string list"
  assume split: "ds = es @ d # fs" and I: "visited_from nodes color stack es s"
  then obtain c where s: "s = (c, stack)" and inv: "dfs_inv nodes c stack" by (cases s) (auto simp: visited_from_def)
  from split have "d \<in> set ds" by simp
  from assms(1) [OF this inv] show "ends (visit d s) (visited_from nodes color stack (es @ [d])) (reports_cycle nodes)"
    unfolding s by (rule ends_mono) (use I s in \<open>auto simp: visited_from_def blacker_def\<close>)
qed

lemma visit_cycle_gray:
  assumes "dfs_inv nodes color stack" and "color n = Some Gray" and "stack = [] \<or> n \<in> node_deps nodes (last stack)"
  shows "reports_cycle nodes (''cycle detected: '' @ intersperse '' -> '' (stack @ [n]))"
proof -
  obtain pre via where "stack = pre @ n # via"
    using assms(1,2) split_list [of n stack] by (auto simp: dfs_inv_def)
  moreover have "dep_walk nodes (stack @ [n])"
    using assms(1,3) by (auto simp: dfs_inv_def successively_append_iff)
  ultimately show ?thesis
    unfolding reports_cycle_def by (intro exI [of _ pre] exI [of _ n] exI [of _ via]) simp
qed

lemma visit_cycle_correct:
  assumes "closed nodes" and "dfs_inv nodes color stack" and "n \<in> node_names nodes"
    and "stack = [] \<or> n \<in> node_deps nodes (last stack)" and "length nodes < depth + length stack"
  shows "ends (visit_cycle depth nodes n (color, stack)) (visited_from nodes color stack [n]) (reports_cycle nodes)"
  using assms(2-)
proof (induction depth arbitrary: n color stack)
  case 0
  then show ?case using stack_bound [of stack nodes] by (auto simp: dfs_inv_def)
next
  case (Suc depth)
  consider "color n = Some Gray" | "color n = Some Black" | "color n = None"
    by (metis cycle_color.exhaust not_None_eq)
  then show ?case
  proof cases
    case 1
    with visit_cycle_gray [OF Suc.prems(1)] Suc.prems(3) show ?thesis by simp
  next
    case 2
    with Suc.prems show ?thesis by (simp add: visited_from_def blacker_def)
  next
    case 3
    obtain node where node: "map_of nodes n = Some node" "node_deps nodes n = set (depends_on node)"
      using node_at_names [OF Suc.prems(2)] by blast
    let ?c = "color(n \<mapsto> Gray)" and ?s = "stack @ [n]"
    have "ends (fold_res (visit_cycle depth nodes) (depends_on node) (?c, ?s))
      (visited_from nodes ?c ?s (depends_on node)) (reports_cycle nodes)"
    proof (rule visit_cycle_loop)
      fix d c
      assume "d \<in> set (depends_on node)" and "dfs_inv nodes c ?s"
      then show "ends (visit_cycle depth nodes d (c, ?s)) (visited_from nodes c ?s [d]) (reports_cycle nodes)"
        using Suc.IH [of c ?s d] Suc.prems(4) assms(1) node(2) by (auto simp: closed_def)
    qed (rule dfs_inv_push [OF Suc.prems(1) 3 Suc.prems(2,3)])
    then have "ends (fold_res (visit_cycle depth nodes) (depends_on node) (?c, ?s))
        (\<lambda>(c, s). visited_from nodes color stack [n] (c(n \<mapsto> Black), butlast s)) (reports_cycle nodes)"
      by (rule ends_mono) (use 3 node(2) in \<open>auto simp: visited_from_def blacker_def split: if_splits intro!: dfs_inv_pop\<close>)
    with 3 node(1) show ?thesis
      by (auto simp: node_at_def ends_bind elim!: ends_mono)
  qed
qed

lemma detect_cycle_correct:
  assumes "closed nodes"
  shows "ends (detect_cycle nodes) (\<lambda>_. acyclic (dag_rel nodes)) (reports_cycle nodes)"
proof -
  let ?I = "\<lambda>ns c. dfs_inv nodes c [] \<and> (\<forall>n \<in> set ns. c n = Some Black)"
  have "ends (fold_res (\<lambda>name color.
         bind_res (visit_cycle (Suc (length nodes)) nodes name (color, [])) (\<lambda>(color, _). Ok color))
       (sort (map fst nodes)) Map.empty) (?I (sort (map fst nodes))) (reports_cycle nodes)"
  proof (rule ends_fold_res)
    show "?I [] Map.empty" by (simp add: dfs_inv_def black_rel_def acyclic_def)
    fix ns n ms c
    assume split: "sort (map fst nodes) = ns @ n # ms" and I: "?I ns c"
    have "n \<in> set (sort (map fst nodes))" by (simp add: split)
    then have n: "n \<in> node_names nodes" by (simp add: node_names_def)
    show "ends (bind_res (visit_cycle (Suc (length nodes)) nodes n (c, [])) (\<lambda>(color, _). Ok color)) (?I (ns @ [n])) (reports_cycle nodes)"
      unfolding ends_bind using visit_cycle_correct [OF assms _ n, of c "[]" "Suc (length nodes)"] I
      by (auto elim!: ends_mono simp: visited_from_def blacker_def)
  qed
  then show ?thesis
    unfolding detect_cycle_def ends_bind
  proof (rule ends_mono)
    fix c
    assume I: "?I (sort (map fst nodes)) c"
    have "dag_rel nodes \<subseteq> black_rel nodes c"
      using I by (auto simp: dag_rel_def black_rel_def node_deps_def dest: map_of_SomeD split: option.splits intro!: bexI)
        (metis fst_conv image_eqI map_of_SomeD)
    with I show "ends (Ok ()) (\<lambda>_. acyclic (dag_rel nodes)) (reports_cycle nodes)"
      by (auto simp: dfs_inv_def intro: acyclic_subset)
  qed
qed

section \<open>The spawn order\<close>

definition deps_first :: "nodes \<Rightarrow> string list \<Rightarrow> bool" where
  "deps_first nodes order \<longleftrightarrow> (\<forall>xs n ys. order = xs @ n # ys \<longrightarrow> node_deps nodes n \<subseteq> set xs)"

lemma deps_first_Nil [simp]: "deps_first nodes []"
  by (simp add: deps_first_def)

lemma deps_first_snoc: "deps_first nodes order \<Longrightarrow> node_deps nodes n \<subseteq> set order \<Longrightarrow> deps_first nodes (order @ [n])"
  unfolding deps_first_def by (auto simp: append_eq_append_conv2 append_eq_Cons_conv Cons_eq_append_conv)

text \<open>The nodes entered but not yet listed are the ones below which the walk currently is.\<close>

definition spawn_inv :: "nodes \<Rightarrow> string set \<times> string list \<Rightarrow> bool" where
  "spawn_inv nodes = (\<lambda>(visited, order).
     distinct order \<and> set order \<subseteq> visited \<and> visited \<subseteq> node_names nodes \<and> deps_first nodes order)"

definition open_nodes :: "string set \<times> string list \<Rightarrow> string set" where
  "open_nodes = (\<lambda>(visited, order). visited - set order)"

definition listed_in :: "string set \<times> string list \<Rightarrow> string set \<times> string list \<Rightarrow> bool" where
  "listed_in s s' \<longleftrightarrow> open_nodes s' = open_nodes s \<and> (\<exists>more. snd s' = snd s @ more)"

lemma listed_in_refl [simp]: "listed_in s s"
  by (simp add: listed_in_def)

lemma listed_in_trans: "listed_in a b \<Longrightarrow> listed_in b c \<Longrightarrow> listed_in a c"
  by (auto simp: listed_in_def)

lemma listed_in_set: "listed_in s s' \<Longrightarrow> n \<in> set (snd s) \<Longrightarrow> n \<in> set (snd s')"
  by (auto simp: listed_in_def)

text \<open>The walk below a node: none of the open nodes is among what the node depends on.\<close>

definition below_open :: "nodes \<Rightarrow> string \<Rightarrow> string set \<times> string list \<Rightarrow> bool" where
  "below_open nodes n s \<longleftrightarrow> (\<forall>g \<in> open_nodes s. (g, n) \<notin> (dag_rel nodes)\<^sup>*)"

lemma below_open_dep:
  assumes "acyclic (dag_rel nodes)" and "below_open nodes n (visited, order)" and "d \<in> node_deps nodes n"
  shows "below_open nodes d (insert n visited, order)"
proof -
  have dn: "(d, n) \<in> dag_rel nodes" using assms(3) by (simp add: dag_rel_def)
  have "(n, d) \<notin> (dag_rel nodes)\<^sup>*"
    using assms(1) dn by (meson acyclic_def rtrancl_into_trancl1)
  moreover have "(g, d) \<notin> (dag_rel nodes)\<^sup>*" if "(g, n) \<notin> (dag_rel nodes)\<^sup>*" for g
    using that dn by (meson rtrancl.rtrancl_into_rtrancl)
  ultimately show ?thesis using assms(2) by (auto simp: below_open_def open_nodes_def)
qed

lemma open_bound:
  assumes "spawn_inv nodes s"
  shows "card (open_nodes s) \<le> length nodes"
proof -
  have "open_nodes s \<subseteq> node_names nodes" using assms by (auto simp: spawn_inv_def open_nodes_def)
  then show ?thesis using card_names [of nodes] card_mono [of "node_names nodes"] by (meson finite_names le_trans)
qed

text \<open>Entering a node opens it; listing it closes it again.\<close>

lemma topo_enter:
  assumes "spawn_inv nodes (visited, order)" and "n \<in> node_names nodes" and "n \<notin> visited"
  shows "spawn_inv nodes (insert n visited, order)"
    and "open_nodes (insert n visited, order) = insert n (open_nodes (visited, order))"
    and "card (open_nodes (insert n visited, order)) = Suc (card (open_nodes (visited, order)))"
proof -
  show "spawn_inv nodes (insert n visited, order)" using assms by (auto simp: spawn_inv_def)
  show eq: "open_nodes (insert n visited, order) = insert n (open_nodes (visited, order))"
    using assms by (auto simp: spawn_inv_def open_nodes_def)
  have "finite visited" using assms(1) by (auto simp: spawn_inv_def intro: finite_subset)
  then show "card (open_nodes (insert n visited, order)) = Suc (card (open_nodes (visited, order)))"
    using assms(3) unfolding eq by (auto simp: open_nodes_def)
qed

lemma topo_leave:
  assumes "spawn_inv nodes s" and "listed_in (insert n visited, order) s" and "n \<notin> visited"
    and "spawn_inv nodes (visited, order)" and "node_deps nodes n \<subseteq> set (snd s)"
  shows "spawn_inv nodes (fst s, snd s @ [n])" and "listed_in (visited, order) (fst s, snd s @ [n])"
proof -
  obtain v o' where s: "s = (v, o')" by (cases s)
  have op: "v - set o' = insert n visited - set order" and n: "n \<notin> set order"
    using assms(2-4) by (auto simp: s listed_in_def open_nodes_def spawn_inv_def)
  then have "n \<in> v" "n \<notin> set o'" by auto
  with assms(1,5) show "spawn_inv nodes (fst s, snd s @ [n])"
    by (auto simp: s spawn_inv_def intro: deps_first_snoc)
  show "listed_in (visited, order) (fst s, snd s @ [n])"
    using assms(2,3) op n by (auto simp: s listed_in_def open_nodes_def)
qed

text \<open>The loop over the dependencies of a node, given that the walk is right one level deeper.\<close>

lemma visit_topo_loop:
  assumes "\<And>d s. d \<in> set ds \<Longrightarrow> spawn_inv nodes s \<Longrightarrow> listed_in s0 s \<Longrightarrow>
      ends (visit d s) (\<lambda>s'. spawn_inv nodes s' \<and> listed_in s s' \<and> d \<in> set (snd s')) (\<lambda>_. False)"
    and "spawn_inv nodes s0"
  shows "ends (fold_res visit ds s0)
    (\<lambda>s. spawn_inv nodes s \<and> listed_in s0 s \<and> set ds \<subseteq> set (snd s)) (\<lambda>_. False)"
proof -
  let ?I = "\<lambda>es s. spawn_inv nodes s \<and> listed_in s0 s \<and> set es \<subseteq> set (snd s)"
  show ?thesis
  proof (rule ends_fold_res [where I = ?I])
    fix es d fs s
    assume "ds = es @ d # fs" and I: "?I es s"
    then have "ends (visit d s) (\<lambda>s'. spawn_inv nodes s' \<and> listed_in s s' \<and> d \<in> set (snd s')) (\<lambda>_. False)"
      by (intro assms(1)) auto
    then show "ends (visit d s) (?I (es @ [d])) (\<lambda>_. False)"
      by (rule ends_mono) (use I in \<open>auto intro: listed_in_trans listed_in_set\<close>)
  qed (use assms(2) in simp)
qed

lemma below_open_listed_in: "listed_in s s' \<Longrightarrow> below_open nodes n s' = below_open nodes n s"
  by (simp add: below_open_def listed_in_def)

lemma visit_topo_correct:
  assumes "closed nodes" and "acyclic (dag_rel nodes)"
    and "spawn_inv nodes s" and "n \<in> node_names nodes" and "below_open nodes n s"
    and "length nodes < depth + card (open_nodes s)"
  shows "ends (visit_topo depth nodes n s)
    (\<lambda>s'. spawn_inv nodes s' \<and> listed_in s s' \<and> n \<in> set (snd s')) (\<lambda>_. False)"
  using assms(3-)
proof (induction depth arbitrary: n s)
  case 0
  then show ?case using open_bound [of nodes s] by simp
next
  case (Suc depth)
  obtain visited order where s: "s = (visited, order)" by (cases s)
  show ?case
  proof (cases "n \<in> visited")
    case True
    then have "n \<in> set order" using Suc.prems(3) by (auto simp: s below_open_def open_nodes_def)
    with True Suc.prems(1) show ?thesis by (simp add: s)
  next
    case False
    obtain node where node: "map_of nodes n = Some node" "node_deps nodes n = set (depends_on node)"
      using node_at_names [OF Suc.prems(2)] by blast
    note enter = topo_enter [OF Suc.prems(1) [unfolded s] Suc.prems(2) False]
    have "ends (fold_res (visit_topo depth nodes) (depends_on node) (insert n visited, order))
      (\<lambda>s. spawn_inv nodes s \<and> listed_in (insert n visited, order) s \<and> set (depends_on node) \<subseteq> set (snd s)) (\<lambda>_. False)"
    proof (rule visit_topo_loop [OF _ enter(1)])
      fix d s'
      assume "d \<in> set (depends_on node)" and "spawn_inv nodes s'" and l: "listed_in (insert n visited, order) s'"
      then show "ends (visit_topo depth nodes d s') (\<lambda>s''. spawn_inv nodes s'' \<and> listed_in s' s'' \<and> d \<in> set (snd s'')) (\<lambda>_. False)"
        using assms(1) node(2) below_open_dep [OF assms(2) Suc.prems(3) [unfolded s], of d] Suc.prems(4) enter(3)
        by (intro Suc.IH) (auto simp: closed_def s below_open_listed_in [OF l] listed_in_def)
    qed
    then have "ends (fold_res (visit_topo depth nodes) (depends_on node) (insert n visited, order))
      (\<lambda>s'. spawn_inv nodes (fst s', snd s' @ [n]) \<and> listed_in s (fst s', snd s' @ [n])) (\<lambda>_. False)"
      by (rule ends_mono) (use topo_leave [OF _ _ False Suc.prems(1) [unfolded s]] node(2) in \<open>auto simp: s\<close>)
    then show ?thesis using False node(1) by (auto simp: s node_at_def ends_bind elim!: ends_mono)
  qed
qed

lemma topological_order_correct:
  assumes "closed nodes" and "acyclic (dag_rel nodes)"
  shows "\<exists>order. topological_order nodes = Ok order \<and> distinct order \<and> set order = node_names nodes \<and> deps_first nodes order"
proof -
  have "ends (fold_res (visit_topo (Suc (length nodes)) nodes) (sort (map fst nodes)) ({}, []))
    (\<lambda>s. spawn_inv nodes s \<and> listed_in ({}, []) s \<and> set (sort (map fst nodes)) \<subseteq> set (snd s)) (\<lambda>_. False)"
  proof (rule visit_topo_loop)
    fix n s
    assume "n \<in> set (sort (map fst nodes))" and "spawn_inv nodes s" and "listed_in ({}, []) s"
    then show "ends (visit_topo (Suc (length nodes)) nodes n s)
        (\<lambda>s'. spawn_inv nodes s' \<and> listed_in s s' \<and> n \<in> set (snd s')) (\<lambda>_. False)"
      by (intro visit_topo_correct assms) (auto simp: node_names_def below_open_def listed_in_def open_nodes_def)
  qed (simp add: spawn_inv_def)
  then show ?thesis
    by (auto simp: topological_order_def ends_def spawn_inv_def node_names_def split: res.splits)
qed

section \<open>Validated specifications\<close>

text \<open>What \<^verbatim>\<open>validate_node\<close> asks of a node.\<close>

definition valid_node :: "node_spec \<Rightarrow> bool" where
  "valid_node node \<longleftrightarrow>
     command node \<noteq> [] \<and> (is_service node \<longleftrightarrow> ready_probe node \<noteq> None)
     \<and> (is_service node \<longrightarrow> timeout_secs node = None)
     \<and> \<not> (node_stdio node = InheritStdio \<and> is_log_line (ready_probe node))
     \<and> (\<forall>fd. lifeline_fd node = Some fd \<longrightarrow> 3 \<le> fd)"

lemma validate_node_iff: "validate_node name node = Ok () \<longleftrightarrow> valid_node node"
  by (auto simp: validate_node_def valid_node_def check_probe_def check_timeout_def check_stdio_def check_lifeline_def
      is_service_def res_simps split: option.splits kind.splits)

lemma validate_node_no_panic: "validate_node name node \<noteq> Panic"
  by (auto simp: validate_node_def check_probe_def check_timeout_def check_stdio_def check_lifeline_def
      res_simps split: option.splits kind.splits)

lemma validate_deps_iff: "validate_deps nodes name deps = Ok () \<longleftrightarrow> set deps \<subseteq> node_names nodes"
  by (induction deps) (auto simp: node_names_def)

lemma validate_deps_no_panic: "validate_deps nodes name deps \<noteq> Panic"
  by (induction deps) auto

lemma validate_nodes_iff:
  "validate_nodes nodes rest = Ok () \<longleftrightarrow>
     (\<forall>(name, node) \<in> set rest. valid_node node \<and> set (depends_on node) \<subseteq> node_names nodes)"
  by (induction rest) (auto simp: res_simps validate_node_iff validate_deps_iff)

lemma validate_nodes_no_panic: "validate_nodes nodes rest \<noteq> Panic"
  by (induction rest) (auto simp: res_simps validate_node_no_panic validate_deps_no_panic)

lemma closed_if_nodes:
  "(\<forall>(name, node) \<in> set nodes. valid_node node \<and> set (depends_on node) \<subseteq> node_names nodes) \<Longrightarrow> closed nodes"
  by (fastforce simp: closed_def node_deps_def dest: map_of_SomeD split: option.splits)

lemma closed_iff_nodes:
  assumes "distinct (map fst nodes)"
  shows "closed nodes \<longleftrightarrow> (\<forall>(name, node) \<in> set nodes. set (depends_on node) \<subseteq> node_names nodes)"
proof
  assume c: "closed nodes"
  show "\<forall>(name, node) \<in> set nodes. set (depends_on node) \<subseteq> node_names nodes"
  proof clarify
    fix name node d
    assume "(name, node) \<in> set nodes" and "d \<in> set (depends_on node)"
    then have "d \<in> node_deps nodes name" using assms by (simp add: node_deps_def)
    with c show "d \<in> node_names nodes" by (auto simp: closed_def)
  qed
qed (fastforce simp: closed_def node_deps_def dest: map_of_SomeD split: option.splits)

lemma validate_no_panic: "validate nodes \<noteq> Panic"
proof
  assume "validate nodes = Panic"
  then have v: "validate_nodes nodes nodes = Ok ()" and p: "detect_cycle nodes = Panic"
    by (auto simp: validate_def res_simps validate_nodes_no_panic)
  from v have "closed nodes" by (simp add: validate_nodes_iff closed_if_nodes)
  from detect_cycle_correct [OF this] p show False by simp
qed

lemma validate_Ok:
  assumes "validate nodes = Ok ()"
  shows "closed nodes" and "acyclic (dag_rel nodes)" and "(n, node) \<in> set nodes \<Longrightarrow> valid_node node"
proof -
  have v: "validate_nodes nodes nodes = Ok ()" and d: "detect_cycle nodes = Ok ()"
    using assms by (auto simp: validate_def res_simps)
  from v show c: "closed nodes" by (simp add: validate_nodes_iff closed_if_nodes)
  from detect_cycle_correct [OF c] d show "acyclic (dag_rel nodes)" by simp
  from v show "(n, node) \<in> set nodes \<Longrightarrow> valid_node node" by (auto simp: validate_nodes_iff)
qed

lemma validate_OkI:
  assumes "\<forall>(name, node) \<in> set nodes. valid_node node \<and> set (depends_on node) \<subseteq> node_names nodes"
    and "acyclic (dag_rel nodes)"
  shows "validate nodes = Ok ()"
proof -
  have "detect_cycle nodes = Ok ()"
    using detect_cycle_correct [OF closed_if_nodes [OF assms(1)]] assms(2) reports_cycle_real
    by (cases "detect_cycle nodes") auto
  with assms(1) show ?thesis by (simp add: validate_def res_simps validate_nodes_iff)
qed

text \<open>The order in which a validated specification is spawned is a dependency order.\<close>

definition spawn_order :: "nodes \<Rightarrow> string list" where
  "spawn_order nodes =
     (if validate nodes = Ok () then case topological_order nodes of Ok order \<Rightarrow> order | _ \<Rightarrow> [] else [])"

lemma spawn_order_valid:
  assumes "validate nodes = Ok ()"
  shows "topological_order nodes = Ok (spawn_order nodes)" and "set (spawn_order nodes) = node_names nodes"
proof -
  obtain order where "topological_order nodes = Ok order" "set order = node_names nodes"
    using topological_order_correct validate_Ok [OF assms] by blast
  with assms show "topological_order nodes = Ok (spawn_order nodes)" "set (spawn_order nodes) = node_names nodes"
    by (simp_all add: spawn_order_def)
qed

interpretation dag: topo_listing spawn_order node_deps
proof
  fix nodes
  show "distinct (spawn_order nodes)"
    using topological_order_correct [of nodes] validate_Ok [of nodes] by (auto simp: spawn_order_def)
  fix xs n ys
  assume eq: "spawn_order nodes = xs @ n # ys"
  then have "validate nodes = Ok ()" by (auto simp: spawn_order_def split: if_splits)
  then have "deps_first nodes (spawn_order nodes)"
    using topological_order_correct [of nodes] validate_Ok [of nodes] by (auto simp: spawn_order_def)
  with eq show "node_deps nodes n \<subseteq> set xs" by (simp add: deps_first_def)
qed

text \<open>Nothing but the contents of the map enters the order.\<close>

lemma same_map:
  assumes "distinct (map fst nodes)" and "mset nodes = mset nodes'"
  shows "map_of nodes' = map_of nodes" and "sort (map fst nodes') = sort (map fst nodes)"
    and "length nodes' = length nodes"
proof -
  have m: "mset (map fst nodes') = mset (map fst nodes)" using assms(2) by simp
  then have "distinct (map fst nodes')" using assms(1) by (metis mset_eq_imp_distinct_iff)
  then show "map_of nodes' = map_of nodes"
    using assms by (metis map_of_eqI map_of_inject_set mset_eq_setD)
  show "sort (map fst nodes') = sort (map fst nodes)" using m by (metis sorted_list_of_multiset_mset)
  show "length nodes' = length nodes" using assms(2) by (metis size_mset)
qed

lemma visit_topo_same_map:
  assumes "map_of nodes' = map_of nodes"
  shows "visit_topo depth nodes' n s = visit_topo depth nodes n s"
proof (induction depth arbitrary: n s)
  case 0
  then show ?case by (cases s) simp
next
  case (Suc depth)
  then have "visit_topo depth nodes' = visit_topo depth nodes" by (intro ext)
  then show ?case by (cases s) (simp add: node_at_def assms)
qed

section \<open>Restriction to named nodes\<close>

lemma map_of_filter_key: "map_of (filter (\<lambda>(k, _). P k) xs) k = (if P k then map_of xs k else None)"
  by (induction xs) auto

lemma sort_Nil_iff [simp]: "sort xs = [] \<longleftrightarrow> xs = []"
  by (metis length_0_conv length_sort)

lemma missing_names_Nil: "missing_names nodes only = [] \<longleftrightarrow> set only \<subseteq> node_names nodes"
  by (auto simp: missing_names_def node_names_def filter_empty_conv)

lemma dangling_edges_Nil: "dangling_edges nodes only = [] \<longleftrightarrow> (\<forall>(_, node) \<in> set nodes. set (depends_on node) \<subseteq> set only)"
  by (fastforce simp: dangling_edges_def filter_empty_conv)

lemma filter_only_Ok:
  assumes "filter_only nodes only = Ok kept"
  shows "node_names kept = set only" and "closed kept" and "map_of kept n = (if n \<in> set only then map_of nodes n else None)"
proof -
  have kept: "kept = filter (\<lambda>(name, _). name \<in> set only) nodes" and "set only \<subseteq> node_names nodes"
    and "dangling_edges kept only = []"
    using assms by (auto simp: filter_only_def Let_def missing_names_Nil split: if_splits)
  then have d: "\<forall>(_, node) \<in> set kept. set (depends_on node) \<subseteq> set only" by (simp only: dangling_edges_Nil)
  from kept \<open>set only \<subseteq> node_names nodes\<close> show n: "node_names kept = set only" by (force simp: node_names_def)
  show m: "map_of kept n = (if n \<in> set only then map_of nodes n else None)" by (simp add: kept map_of_filter_key)
  show "closed kept"
    using d by (fastforce simp: closed_def node_deps_def n dest: map_of_SomeD split: option.splits)
qed

end
