(* ===== verification/Dag_Process.thy ===== *)
theory Dag_Process
  imports Dag_Spec
begin

text \<open>
  One node's process in \<^verbatim>\<open>packages/dag-runner/src/main.rs\<close>: outcomes and exit codes, the bounded
  tail of a child's output, the pipe readers, the process group and how it is terminated, and the
  result of a task or a service for each way its wait can end. The operating system is a parameter:
  what \<^verbatim>\<open>killpg\<close> and \<^verbatim>\<open>wait\<close> answer, and what the readers have read. A process group
  carries the log of what was done to it.
\<close>

section \<open>Outcomes\<close>

datatype outcome = Succeeded | Failed int | Skipped | Stopped

fun label :: "outcome \<Rightarrow> string" where
  "label Succeeded = ''succeeded''"
| "label (Failed _) = ''failed''"
| "label Skipped = ''skipped''"
| "label Stopped = ''stopped''"

fun exit_contribution :: "outcome \<Rightarrow> int" where
  "exit_contribution Succeeded = 0"
| "exit_contribution Stopped = 0"
| "exit_contribution (Failed code) = code"
| "exit_contribution Skipped = 1"

datatype reason = Cancelled | Drained | Aborted

fun terminated_exit_code :: "reason \<Rightarrow> int" where
  "terminated_exit_code Cancelled = 130"
| "terminated_exit_code Drained = 143"
| "terminated_exit_code Aborted = 143"

fun describe_reason :: "reason \<Rightarrow> string" where
  "describe_reason Cancelled = ''cancelled''"
| "describe_reason Drained = ''run finished''"
| "describe_reason Aborted = ''a service failed, taking the group down''"

section \<open>The tail of an output\<close>

record output_tail =
  tail_lines :: "string list"
  tail_dropped :: nat
  tail_limit :: nat

definition DEFAULT_LIMIT :: nat where
  "DEFAULT_LIMIT = 500"

definition tail_new :: output_tail where
  "tail_new = \<lparr>tail_lines = [], tail_dropped = 0, tail_limit = DEFAULT_LIMIT\<rparr>"

text \<open>The derived \<^verbatim>\<open>Default\<close> has limit zero.\<close>

definition tail_default :: output_tail where
  "tail_default = \<lparr>tail_lines = [], tail_dropped = 0, tail_limit = 0\<rparr>"

fun tail_trim :: "nat \<Rightarrow> string list \<Rightarrow> nat \<Rightarrow> string list \<times> nat" where
  "tail_trim limit [] dropped = ([], dropped)"
| "tail_trim limit (l # ls) dropped =
     (if max limit 1 < length (l # ls) then tail_trim limit ls (dropped + 1) else (l # ls, dropped))"

definition tail_push :: "string \<Rightarrow> output_tail \<Rightarrow> output_tail" where
  "tail_push line t =
     (let (ls, d) = tail_trim (tail_limit t) (tail_lines t @ [line]) (tail_dropped t) in
      t\<lparr>tail_lines := ls, tail_dropped := d\<rparr>)"

definition tail_is_empty :: "output_tail \<Rightarrow> bool" where
  "tail_is_empty t \<longleftrightarrow> tail_lines t = []"

definition tail_render :: "output_tail \<Rightarrow> string" where
  "tail_render t =
     (if 0 < tail_dropped t
      then ''dag-runner: '' @ show_nat (tail_dropped t) @ '' earlier line'' @ (if tail_dropped t = 1 then '''' else ''s'')
        @ '' dropped (keeping the last '' @ show_nat (tail_limit t) @ '')'' @ [CHR 0x0A]
      else [])
     @ concat (tail_lines t)"

definition line_feed :: "string \<Rightarrow> string" where
  "line_feed s = s @ [CHR 0x0A]"

section \<open>Exits\<close>

text \<open>An \<^verbatim>\<open>io::Error\<close> by its raw code and its display text; an exit status by its code, none when signalled.\<close>

record os_error =
  raw_os_error :: "int option"
  os_text :: string

type_synonym exit_status = "int option"

definition success :: "exit_status \<Rightarrow> bool" where
  "success status \<longleftrightarrow> status = Some 0"

definition code_or_1 :: "exit_status \<Rightarrow> int" where
  "code_or_1 status = (case status of Some code \<Rightarrow> code | None \<Rightarrow> 1)"

record captured_streams =
  cs_stdout :: output_tail
  cs_stderr :: output_tail

record captured_exit =
  ce_status :: "(os_error, exit_status) res"
  ce_stdout :: output_tail
  ce_stderr :: output_tail

record command_output =
  out_outcome :: outcome
  out_stdout :: output_tail
  out_stderr :: output_tail

section \<open>Pipe readers\<close>

text \<open>
  A reader task by the tail it has, or will have, read; whether it ended before it was aborted decides
  if joining it gives that tail.
\<close>

record join_handle =
  jh_tail :: output_tail
  jh_ended :: bool
  jh_aborted :: bool

definition join_task :: "join_handle \<Rightarrow> output_tail option" where
  "join_task h = (if jh_aborted h \<and> \<not> jh_ended h then None else Some (jh_tail h))"

record pipe_capture =
  stdout_task :: "join_handle option"
  stderr_task :: "join_handle option"
  stdout_tail :: "output_tail option"
  stderr_tail :: "output_tail option"

definition capture_new :: "join_handle \<Rightarrow> join_handle \<Rightarrow> pipe_capture" where
  "capture_new out err = \<lparr>stdout_task = Some out, stderr_task = Some err, stdout_tail = None, stderr_tail = None\<rparr>"

definition capture_none :: pipe_capture where
  "capture_none = \<lparr>stdout_task = None, stderr_task = None, stdout_tail = None, stderr_tail = None\<rparr>"

definition unwrap_or_default :: "output_tail option \<Rightarrow> output_tail" where
  "unwrap_or_default t = (case t of Some t \<Rightarrow> t | None \<Rightarrow> tail_default)"

definition join_stdout :: "pipe_capture \<Rightarrow> pipe_capture" where
  "join_stdout c = (case stdout_task c of
     Some h \<Rightarrow> c\<lparr>stdout_tail := Some (unwrap_or_default (join_task h)), stdout_task := None\<rparr> | None \<Rightarrow> c)"

definition join_stderr :: "pipe_capture \<Rightarrow> pipe_capture" where
  "join_stderr c = (case stderr_task c of
     Some h \<Rightarrow> c\<lparr>stderr_tail := Some (unwrap_or_default (join_task h)), stderr_task := None\<rparr> | None \<Rightarrow> c)"

text \<open>The loop of \<^verbatim>\<open>finish\<close>; with both readers pending either may complete first.\<close>

function capture_finish :: "bool \<Rightarrow> pipe_capture \<Rightarrow> pipe_capture" where
  "capture_finish out_first c =
     (case (stdout_task c, stderr_task c) of
        (Some _, Some _) \<Rightarrow> capture_finish out_first (if out_first then join_stdout c else join_stderr c)
      | (Some _, None) \<Rightarrow> capture_finish out_first (join_stdout c)
      | (None, Some _) \<Rightarrow> capture_finish out_first (join_stderr c)
      | (None, None) \<Rightarrow> c)"
  by pat_completeness auto

termination
  by (relation "measure (\<lambda>(_, c). (if stdout_task c = None then 0 else 1) + (if stderr_task c = None then 0 else 1))")
    ((auto simp: join_stdout_def join_stderr_def split: option.splits; metis)+)

declare capture_finish.simps [simp del]

definition abort_task :: "join_handle option \<Rightarrow> join_handle option" where
  "abort_task h = map_option (\<lambda>h. h\<lparr>jh_aborted := True\<rparr>) h"

definition capture_abort :: "pipe_capture \<Rightarrow> pipe_capture" where
  "capture_abort c = c\<lparr>stdout_task := abort_task (stdout_task c), stderr_task := abort_task (stderr_task c)\<rparr>"

definition capture_take :: "pipe_capture \<Rightarrow> captured_streams" where
  "capture_take c = \<lparr>cs_stdout = unwrap_or_default (stdout_tail c), cs_stderr = unwrap_or_default (stderr_tail c)\<rparr>"

section \<open>The process group\<close>

definition SIGTERM :: int where "SIGTERM = 15"
definition SIGKILL :: int where "SIGKILL = 9"
definition ESRCH :: int where "ESRCH = 3"
definition EPERM :: int where "EPERM = 1"

datatype proc_event = Signalled int | Reaped

record proc_group =
  pg_armed :: bool
  pg_log :: "proc_event list"

record kernel =
  target_macos :: bool
  killpg :: "int \<Rightarrow> os_error option"
  child_wait :: "(os_error, exit_status) res"

definition group_new :: proc_group where
  "group_new = \<lparr>pg_armed = True, pg_log = []\<rparr>"

definition disarm :: "proc_group \<Rightarrow> proc_group" where
  "disarm g = g\<lparr>pg_armed := False\<rparr>"

definition logged :: "proc_event list \<Rightarrow> proc_group \<Rightarrow> proc_group" where
  "logged evs g = g\<lparr>pg_log := pg_log g @ evs\<rparr>"

definition means_already_gone :: "bool \<Rightarrow> os_error \<Rightarrow> bool" where
  "means_already_gone macos e \<longleftrightarrow> raw_os_error e = Some ESRCH \<or> (macos \<and> raw_os_error e = Some EPERM)"

definition signal :: "kernel \<Rightarrow> int \<Rightarrow> (os_error, unit) res" where
  "signal k s =
     (case killpg k s of None \<Rightarrow> Ok () | Some e \<Rightarrow> if means_already_gone (target_macos k) e then Ok () else Err e)"

definition drop_group :: "proc_group \<Rightarrow> proc_group" where
  "drop_group g = (if pg_armed g then logged [Signalled SIGKILL] g else g)"

definition reap :: "kernel \<Rightarrow> proc_group \<Rightarrow> proc_group" where
  "reap k g = (case child_wait k of Ok _ \<Rightarrow> logged [Reaped] g | _ \<Rightarrow> g)"

definition terminate_process_group :: "kernel \<Rightarrow> proc_group \<Rightarrow> proc_group \<times> (os_error, unit) res" where
  "terminate_process_group k g =
     (let term_result = signal k SIGTERM; g = logged [Signalled SIGTERM, Signalled SIGKILL] g in
      case signal k SIGKILL of
        Err e \<Rightarrow> (g, Err e)
      | Panic \<Rightarrow> (g, Panic)
      | Ok _ \<Rightarrow>
          let g = reap k (disarm g); wait_result = bind_res (child_wait k) (\<lambda>_. Ok ()) in
          (g, bind_res term_result (\<lambda>_. wait_result)))"

definition collect :: "bool \<Rightarrow> pipe_capture \<Rightarrow> proc_group \<Rightarrow> captured_streams" where
  "collect out_first c g = capture_take (capture_finish out_first (if pg_armed g then capture_abort c else c))"

definition record_termination_failure :: "output_tail \<Rightarrow> (os_error, unit) res \<Rightarrow> output_tail" where
  "record_termination_failure stderr result =
     (case result of
        Err e \<Rightarrow> tail_push (line_feed (''dag-runner: failed to terminate node process group: '' @ os_text e)) stderr
      | _ \<Rightarrow> stderr)"

definition stop :: "kernel \<Rightarrow> bool \<Rightarrow> string \<Rightarrow> proc_group \<Rightarrow> pipe_capture \<Rightarrow> captured_streams \<times> proc_group" where
  "stop k out_first note g c =
     (let (g, result) = terminate_process_group k g; streams = collect out_first c g in
      (streams\<lparr>cs_stderr := tail_push note (record_termination_failure (cs_stderr streams) result)\<rparr>, g))"

text \<open>Draining the pipes, then reaping the leader.\<close>

definition capture_exit :: "kernel \<Rightarrow> bool \<Rightarrow> proc_group \<Rightarrow> pipe_capture \<Rightarrow> captured_exit \<times> proc_group" where
  "capture_exit k out_first g c =
     (let streams = capture_take (capture_finish out_first c) in
      (\<lparr>ce_status = child_wait k, ce_stdout = cs_stdout streams, ce_stderr = cs_stderr streams\<rparr>, reap k g))"

definition output_of :: "outcome \<Rightarrow> captured_streams \<Rightarrow> command_output" where
  "output_of o' s = \<lparr>out_outcome = o', out_stdout = cs_stdout s, out_stderr = cs_stderr s\<rparr>"

section \<open>A task\<close>

datatype completion = CompExited captured_exit | CompTimedOut nat | CompShutDown reason

text \<open>
  The \<^verbatim>\<open>select!\<close> of \<^verbatim>\<open>run_task\<close> is biased: of the arms that are ready, the first in its order wins. The
  arguments say which are: the published shutdown reason, whether the deadline has passed, and the exit
  once the child is gone. A node without a timeout has no deadline.
\<close>

definition select_task :: "reason option \<Rightarrow> node_spec \<Rightarrow> bool \<Rightarrow> captured_exit option \<Rightarrow> completion option" where
  "select_task shutdown node elapsed gone =
     (case shutdown of
        Some reason \<Rightarrow> Some (CompShutDown reason)
      | None \<Rightarrow>
          (case (timeout_secs node, elapsed) of
             (Some secs, True) \<Rightarrow> Some (CompTimedOut secs)
           | _ \<Rightarrow> map_option CompExited gone))"

definition task_exited :: "kernel \<Rightarrow> captured_exit \<Rightarrow> proc_group \<Rightarrow> command_output \<times> proc_group" where
  "task_exited k ex g =
     (case ce_status ex of
        Ok status \<Rightarrow>
          (\<lparr>out_outcome = (if success status then Succeeded else Failed (code_or_1 status)),
            out_stdout = ce_stdout ex, out_stderr = ce_stderr ex\<rparr>, disarm g)
      | Err e \<Rightarrow>
          let stderr = tail_push (line_feed (''wait failed: '' @ os_text e)) (ce_stderr ex);
              (g, result) = terminate_process_group k g in
          (\<lparr>out_outcome = Failed 1, out_stdout = ce_stdout ex, out_stderr = record_termination_failure stderr result\<rparr>, g)
      | Panic \<Rightarrow> (\<lparr>out_outcome = Failed 1, out_stdout = ce_stdout ex, out_stderr = ce_stderr ex\<rparr>, g))"

definition run_task :: "kernel \<Rightarrow> bool \<Rightarrow> completion \<Rightarrow> proc_group \<Rightarrow> pipe_capture \<Rightarrow> command_output \<times> proc_group" where
  "run_task k out_first completion g c =
     (case completion of
        CompExited ex \<Rightarrow> task_exited k ex g
      | CompTimedOut secs \<Rightarrow>
          let (streams, g) = stop k out_first (line_feed (''dag-runner: node timed out after '' @ show_nat secs @ ''s'')) g c in
          (output_of (Failed 124) streams, g)
      | CompShutDown reason \<Rightarrow>
          let (streams, g) = stop k out_first (line_feed (''dag-runner: terminated: '' @ describe_reason reason)) g c in
          (output_of (Failed (terminated_exit_code reason)) streams, g))"

section \<open>A service\<close>

datatype startup = StartReady | StartExited captured_exit | StartTimedOut | StartShutDown reason

definition select_startup :: "reason option \<Rightarrow> bool \<Rightarrow> captured_exit option \<Rightarrow> bool \<Rightarrow> startup option" where
  "select_startup shutdown elapsed gone probe_passed =
     (case shutdown of
        Some reason \<Rightarrow> Some (StartShutDown reason)
      | None \<Rightarrow>
          if elapsed then Some StartTimedOut
          else (case gone of
             Some ex \<Rightarrow> Some (StartExited ex)
           | None \<Rightarrow> if probe_passed then Some StartReady else None))"

definition service_exit :: "proc_group \<Rightarrow> captured_exit \<Rightarrow> string \<Rightarrow> command_output \<times> proc_group" where
  "service_exit g ex when =
     (let (code, g) = (case ce_status ex of Ok status \<Rightarrow> (code_or_1 status, disarm g) | _ \<Rightarrow> (1, g)) in
      (\<lparr>out_outcome = Failed code, out_stdout = ce_stdout ex,
        out_stderr = tail_push (line_feed (''dag-runner: service exited (status '' @ show_int code @ '') '' @ when)) (ce_stderr ex)\<rparr>, g))"

text \<open>
  \<^verbatim>\<open>never_came_up\<close> in two parts: the shutdown it requests, before anything is stopped, and the output it
  returns. It is not called on a service that is ready.
\<close>

definition startup_request :: "startup \<Rightarrow> reason option" where
  "startup_request s = (case s of StartTimedOut \<Rightarrow> Some Aborted | StartExited _ \<Rightarrow> Some Aborted | _ \<Rightarrow> None)"

definition never_came_up ::
  "kernel \<Rightarrow> bool \<Rightarrow> node_spec \<Rightarrow> startup \<Rightarrow> proc_group \<Rightarrow> pipe_capture \<Rightarrow> (string, command_output \<times> proc_group) res" where
  "never_came_up k out_first node s g c =
     (case s of
        StartShutDown reason \<Rightarrow>
          let (streams, g) = stop k out_first (line_feed (''dag-runner: stopped before it became ready: '' @ describe_reason reason)) g c in
          Ok (output_of Stopped streams, g)
      | StartTimedOut \<Rightarrow>
          let (streams, g) = stop k out_first (line_feed (''dag-runner: service was not ready after ''
              @ show_nat (ready_timeout_secs node) @ ''s'')) g c in
          Ok (output_of (Failed 124) streams, g)
      | StartExited ex \<Rightarrow> Ok (service_exit g ex ''before it became ready'')
      | StartReady \<Rightarrow> Panic)"

text \<open>The second wait of \<^verbatim>\<open>run_service\<close>, once the service is up.\<close>

datatype serving_end = ServeShutDown | ServeExited captured_exit | ServeDied int

definition select_serving :: "reason option \<Rightarrow> captured_exit option \<Rightarrow> int option \<Rightarrow> serving_end option" where
  "select_serving shutdown gone died =
     (case shutdown of
        Some _ \<Rightarrow> Some ServeShutDown
      | None \<Rightarrow> (case gone of Some ex \<Rightarrow> Some (ServeExited ex) | None \<Rightarrow> map_option ServeDied died))"

definition serving_request :: "serving_end \<Rightarrow> reason option" where
  "serving_request e = (case e of ServeShutDown \<Rightarrow> None | _ \<Rightarrow> Some Aborted)"

definition serve_end :: "kernel \<Rightarrow> bool \<Rightarrow> serving_end \<Rightarrow> proc_group \<Rightarrow> pipe_capture \<Rightarrow> command_output \<times> proc_group" where
  "serve_end k out_first e g c =
     (case e of
        ServeShutDown \<Rightarrow> let (streams, g) = stop k out_first [] g c in (output_of Stopped streams, g)
      | ServeExited ex \<Rightarrow> service_exit g ex ''while the run was still going''
      | ServeDied code \<Rightarrow>
          let (streams, g) = stop k out_first
            (line_feed (''dag-runner: service exited (status '' @ show_int code @ '') while the run was still going'')) g c in
          (output_of (Failed code) streams, g))"

text \<open>The exit code \<^verbatim>\<open>wait_for_death\<close> answers with; \<^verbatim>\<open>waitid\<close> or the blocking task may fail.\<close>

definition wait_for_death :: "int option \<Rightarrow> int" where
  "wait_for_death si_status = (case si_status of Some s \<Rightarrow> s | None \<Rightarrow> 1)"

definition spawn_failed :: "os_error \<Rightarrow> command_output" where
  "spawn_failed e =
     \<lparr>out_outcome = Failed 127, out_stdout = tail_new, out_stderr = tail_push (line_feed (''failed to spawn: '' @ os_text e)) tail_new\<rparr>"

section \<open>Reading a child's output\<close>

fun is_line_end :: "char \<Rightarrow> bool" where
  "is_line_end c = (c = CHR 0x0A \<or> c = CHR 0x0D)"

definition trim_line_end :: "string \<Rightarrow> string" where
  "trim_line_end line = rev (dropWhile is_line_end (rev line))"

definition contains :: "string \<Rightarrow> string \<Rightarrow> bool" where
  "contains s pat \<longleftrightarrow> list_ex (\<lambda>i. take (length pat) (drop i s) = pat) [0..<Suc (length s)]"

record matcher =
  m_pattern :: string
  m_stream :: log_stream

record sink =
  sink_node :: string
  sink_which :: log_stream
  sink_echo :: bool
  sink_matcher :: "matcher option"

definition make_sink :: "string \<Rightarrow> node_spec \<Rightarrow> log_stream \<Rightarrow> sink" where
  "make_sink name node which =
     \<lparr>sink_node = name, sink_which = which, sink_echo = (node_stdio node = Prefixed),
       sink_matcher = (case ready_probe node of
         Some (LogLineReady pat stream) \<Rightarrow> Some \<lparr>m_pattern = pat, m_stream = stream\<rparr> | _ \<Rightarrow> None)\<rparr>"

text \<open>What a line makes the sink do: fire the readiness probe, echo a line, show a line on the spinner.\<close>

record sink_effect =
  fx_hit :: bool
  fx_echo :: "string option"
  fx_spinner :: "string option"

definition SPINNER_MAX :: nat where
  "SPINNER_MAX = 80"

definition ellipsis :: string where
  "ellipsis = [CHR 0xE2, CHR 0x80, CHR 0xA6]"

definition truncate_for_spinner :: "string \<Rightarrow> string" where
  "truncate_for_spinner line =
     (if length (chars line) \<le> SPINNER_MAX then line else concat (take (SPINNER_MAX - 1) (chars line)) @ ellipsis)"

definition accept :: "sink \<Rightarrow> string \<Rightarrow> sink_effect" where
  "accept s line =
     (let trimmed = trim_line_end line;
          hit = (case sink_matcher s of
            Some m \<Rightarrow> (m_stream m = Either \<or> m_stream m = sink_which s) \<and> contains trimmed (m_pattern m)
          | None \<Rightarrow> False) in
      if trimmed = [] then \<lparr>fx_hit = hit, fx_echo = None, fx_spinner = None\<rparr>
      else \<lparr>fx_hit = hit, fx_echo = (if sink_echo s then Some (sink_node s @ '' | '' @ trimmed) else None),
             fx_spinner = Some (truncate_for_spinner trimmed)\<rparr>)"

text \<open>
  The reader loop over what \<^verbatim>\<open>read_line\<close> answers: a line, or the end of the stream, or an error.
\<close>

fun tee_lines :: "sink \<Rightarrow> (os_error, string) res list \<Rightarrow> sink_effect list \<times> output_tail \<Rightarrow> sink_effect list \<times> output_tail" where
  "tee_lines s (Ok line # reads) (fx, tail) =
     (if line = [] then (fx, tail) else tee_lines s reads (fx @ [accept s line], tail_push line tail))"
| "tee_lines s _ (fx, tail) = (fx, tail)"

text \<open>One HTTP probe, on the response: none when the request failed, else its status and its body or a body error.\<close>

definition http_attempt :: "http_ready \<Rightarrow> (nat \<times> string option) option \<Rightarrow> bool" where
  "http_attempt probe response =
     (case response of
        None \<Rightarrow> False
      | Some (status, body) \<Rightarrow>
          if status \<noteq> hr_status probe then False
          else (case hr_body_contains probe of
             None \<Rightarrow> True
           | Some needle \<Rightarrow> (case body of Some b \<Rightarrow> contains b needle | None \<Rightarrow> False)))"

section \<open>Records and the exit code\<close>

record node_record =
  rec_outcome :: outcome
  rec_duration :: nat
  rec_stdout :: output_tail
  rec_stderr :: output_tail

definition never_ran :: "reason option \<Rightarrow> node_record" where
  "never_ran reason =
     \<lparr>rec_outcome = Skipped, rec_duration = 0, rec_stdout = tail_new,
       rec_stderr = (case reason of
         Some r \<Rightarrow> tail_push (line_feed (''dag-runner: never started: '' @ describe_reason r)) tail_new | None \<Rightarrow> tail_new)\<rparr>"

definition exit_code :: "(string, node_record) btree \<Rightarrow> int" where
  "exit_code records =
     (case map (exit_contribution \<circ> rec_outcome) (bt_values records) of
        [] \<Rightarrow> 0
      | c # cs \<Rightarrow> fold max cs c)"

record tally_counts =
  n_succeeded :: nat
  n_failed :: nat
  n_skipped :: nat
  n_stopped :: nat

fun count_outcome :: "outcome \<Rightarrow> tally_counts \<Rightarrow> tally_counts" where
  "count_outcome Succeeded t = t\<lparr>n_succeeded := n_succeeded t + 1\<rparr>"
| "count_outcome (Failed _) t = t\<lparr>n_failed := n_failed t + 1\<rparr>"
| "count_outcome Skipped t = t\<lparr>n_skipped := n_skipped t + 1\<rparr>"
| "count_outcome Stopped t = t\<lparr>n_stopped := n_stopped t + 1\<rparr>"

definition tally :: "(string, node_record) btree \<Rightarrow> tally_counts" where
  "tally records =
     fold (\<lambda>r. count_outcome (rec_outcome r)) (bt_values records)
       \<lparr>n_succeeded = 0, n_failed = 0, n_skipped = 0, n_stopped = 0\<rparr>"

text \<open>The exit code of \<^verbatim>\<open>main\<close>.\<close>

definition main_exit :: "reason option \<Rightarrow> (string, node_record) btree \<Rightarrow> int" where
  "main_exit shutdown records = (if shutdown = Some Cancelled then 130 else exit_code records)"

section \<open>The tail keeps the newest lines\<close>

lemma tail_trim_drop:
  "tail_trim limit ls d = (drop (length ls - max limit 1) ls, d + (length ls - max limit 1))"
proof (induction ls arbitrary: d)
  case (Cons l ls)
  show ?case
  proof (cases "max limit 1 < length (l # ls)")
    case True
    then have "length (l # ls) - max limit 1 = Suc (length ls - max limit 1)" by (simp only: length_Cons less_Suc_eq_le Suc_diff_le)
    with True Cons show ?thesis by simp
  next
    case False
    then have "length (l # ls) - max limit 1 = 0" by linarith
    with False show ?thesis by auto
  qed
qed simp

lemma tail_push_all:
  assumes "tail_limit t = Suc l" and "length (tail_lines t) \<le> Suc l"
  shows "fold tail_push ls t =
    t\<lparr>tail_lines := drop (length (tail_lines t @ ls) - Suc l) (tail_lines t @ ls),
      tail_dropped := tail_dropped t + (length (tail_lines t @ ls) - Suc l)\<rparr>"
  using assms
proof (induction ls arbitrary: t)
  case (Cons x ls)
  let ?t = "tail_push x t"
  have t: "?t = t\<lparr>tail_lines := drop (length (tail_lines t @ [x]) - Suc l) (tail_lines t @ [x]),
      tail_dropped := tail_dropped t + (length (tail_lines t @ [x]) - Suc l)\<rparr>"
    using Cons.prems(1) by (simp add: tail_push_def tail_trim_drop)
  have "fold tail_push (x # ls) t = fold tail_push ls ?t" by simp
  also have "\<dots> = ?t\<lparr>tail_lines := drop (length (tail_lines ?t @ ls) - Suc l) (tail_lines ?t @ ls),
      tail_dropped := tail_dropped ?t + (length (tail_lines ?t @ ls) - Suc l)\<rparr>"
    using Cons.prems by (intro Cons.IH) (auto simp: t)
  also have "\<dots> = t\<lparr>tail_lines := drop (length (tail_lines t @ x # ls) - Suc l) (tail_lines t @ x # ls),
      tail_dropped := tail_dropped t + (length (tail_lines t @ x # ls) - Suc l)\<rparr>"
    using Cons.prems(2) by (cases "length (tail_lines t) = Suc l") (cases "tail_lines t"; auto simp: t)+
  finally show ?case .
qed simp

text \<open>
  Everything a child wrote is either kept or counted: the kept lines are the last ones, as many as
  the limit allows.
\<close>

lemma tail_of_lines:
  "tail_lines (fold tail_push ls tail_new) = drop (length ls - DEFAULT_LIMIT) ls"
  "tail_dropped (fold tail_push ls tail_new) = length ls - DEFAULT_LIMIT"
proof -
  have "tail_limit tail_new = Suc 499" by (simp add: tail_new_def DEFAULT_LIMIT_def)
  from tail_push_all [OF this, of ls]
  show "tail_lines (fold tail_push ls tail_new) = drop (length ls - DEFAULT_LIMIT) ls"
    "tail_dropped (fold tail_push ls tail_new) = length ls - DEFAULT_LIMIT"
    by (simp_all add: tail_new_def DEFAULT_LIMIT_def)
qed

section \<open>Signals and reaping\<close>

text \<open>
  The number of a process group may be taken over once its leader was reaped, so a signal after that
  could hit a stranger.
\<close>

fun no_signal_after_reap :: "proc_event list \<Rightarrow> bool" where
  "no_signal_after_reap [] = True"
| "no_signal_after_reap (Reaped # evs) \<longleftrightarrow> list_all (\<lambda>e. e = Reaped) evs \<and> no_signal_after_reap evs"
| "no_signal_after_reap (Signalled _ # evs) = no_signal_after_reap evs"

definition group_safe :: "kernel \<Rightarrow> proc_group \<Rightarrow> bool" where
  "group_safe k g \<longleftrightarrow>
     no_signal_after_reap (pg_log (drop_group g))
     \<and> (pg_armed g \<longrightarrow> Reaped \<notin> set (pg_log g))
     \<and> (Reaped \<in> set (pg_log g) \<or> Signalled SIGKILL \<in> set (pg_log (drop_group g)))"

lemma terminate_group_safe: "group_safe k (fst (terminate_process_group k group_new))"
  by (auto simp: group_safe_def terminate_process_group_def drop_group_def reap_def logged_def disarm_def group_new_def Let_def
      split: res.splits)

lemma stop_group_safe: "group_safe k (snd (stop k f note group_new c))"
  using terminate_group_safe [of k] by (auto simp: stop_def Let_def split: prod.splits)

end
