(* ===== verification/Dag_Run.thy ===== *)
theory Dag_Run
  imports Dag_Graph Dag_Process
begin

text \<open>
  The scheduler of \<^verbatim>\<open>packages/dag-runner/src/main.rs\<close>: one future per node on a single-threaded
  runtime, so the code between two suspension points runs without interruption and is one step. The
  state holds what the futures share (the readiness channels, the records, the count of unsettled
  tasks, the shutdown reason), where each future is suspended, and the events reported so far; their
  time stamps are left out. What the children, the clock, the probes and the operator do enters as
  the arguments of a step.
\<close>

section \<open>State\<close>

datatype readiness = Ready | Unavailable

datatype event = NodeStarted string | NodeReady string | NodeFinished string outcome

text \<open>A node being closed down, by the wait that ended.\<close>

datatype closing = TaskStop completion | StartStop startup | ServeStop serving_end

text \<open>Where a node's future is suspended.\<close>

datatype phase =
    Waiting "string list"
  | RunningTask
  | Starting
  | Serving
  | Closing closing
  | Settled

record sched_state =
  rs_phase :: "string \<Rightarrow> phase option"
  rs_ready :: "string \<Rightarrow> readiness option"
  rs_records :: "(string, node_record) btree"
  rs_remaining :: nat
  rs_shutdown :: "reason option"
  rs_events :: "event list"

text \<open>The first reason to arrive wins.\<close>

definition request :: "reason \<Rightarrow> sched_state \<Rightarrow> sched_state" where
  "request r st = (case rs_shutdown st of Some _ \<Rightarrow> st | None \<Rightarrow> st\<lparr>rs_shutdown := Some r\<rparr>)"

definition request_opt :: "reason option \<Rightarrow> sched_state \<Rightarrow> sched_state" where
  "request_opt r st = (case r of Some r \<Rightarrow> request r st | None \<Rightarrow> st)"

definition send_ready :: "string \<Rightarrow> readiness \<Rightarrow> sched_state \<Rightarrow> sched_state" where
  "send_ready n v st = st\<lparr>rs_ready := (rs_ready st)(n \<mapsto> v)\<rparr>"

definition report :: "event \<Rightarrow> sched_state \<Rightarrow> sched_state" where
  "report e st = st\<lparr>rs_events := rs_events st @ [e]\<rparr>"

definition suspend :: "string \<Rightarrow> phase \<Rightarrow> sched_state \<Rightarrow> sched_state" where
  "suspend n ph st = st\<lparr>rs_phase := (rs_phase st)(n \<mapsto> ph)\<rparr>"

text \<open>The end of a node's future in \<^verbatim>\<open>run\<close>: keep the record, and drain the run after the last task.\<close>

definition settle :: "string \<Rightarrow> node_spec \<Rightarrow> node_record \<Rightarrow> sched_state \<Rightarrow> sched_state" where
  "settle n node r st =
     (let st = suspend n Settled (st\<lparr>rs_records := bt_insert n r (rs_records st)\<rparr>) in
      if is_service node then st
      else
        let st' = st\<lparr>rs_remaining := rs_remaining st - 1\<rparr> in
        if rs_remaining st = 1 then request Drained st' else st')"

section \<open>Waiting for dependencies\<close>

datatype awaited = Pending "string list" | Verdict bool

text \<open>
  \<^verbatim>\<open>await_deps\<close> up to its next suspension. A channel without a verdict whose sender is gone, because
  its node's future has ended, counts as unavailable.
\<close>

fun await_deps :: "sched_state \<Rightarrow> string list \<Rightarrow> awaited" where
  "await_deps st [] = Verdict True"
| "await_deps st (d # ds) =
     (case rs_ready st d of
        Some Ready \<Rightarrow> await_deps st ds
      | Some Unavailable \<Rightarrow> Verdict False
      | None \<Rightarrow> if rs_phase st d = Some Settled then Verdict False else Pending (d # ds))"

section \<open>The steps of a node\<close>

definition skip_node :: "string \<Rightarrow> node_spec \<Rightarrow> reason option \<Rightarrow> sched_state \<Rightarrow> sched_state" where
  "skip_node n node reason st =
     settle n node (never_ran reason) (report (NodeFinished n Skipped) (send_ready n Unavailable st))"

text \<open>\<^verbatim>\<open>run_node\<close> behind \<^verbatim>\<open>execute\<close>.\<close>

definition finish_node :: "string \<Rightarrow> node_spec \<Rightarrow> nat \<Rightarrow> command_output \<Rightarrow> sched_state \<Rightarrow> sched_state" where
  "finish_node n node duration out st =
     (let st = (if is_service node then st
                else send_ready n (if out_outcome out = Succeeded then Ready else Unavailable) st);
          st = report (NodeFinished n (out_outcome out)) st in
      settle n node \<lparr>rec_outcome = out_outcome out, rec_duration = duration,
        rec_stdout = out_stdout out, rec_stderr = out_stderr out\<rparr> st)"

text \<open>
  \<^verbatim>\<open>execute\<close> up to its first suspension. Setting up the lifeline or spawning the child may fail;
  the shutdown a failing service requests comes before its record.
\<close>

definition execute :: "string \<Rightarrow> node_spec \<Rightarrow> os_error option \<Rightarrow> nat \<Rightarrow> sched_state \<Rightarrow> sched_state" where
  "execute n node spawn_error duration st =
     (case spawn_error of
        Some e \<Rightarrow>
          finish_node n node duration (spawn_failed e)
            (if is_service node then request Aborted (send_ready n Unavailable st) else st)
      | None \<Rightarrow> suspend n (if is_service node then Starting else RunningTask) st)"

definition wake :: "string \<Rightarrow> node_spec \<Rightarrow> string list \<Rightarrow> os_error option \<Rightarrow> nat \<Rightarrow> sched_state \<Rightarrow> sched_state" where
  "wake n node ds spawn_error duration st =
     (case await_deps st ds of
        Pending ds' \<Rightarrow> suspend n (Waiting ds') st
      | Verdict False \<Rightarrow> skip_node n node None st
      | Verdict True \<Rightarrow>
          (case rs_shutdown st of
             Some reason \<Rightarrow> skip_node n node (Some reason) st
           | None \<Rightarrow> execute n node spawn_error duration (report (NodeStarted n) st)))"

text \<open>
  What a closing node meets: the kernel's answers, which reader ends first, the readers, and the clock.
\<close>

record surroundings =
  sr_kernel :: kernel
  sr_out_first :: bool
  sr_capture :: pipe_capture
  sr_duration :: nat

definition closing_output :: "surroundings \<Rightarrow> node_spec \<Rightarrow> closing \<Rightarrow> (string, command_output) res" where
  "closing_output sr node cl =
     (case cl of
        TaskStop c \<Rightarrow> Ok (fst (run_task (sr_kernel sr) (sr_out_first sr) c group_new (sr_capture sr)))
      | StartStop s \<Rightarrow>
          bind_res (never_came_up (sr_kernel sr) (sr_out_first sr) node s group_new (sr_capture sr)) (\<lambda>(out, _). Ok out)
      | ServeStop e \<Rightarrow> Ok (fst (serve_end (sr_kernel sr) (sr_out_first sr) e group_new (sr_capture sr))))"

text \<open>Only a node whose child was reaped closes without suspending again.\<close>

fun closes_at_once :: "closing \<Rightarrow> bool" where
  "closes_at_once (TaskStop (CompExited ex)) = (case ce_status ex of Ok _ \<Rightarrow> True | _ \<Rightarrow> False)"
| "closes_at_once (StartStop (StartExited _)) = True"
| "closes_at_once (ServeStop (ServeExited _)) = True"
| "closes_at_once _ = False"

definition end_node :: "string \<Rightarrow> node_spec \<Rightarrow> surroundings \<Rightarrow> closing \<Rightarrow> sched_state \<Rightarrow> sched_state" where
  "end_node n node sr cl st =
     (case closing_output sr node cl of Ok out \<Rightarrow> finish_node n node (sr_duration sr) out st | _ \<Rightarrow> st)"

definition close_node :: "string \<Rightarrow> node_spec \<Rightarrow> surroundings \<Rightarrow> closing \<Rightarrow> sched_state \<Rightarrow> sched_state" where
  "close_node n node sr cl st = (if closes_at_once cl then end_node n node sr cl st else suspend n (Closing cl) st)"

text \<open>\<^verbatim>\<open>run_service\<close> at the end of its start-up race.\<close>

definition started_service :: "string \<Rightarrow> node_spec \<Rightarrow> surroundings \<Rightarrow> startup \<Rightarrow> sched_state \<Rightarrow> sched_state" where
  "started_service n node sr s st =
     (if s = StartReady then suspend n Serving (send_ready n Ready (report (NodeReady n) st))
      else close_node n node sr (StartStop s) (request_opt (startup_request s) (send_ready n Unavailable st)))"

definition served :: "string \<Rightarrow> node_spec \<Rightarrow> surroundings \<Rightarrow> serving_end \<Rightarrow> sched_state \<Rightarrow> sched_state" where
  "served n node sr e st = close_node n node sr (ServeStop e) (request_opt (serving_request e) st)"

section \<open>The run\<close>

definition init_state :: "nodes \<Rightarrow> sched_state" where
  "init_state nodes =
     \<lparr>rs_phase = Map.empty, rs_ready = Map.empty, rs_records = [],
       rs_remaining = length (filter (\<lambda>(_, node). \<not> is_service node) nodes), rs_shutdown = None, rs_events = []\<rparr>"

text \<open>Spawning a node's future: \<^verbatim>\<open>ready[dep]\<close> panics on a dependency that was not spawned before.\<close>

definition spawn_node :: "nodes \<Rightarrow> string \<Rightarrow> sched_state \<Rightarrow> (string, sched_state) res" where
  "spawn_node nodes n st =
     bind_res (node_at nodes n) (\<lambda>node.
     bind_res (map_res (\<lambda>d. expect_some (rs_phase st d)) (depends_on node)) (\<lambda>_.
     Ok (suspend n (Waiting (depends_on node)) st)))"

definition run_start :: "nodes \<Rightarrow> (string, sched_state) res" where
  "run_start nodes =
     bind_res (topological_order nodes) (\<lambda>order. fold_res (spawn_node nodes) order (init_state nodes))"

text \<open>
  One step of the run. The flag tells the steps the runner takes of its own accord from those that
  wait for a child, a clock, a probe or the operator.
\<close>

inductive run_step :: "nodes \<Rightarrow> bool \<Rightarrow> sched_state \<Rightarrow> sched_state \<Rightarrow> bool" for nodes where
  step_wake:
    "map_of nodes n = Some node \<Longrightarrow> rs_phase st n = Some (Waiting ds) \<Longrightarrow> await_deps st ds \<noteq> Pending ds \<Longrightarrow>
     run_step nodes True st (wake n node ds spawn_error duration st)"
| step_task:
    "map_of nodes n = Some node \<Longrightarrow> rs_phase st n = Some RunningTask \<Longrightarrow>
     select_task (rs_shutdown st) node elapsed gone = Some c \<Longrightarrow>
     run_step nodes (rs_shutdown st \<noteq> None) st (close_node n node sr (TaskStop c) st)"
| step_startup:
    "map_of nodes n = Some node \<Longrightarrow> rs_phase st n = Some Starting \<Longrightarrow>
     select_startup (rs_shutdown st) elapsed gone probe_passed = Some s \<Longrightarrow>
     run_step nodes (rs_shutdown st \<noteq> None) st (started_service n node sr s st)"
| step_serving:
    "map_of nodes n = Some node \<Longrightarrow> rs_phase st n = Some Serving \<Longrightarrow>
     select_serving (rs_shutdown st) gone died = Some e \<Longrightarrow>
     run_step nodes (rs_shutdown st \<noteq> None) st (served n node sr e st)"
| step_closed:
    "map_of nodes n = Some node \<Longrightarrow> rs_phase st n = Some (Closing cl) \<Longrightarrow>
     run_step nodes True st (end_node n node sr cl st)"
| step_cancel:
    "rs_shutdown st = None \<Longrightarrow> run_step nodes False st (request Cancelled st)"

inductive reachable :: "nodes \<Rightarrow> sched_state \<Rightarrow> bool" for nodes where
  reach_start: "validate nodes = Ok () \<Longrightarrow> run_start nodes = Ok st \<Longrightarrow> reachable nodes st"
| reach_step: "reachable nodes st \<Longrightarrow> run_step nodes own st st' \<Longrightarrow> reachable nodes st'"

definition all_settled :: "nodes \<Rightarrow> sched_state \<Rightarrow> bool" where
  "all_settled nodes st \<longleftrightarrow> (\<forall>n \<in> node_names nodes. rs_phase st n = Some Settled)"

end
