(* ===== verification/Dag_Sched.thy ===== *)
theory Dag_Sched
  imports Dag_Run
begin

text \<open>
  Invariants of the DAG runner's scheduler. Every step of a run moves one node along the life cycle
  \<open>life\<close>, an automaton per node, and leaves the other nodes alone; the invariant of the run is
  preserved by that automaton. A measure that every step decreases bounds the run, and a run that has
  not settled every node can always go on.
\<close>

section \<open>Effects of the operations\<close>

named_theorems run_fields \<open>what an operation of the scheduler does to each part of the state\<close>

lemma request_fields [run_fields]:
  "rs_phase (request r st) = rs_phase st" "rs_ready (request r st) = rs_ready st"
  "rs_records (request r st) = rs_records st" "rs_remaining (request r st) = rs_remaining st"
  "rs_events (request r st) = rs_events st"
  "rs_shutdown (request r st) = (case rs_shutdown st of None \<Rightarrow> Some r | Some s \<Rightarrow> Some s)"
  by (simp_all add: request_def split: option.splits)

lemma request_opt_fields [run_fields]:
  "rs_phase (request_opt r st) = rs_phase st" "rs_ready (request_opt r st) = rs_ready st"
  "rs_records (request_opt r st) = rs_records st" "rs_remaining (request_opt r st) = rs_remaining st"
  "rs_events (request_opt r st) = rs_events st"
  "rs_shutdown (request_opt r st) = (case rs_shutdown st of None \<Rightarrow> r | Some s \<Rightarrow> Some s)"
  by (simp_all add: request_opt_def run_fields split: option.splits)

lemma send_ready_fields [run_fields]:
  "rs_phase (send_ready n v st) = rs_phase st" "rs_ready (send_ready n v st) = (rs_ready st)(n \<mapsto> v)"
  "rs_records (send_ready n v st) = rs_records st" "rs_remaining (send_ready n v st) = rs_remaining st"
  "rs_events (send_ready n v st) = rs_events st" "rs_shutdown (send_ready n v st) = rs_shutdown st"
  by (simp_all add: send_ready_def)

lemma report_fields [run_fields]:
  "rs_phase (report e st) = rs_phase st" "rs_ready (report e st) = rs_ready st"
  "rs_records (report e st) = rs_records st" "rs_remaining (report e st) = rs_remaining st"
  "rs_events (report e st) = rs_events st @ [e]" "rs_shutdown (report e st) = rs_shutdown st"
  by (simp_all add: report_def)

lemma suspend_fields [run_fields]:
  "rs_phase (suspend n ph st) = (rs_phase st)(n \<mapsto> ph)" "rs_ready (suspend n ph st) = rs_ready st"
  "rs_records (suspend n ph st) = rs_records st" "rs_remaining (suspend n ph st) = rs_remaining st"
  "rs_events (suspend n ph st) = rs_events st" "rs_shutdown (suspend n ph st) = rs_shutdown st"
  by (simp_all add: suspend_def)

lemma settle_fields [run_fields]:
  "rs_phase (settle n node r st) = (rs_phase st)(n \<mapsto> Settled)" "rs_ready (settle n node r st) = rs_ready st"
  "rs_records (settle n node r st) = bt_insert n r (rs_records st)"
  "rs_remaining (settle n node r st) = (if is_service node then rs_remaining st else rs_remaining st - 1)"
  "rs_events (settle n node r st) = rs_events st"
  "rs_shutdown (settle n node r st) =
     (case rs_shutdown st of Some s \<Rightarrow> Some s
      | None \<Rightarrow> if \<not> is_service node \<and> rs_remaining st = 1 then Some Drained else None)"
  by (simp_all add: settle_def Let_def run_fields split: option.splits)

section \<open>The life of a node\<close>

text \<open>
  The state of a node is where its future is suspended and the verdict it has published. A move reports
  events and, when it is the last, leaves a record.
\<close>

inductive life ::
  "sched_state \<Rightarrow> string \<Rightarrow> node_spec \<Rightarrow> phase \<times> readiness option \<Rightarrow> event list \<Rightarrow> outcome option \<Rightarrow> phase \<times> readiness option \<Rightarrow> bool"
  for st n node where
  life_wait:
    "ds = pre @ ds' \<Longrightarrow> pre \<noteq> [] \<Longrightarrow> \<forall>d \<in> set pre. rs_ready st d = Some Ready \<Longrightarrow>
     life st n node (Waiting ds, v) [] None (Waiting ds', v)"
| life_skip: "life st n node (Waiting ds, v) [NodeFinished n Skipped] (Some Skipped) (Settled, Some Unavailable)"
| life_start:
    "\<forall>d \<in> set ds. rs_ready st d = Some Ready \<Longrightarrow>
     life st n node (Waiting ds, v) [NodeStarted n] None (if is_service node then Starting else RunningTask, v)"
| life_spawn_failed:
    "\<forall>d \<in> set ds. rs_ready st d = Some Ready \<Longrightarrow>
     life st n node (Waiting ds, v) [NodeStarted n, NodeFinished n (Failed c)] (Some (Failed c)) (Settled, Some Unavailable)"
| life_ready: "life st n node (Starting, v) [NodeReady n] None (Serving, Some Ready)"
| life_close_task: "life st n node (RunningTask, v) [] None (Closing (TaskStop c), v)"
| life_close_start: "s \<noteq> StartReady \<Longrightarrow> life st n node (Starting, v) [] None (Closing (StartStop s), Some Unavailable)"
| life_close_serve: "life st n node (Serving, v) [] None (Closing (ServeStop e), v)"
| life_end_task:
    "ph = RunningTask \<or> ph = Closing (TaskStop c) \<Longrightarrow> r \<noteq> Skipped \<Longrightarrow>
     u = (if r = Succeeded then Ready else Unavailable) \<Longrightarrow>
     life st n node (ph, v) [NodeFinished n r] (Some r) (Settled, Some u)"
| life_end_start:
    "r \<noteq> Skipped \<Longrightarrow> r \<noteq> Succeeded \<Longrightarrow> life st n node (Starting, v) [NodeFinished n r] (Some r) (Settled, Some Unavailable)"
| life_end_service:
    "ph = Serving \<or> ph = Closing (StartStop s) \<or> ph = Closing (ServeStop e) \<Longrightarrow> r \<noteq> Skipped \<Longrightarrow> r \<noteq> Succeeded \<Longrightarrow>
     life st n node (ph, v) [NodeFinished n r] (Some r) (Settled, v)"

text \<open>A step that moves one node, with what it does to the shared state.\<close>

definition advances ::
  "sched_state \<Rightarrow> string \<Rightarrow> node_spec \<Rightarrow> phase \<times> readiness option \<Rightarrow> event list \<Rightarrow> outcome option \<Rightarrow> sched_state \<Rightarrow> bool" where
  "advances st n node s ev out st' \<longleftrightarrow>
     rs_phase st' = (rs_phase st)(n \<mapsto> fst s) \<and> rs_ready st' = (rs_ready st)(n := snd s)
     \<and> rs_events st' = rs_events st @ ev
     \<and> (case out of
          None \<Rightarrow> rs_records st' = rs_records st
        | Some o' \<Rightarrow> \<exists>r. rec_outcome r = o' \<and> rs_records st' = bt_insert n r (rs_records st))
     \<and> (out \<noteq> None \<longleftrightarrow> fst s = Settled)
     \<and> rs_remaining st' = (if out \<noteq> None \<and> \<not> is_service node then rs_remaining st - 1 else rs_remaining st)
     \<and> (rs_shutdown st \<noteq> None \<longrightarrow> rs_shutdown st' = rs_shutdown st)
     \<and> (out \<noteq> None \<and> \<not> is_service node \<and> rs_remaining st = 1 \<longrightarrow> rs_shutdown st' \<noteq> None)"

lemma advances_finish:
  assumes "rs_phase st1 = rs_phase st" "rs_ready st1 = (rs_ready st)(n := v)" "rs_records st1 = rs_records st"
    "rs_remaining st1 = rs_remaining st" "rs_events st1 = rs_events st @ ev"
    "rs_shutdown st \<noteq> None \<longrightarrow> rs_shutdown st1 = rs_shutdown st"
    and "v' = (if is_service node then v else Some (if out_outcome out = Succeeded then Ready else Unavailable))"
  shows "advances st n node (Settled, v') (ev @ [NodeFinished n (out_outcome out)]) (Some (out_outcome out))
    (finish_node n node dur out st1)"
proof -
  let ?r = "\<lparr>rec_outcome = out_outcome out, rec_duration = dur, rec_stdout = out_stdout out, rec_stderr = out_stderr out\<rparr>"
  have "\<exists>r. rec_outcome r = out_outcome out \<and> rs_records (finish_node n node dur out st1) = bt_insert n r (rs_records st)"
    using assms by (intro exI [of _ ?r]) (simp add: finish_node_def Let_def run_fields)
  then show ?thesis
    using assms by (auto simp: advances_def finish_node_def Let_def run_fields split: option.splits)
qed

lemma await_deps_True: "await_deps st ds = Verdict True \<longleftrightarrow> (\<forall>d \<in> set ds. rs_ready st d = Some Ready)"
  by (induction ds) (auto split: option.splits readiness.splits)

lemma await_deps_Pending:
  "await_deps st ds = Pending ds' \<Longrightarrow> \<exists>pre. ds = pre @ ds' \<and> (\<forall>d \<in> set pre. rs_ready st d = Some Ready)"
proof (induction ds)
  case (Cons d ds)
  show ?case
  proof (cases "rs_ready st d = Some Ready")
    case True
    with Cons obtain pre where "ds = pre @ ds'" "\<forall>d \<in> set pre. rs_ready st d = Some Ready" by auto
    with True show ?thesis by (intro exI [of _ "d # pre"]) simp
  next
    case False
    with Cons.prems have "ds' = d # ds" by (auto split: option.splits readiness.splits if_splits)
    then show ?thesis by simp
  qed
qed simp

lemma await_deps_decided: "\<forall>d \<in> set ds. rs_ready st d \<noteq> None \<Longrightarrow> \<exists>b. await_deps st ds = Verdict b"
  by (induction ds) (auto split: option.splits readiness.splits)

section \<open>Outcomes of the ways a node ends\<close>

lemma run_task_not_skipped: "out_outcome (fst (run_task k f c g cap)) \<noteq> Skipped"
  by (auto simp: run_task_def task_exited_def output_of_def Let_def split: completion.splits res.splits prod.splits)

lemma serve_end_outcome: "out_outcome (fst (serve_end k f e g cap)) \<notin> {Skipped, Succeeded}"
  by (auto simp: serve_end_def service_exit_def output_of_def Let_def split: serving_end.splits res.splits prod.splits)

lemma never_came_up_Ok:
  assumes "s \<noteq> StartReady"
  shows "\<exists>out g'. never_came_up k f node s g cap = Ok (out, g') \<and> out_outcome out \<notin> {Skipped, Succeeded}"
  using assms
  by (cases s) (auto simp: never_came_up_def service_exit_def output_of_def Let_def split: res.splits prod.splits)

lemma closing_output_Ok:
  assumes "cl \<noteq> StartStop StartReady"
  shows "\<exists>out. closing_output sr node cl = Ok out \<and> out_outcome out \<noteq> Skipped
    \<and> ((\<forall>c. cl \<noteq> TaskStop c) \<longrightarrow> out_outcome out \<noteq> Succeeded)"
proof (cases cl)
  case (StartStop s)
  with assms never_came_up_Ok [of s "sr_kernel sr" "sr_out_first sr" node group_new "sr_capture sr"]
  show ?thesis by (auto simp: closing_output_def)
qed (use run_task_not_skipped serve_end_outcome in \<open>auto simp: closing_output_def\<close>)

section \<open>Every step is a move of one node\<close>

text \<open>What holds of a node by where its future is suspended and what it has published.\<close>

fun node_ok :: "sched_state \<Rightarrow> node_spec \<Rightarrow> phase \<times> readiness option \<Rightarrow> bool" where
  "node_ok st node (Waiting ds, v) \<longleftrightarrow>
     v = None \<and> (\<exists>pre. depends_on node = pre @ ds \<and> (\<forall>d \<in> set pre. rs_ready st d = Some Ready))"
| "node_ok st node (RunningTask, v) \<longleftrightarrow> \<not> is_service node \<and> v = None"
| "node_ok st node (Starting, v) \<longleftrightarrow> is_service node \<and> v = None"
| "node_ok st node (Serving, v) \<longleftrightarrow> is_service node \<and> v = Some Ready"
| "node_ok st node (Closing (TaskStop c), v) \<longleftrightarrow> \<not> is_service node \<and> v = None"
| "node_ok st node (Closing (StartStop s), v) \<longleftrightarrow> is_service node \<and> s \<noteq> StartReady \<and> v = Some Unavailable"
| "node_ok st node (Closing (ServeStop e), v) \<longleftrightarrow> is_service node \<and> v = Some Ready"
| "node_ok st node (Settled, v) \<longleftrightarrow> v \<noteq> None"

definition moves :: "nodes \<Rightarrow> sched_state \<Rightarrow> sched_state \<Rightarrow> bool" where
  "moves nodes st st' \<longleftrightarrow>
     (\<exists>n node ph s ev out. map_of nodes n = Some node \<and> rs_phase st n = Some ph
        \<and> life st n node (ph, rs_ready st n) ev out s \<and> advances st n node s ev out st')"

lemma movesI:
  "map_of nodes n = Some node \<Longrightarrow> rs_phase st n = Some ph \<Longrightarrow> life st n node (ph, rs_ready st n) ev out s \<Longrightarrow>
   advances st n node s ev out st' \<Longrightarrow> moves nodes st st'"
  unfolding moves_def by blast

lemma advances_skip:
  "advances st n node (Settled, Some Unavailable) [NodeFinished n Skipped] (Some Skipped) (skip_node n node reason st)"
proof -
  have "\<exists>r. rec_outcome r = Skipped \<and> rs_records (skip_node n node reason st) = bt_insert n r (rs_records st)"
    by (intro exI [of _ "never_ran reason"]) (simp add: skip_node_def run_fields never_ran_def)
  then show ?thesis by (auto simp: advances_def skip_node_def run_fields split: option.splits)
qed

lemma advances_suspend:
  assumes "rs_phase st1 = rs_phase st" "rs_ready st1 = (rs_ready st)(n := v)" "rs_records st1 = rs_records st"
    "rs_remaining st1 = rs_remaining st" "rs_events st1 = rs_events st @ ev"
    "rs_shutdown st \<noteq> None \<longrightarrow> rs_shutdown st1 = rs_shutdown st" and "ph \<noteq> Settled"
  shows "advances st n node (ph, v) ev None (suspend n ph st1)"
  using assms by (auto simp: advances_def run_fields)

lemma execute_moves:
  assumes "rs_phase st n = Some (Waiting ds)" and "\<forall>d \<in> set ds. rs_ready st d = Some Ready" and "map_of nodes n = Some node"
  shows "moves nodes st (execute n node err dur (report (NodeStarted n) st))"
proof (cases err)
  case None
  have "advances st n node (if is_service node then Starting else RunningTask, rs_ready st n) [NodeStarted n] None
      (execute n node err dur (report (NodeStarted n) st))"
    unfolding execute_def None option.case by (rule advances_suspend) (simp_all add: run_fields)
  from movesI [OF assms(3,1) life_start [OF assms(2)] this] show ?thesis .
next
  case (Some e)
  let ?st1 = "if is_service node then request Aborted (send_ready n Unavailable (report (NodeStarted n) st))
    else report (NodeStarted n) st"
  have "advances st n node (Settled, Some Unavailable) ([NodeStarted n] @ [NodeFinished n (out_outcome (spawn_failed e))])
      (Some (out_outcome (spawn_failed e))) (finish_node n node dur (spawn_failed e) ?st1)"
    by (rule advances_finish [where v = "if is_service node then Some Unavailable else rs_ready st n"])
      (auto simp: run_fields spawn_failed_def split: option.splits)
  then have "advances st n node (Settled, Some Unavailable) [NodeStarted n, NodeFinished n (Failed 127)] (Some (Failed 127))
      (execute n node err dur (report (NodeStarted n) st))"
    by (simp add: execute_def Some spawn_failed_def)
  from movesI [OF assms(3,1) life_spawn_failed [OF assms(2)] this] show ?thesis .
qed

lemma wake_moves:
  assumes "rs_phase st n = Some (Waiting ds)" and "await_deps st ds \<noteq> Pending ds" and "map_of nodes n = Some node"
  shows "moves nodes st (wake n node ds err dur st)"
proof (cases "await_deps st ds")
  case (Pending ds')
  obtain pre where pre: "ds = pre @ ds'" "\<forall>d \<in> set pre. rs_ready st d = Some Ready"
    using await_deps_Pending [OF Pending] by blast
  have "advances st n node (Waiting ds', rs_ready st n) [] None (suspend n (Waiting ds') st)"
    by (rule advances_suspend) simp_all
  moreover have "pre \<noteq> []" using assms(2) Pending pre(1) by auto
  ultimately show ?thesis
    using movesI [OF assms(3,1) life_wait [OF pre(1) _ pre(2)]] by (simp add: wake_def Pending)
next
  case (Verdict b)
  show ?thesis
  proof (cases "b \<and> rs_shutdown st = None")
    case True
    then have "\<forall>d \<in> set ds. rs_ready st d = Some Ready" using Verdict by (simp add: await_deps_True)
    from execute_moves [OF assms(1) this assms(3)] True Verdict show ?thesis by (simp add: wake_def)
  next
    case False
    then show ?thesis using movesI [OF assms(3,1) life_skip advances_skip] Verdict
      by (cases b) (auto simp: wake_def)
  qed
qed

lemma end_advances:
  assumes "rs_phase st1 = rs_phase st" "rs_ready st1 = (rs_ready st)(n := v)" "rs_records st1 = rs_records st"
    "rs_remaining st1 = rs_remaining st" "rs_events st1 = rs_events st"
    "rs_shutdown st \<noteq> None \<longrightarrow> rs_shutdown st1 = rs_shutdown st" and "cl \<noteq> StartStop StartReady"
  obtains r where "r \<noteq> Skipped" and "(\<forall>c. cl \<noteq> TaskStop c) \<longrightarrow> r \<noteq> Succeeded"
    and "advances st n node (Settled, if is_service node then v else Some (if r = Succeeded then Ready else Unavailable))
      [NodeFinished n r] (Some r) (end_node n node sr cl st1)"
proof -
  obtain out where out: "closing_output sr node cl = Ok out" "out_outcome out \<noteq> Skipped"
      "(\<forall>c. cl \<noteq> TaskStop c) \<longrightarrow> out_outcome out \<noteq> Succeeded"
    using closing_output_Ok [OF assms(7), of sr node] by blast
  have "advances st n node (Settled, if is_service node then v else Some (if out_outcome out = Succeeded then Ready else Unavailable))
      ([] @ [NodeFinished n (out_outcome out)]) (Some (out_outcome out)) (finish_node n node (sr_duration sr) out st1)"
    using assms by (intro advances_finish) simp_all
  then show thesis using that [OF out(2,3)] by (simp add: end_node_def out(1))
qed

text \<open>A wait that ended either closes the node at once or suspends it for the clean-up.\<close>

lemma close_moves:
  assumes "rs_phase st1 = rs_phase st" "rs_ready st1 = (rs_ready st)(n := v)" "rs_records st1 = rs_records st"
    "rs_remaining st1 = rs_remaining st" "rs_events st1 = rs_events st"
    "rs_shutdown st \<noteq> None \<longrightarrow> rs_shutdown st1 = rs_shutdown st" and "cl \<noteq> StartStop StartReady"
    and node: "map_of nodes n = Some node" "rs_phase st n = Some ph"
    and closing: "life st n node (ph, rs_ready st n) [] None (Closing cl, v)"
    and ending: "\<And>r. r \<noteq> Skipped \<Longrightarrow> (\<forall>c. cl \<noteq> TaskStop c) \<longrightarrow> r \<noteq> Succeeded \<Longrightarrow>
      life st n node (ph, rs_ready st n) [NodeFinished n r] (Some r)
        (Settled, if is_service node then v else Some (if r = Succeeded then Ready else Unavailable))"
  shows "moves nodes st (close_node n node sr cl st1)"
proof (cases "closes_at_once cl")
  case True
  obtain r where "r \<noteq> Skipped" "(\<forall>c. cl \<noteq> TaskStop c) \<longrightarrow> r \<noteq> Succeeded"
    and "advances st n node (Settled, if is_service node then v else Some (if r = Succeeded then Ready else Unavailable))
      [NodeFinished n r] (Some r) (end_node n node sr cl st1)"
    using end_advances [OF assms(1-7)] by blast
  with movesI [OF node ending] True show ?thesis by (simp add: close_node_def)
next
  case False
  have "advances st n node (Closing cl, v) [] None (suspend n (Closing cl) st1)"
    using assms by (intro advances_suspend) simp_all
  from movesI [OF node closing this] False show ?thesis by (simp add: close_node_def)
qed

lemma closed_moves:
  assumes "map_of nodes n = Some node" and "rs_phase st n = Some (Closing cl)" and "node_ok st node (Closing cl, rs_ready st n)"
  shows "moves nodes st (end_node n node sr cl st)"
proof -
  have ne: "cl \<noteq> StartStop StartReady" using assms(3) by auto
  obtain r where "r \<noteq> Skipped" "(\<forall>c. cl \<noteq> TaskStop c) \<longrightarrow> r \<noteq> Succeeded"
    and adv: "advances st n node (Settled, if is_service node then rs_ready st n else Some (if r = Succeeded then Ready else Unavailable))
      [NodeFinished n r] (Some r) (end_node n node sr cl st)"
    using end_advances [of st st n "rs_ready st n" cl node sr] ne by auto
  then have "life st n node (Closing cl, rs_ready st n) [NodeFinished n r] (Some r)
      (Settled, if is_service node then rs_ready st n else Some (if r = Succeeded then Ready else Unavailable))"
    using assms(3) by (cases cl) (auto intro: life.intros)
  from movesI [OF assms(1,2) this adv] show ?thesis .
qed

lemma started_moves:
  assumes "map_of nodes n = Some node" and "rs_phase st n = Some Starting" and "is_service node"
  shows "moves nodes st (started_service n node sr s st)"
proof (cases "s = StartReady")
  case True
  have "advances st n node (Serving, Some Ready) [NodeReady n] None (suspend n Serving (send_ready n Ready (report (NodeReady n) st)))"
    by (rule advances_suspend) (simp_all add: run_fields)
  from movesI [OF assms(1,2) life_ready this] True show ?thesis by (simp add: started_service_def)
next
  case False
  have "moves nodes st (close_node n node sr (StartStop s) (request_opt (startup_request s) (send_ready n Unavailable st)))"
    using False assms by (intro close_moves [where v = "Some Unavailable"]) (auto simp: run_fields intro: life.intros split: option.splits)
  with False show ?thesis by (simp add: started_service_def)
qed

lemma step_moves:
  assumes "run_step nodes own st st'"
    and ok: "\<And>n node ph. map_of nodes n = Some node \<Longrightarrow> rs_phase st n = Some ph \<Longrightarrow> node_ok st node (ph, rs_ready st n)"
  shows "moves nodes st st' \<or> rs_shutdown st = None \<and> st' = request Cancelled st"
  using assms(1)
proof cases
  case (step_wake n node ds err dur)
  with wake_moves show ?thesis by blast
next
  case (step_task n node elapsed gone c sr)
  with ok have s: "\<not> is_service node" by fastforce
  have "moves nodes st (close_node n node sr (TaskStop c) st)"
    using step_task s by (intro close_moves [where v = "rs_ready st n"]) (auto intro: life.intros)
  with step_task show ?thesis by simp
next
  case (step_startup n node elapsed gone probe s sr)
  with ok have "is_service node" by fastforce
  with step_startup started_moves show ?thesis by blast
next
  case (step_serving n node gone died e sr)
  with ok have s: "is_service node" by fastforce
  have "moves nodes st (close_node n node sr (ServeStop e) (request_opt (serving_request e) st))"
    using step_serving s by (intro close_moves [where v = "rs_ready st n"]) (auto simp: run_fields intro: life.intros split: option.splits)
  with step_serving show ?thesis by (simp add: served_def)
next
  case (step_closed n node cl sr)
  with closed_moves ok show ?thesis by blast
qed simp

section \<open>The invariant\<close>

fun event_node :: "event \<Rightarrow> string" where
  "event_node (NodeStarted n) = n"
| "event_node (NodeReady n) = n"
| "event_node (NodeFinished n _) = n"

definition about :: "string \<Rightarrow> event list \<Rightarrow> event list" where
  "about n evs = filter (\<lambda>e. event_node e = n) evs"

lemma about_append [simp]: "about n (xs @ ys) = about n xs @ about n ys"
  by (simp add: about_def)

text \<open>The whole story of a settled node: it was skipped, or started and finished, or was a service that came up.\<close>

definition story :: "string \<Rightarrow> node_spec \<Rightarrow> readiness option \<Rightarrow> event list \<Rightarrow> outcome \<Rightarrow> bool" where
  "story n node v ev r \<longleftrightarrow>
     ev = [NodeFinished n Skipped] \<and> r = Skipped \<and> v = Some Unavailable
     \<or> ev = [NodeStarted n, NodeFinished n r] \<and> r \<noteq> Skipped \<and> (is_service node \<longrightarrow> r \<noteq> Succeeded)
         \<and> v = Some (if r = Succeeded then Ready else Unavailable)
     \<or> ev = [NodeStarted n, NodeReady n, NodeFinished n r] \<and> is_service node \<and> r \<noteq> Skipped \<and> r \<noteq> Succeeded \<and> v = Some Ready"

fun trace_ok :: "string \<Rightarrow> node_spec \<Rightarrow> phase \<times> readiness option \<Rightarrow> event list \<Rightarrow> outcome option \<Rightarrow> bool" where
  "trace_ok n node (Waiting ds, v) ev r \<longleftrightarrow> ev = [] \<and> r = None"
| "trace_ok n node (RunningTask, v) ev r \<longleftrightarrow> ev = [NodeStarted n] \<and> r = None"
| "trace_ok n node (Starting, v) ev r \<longleftrightarrow> ev = [NodeStarted n] \<and> r = None"
| "trace_ok n node (Serving, v) ev r \<longleftrightarrow> ev = [NodeStarted n, NodeReady n] \<and> r = None"
| "trace_ok n node (Closing (ServeStop e), v) ev r \<longleftrightarrow> ev = [NodeStarted n, NodeReady n] \<and> r = None"
| "trace_ok n node (Closing _, v) ev r \<longleftrightarrow> ev = [NodeStarted n] \<and> r = None"
| "trace_ok n node (Settled, v) ev r \<longleftrightarrow> (\<exists>o'. r = Some o' \<and> story n node v ev o')"

lemma life_events: "life st n node s ev out s' \<Longrightarrow> e \<in> set ev \<Longrightarrow> event_node e = n"
  by (induction rule: life.induct) auto

lemma life_settles: "life st n node s ev out s' \<Longrightarrow> fst s \<noteq> Settled"
  by (induction rule: life.induct) auto

lemma life_trace_ok:
  "life st n node s ev out s' \<Longrightarrow> node_ok st node s \<Longrightarrow> trace_ok n node s tr r \<Longrightarrow>
   trace_ok n node s' (tr @ ev) (if out = None then r else out)"
  by (induction rule: life.induct) (auto simp: story_def)

lemma life_node_ok: "life st n node s ev out s' \<Longrightarrow> node_ok st node s \<Longrightarrow> node_ok st node s'"
proof (induction rule: life.induct)
  case (life_wait ds pre ds' v)
  then obtain pre0 where "depends_on node = pre0 @ ds" "\<forall>d \<in> set pre0. rs_ready st d = Some Ready" "v = None" by auto
  with life_wait show ?case by (auto intro!: exI [of _ "pre0 @ pre"])
qed auto

lemma life_keeps_ready: "life st n node s ev out s' \<Longrightarrow> node_ok st node s \<Longrightarrow> snd s = Some Ready \<Longrightarrow> snd s' = Some Ready"
  by (induction rule: life.induct) auto

lemma node_ok_mono:
  assumes "node_ok st node (ph, v)" and "\<And>d. rs_ready st d = Some Ready \<Longrightarrow> rs_ready st' d = Some Ready"
  shows "node_ok st' node (ph, v)"
  using assms by (cases "(st, node, (ph, v))" rule: node_ok.cases) auto

text \<open>A dependency was ready before the events went on: a service was up, a task had succeeded.\<close>

definition was_ready :: "nodes \<Rightarrow> event list \<Rightarrow> string \<Rightarrow> bool" where
  "was_ready nodes evs d \<longleftrightarrow>
     (case map_of nodes d of
        None \<Rightarrow> False
      | Some node \<Rightarrow> if is_service node then NodeReady d \<in> set evs else NodeFinished d Succeeded \<in> set evs)"

definition starts_ok :: "nodes \<Rightarrow> event list \<Rightarrow> bool" where
  "starts_ok nodes evs \<longleftrightarrow> (\<forall>xs n ys. evs = xs @ NodeStarted n # ys \<longrightarrow> (\<forall>d \<in> node_deps nodes n. was_ready nodes xs d))"

lemma starts_ok_snoc:
  assumes "starts_ok nodes evs" and "\<And>n. e = NodeStarted n \<Longrightarrow> \<forall>d \<in> node_deps nodes n. was_ready nodes evs d"
  shows "starts_ok nodes (evs @ [e])"
  unfolding starts_ok_def
proof (intro allI impI)
  fix xs n ys
  assume eq: "evs @ [e] = xs @ NodeStarted n # ys"
  show "\<forall>d \<in> node_deps nodes n. was_ready nodes xs d"
  proof (cases ys rule: rev_cases)
    case Nil
    with eq assms(2) show ?thesis by simp
  next
    case (snoc zs z)
    with eq have "evs = xs @ NodeStarted n # zs" by simp
    with assms(1) show ?thesis by (simp add: starts_ok_def)
  qed
qed

definition unsettled_tasks :: "nodes \<Rightarrow> sched_state \<Rightarrow> string set" where
  "unsettled_tasks nodes st =
     {n. \<exists>node. map_of nodes n = Some node \<and> \<not> is_service node \<and> rs_phase st n \<noteq> Some Settled}"

definition record_outcome :: "sched_state \<Rightarrow> string \<Rightarrow> outcome option" where
  "record_outcome st n = map_option rec_outcome (bt_get (rs_records st) n)"

definition follows_life :: "sched_state \<Rightarrow> string \<Rightarrow> node_spec \<Rightarrow> bool" where
  "follows_life st n node \<longleftrightarrow>
     (\<exists>ph. rs_phase st n = Some ph \<and> node_ok st node (ph, rs_ready st n)
        \<and> trace_ok n node (ph, rs_ready st n) (about n (rs_events st)) (record_outcome st n))"

definition sched_inv :: "nodes \<Rightarrow> sched_state \<Rightarrow> bool" where
  "sched_inv nodes st \<longleftrightarrow>
     (\<forall>n node. map_of nodes n = Some node \<longrightarrow> follows_life st n node)
     \<and> starts_ok nodes (rs_events st)
     \<and> rs_remaining st = card (unsettled_tasks nodes st)
     \<and> bt_wf (rs_records st) \<and> fst ` set (rs_records st) \<subseteq> node_names nodes
     \<and> (\<forall>e \<in> set (rs_events st). event_node e \<in> node_names nodes)
     \<and> (unsettled_tasks nodes st = {} \<and> (\<exists>(n, node) \<in> set nodes. \<not> is_service node) \<longrightarrow> rs_shutdown st \<noteq> None)"

lemma run_inv_life: "sched_inv nodes st \<Longrightarrow> map_of nodes n = Some node \<Longrightarrow> follows_life st n node"
  by (simp add: sched_inv_def)

lemma run_inv_node_ok:
  "sched_inv nodes st \<Longrightarrow> map_of nodes n = Some node \<Longrightarrow> rs_phase st n = Some ph \<Longrightarrow> node_ok st node (ph, rs_ready st n)"
  using run_inv_life [of nodes st n node] by (simp add: follows_life_def)

lemma about_set: "e \<in> set (about n evs) \<Longrightarrow> e \<in> set evs"
  by (simp add: about_def)

lemma ready_was_ready:
  assumes "follows_life st d node" and "map_of nodes d = Some node" and "rs_ready st d = Some Ready"
  shows "was_ready nodes (rs_events st) d"
proof -
  obtain ph where "node_ok st node (ph, Some Ready)" "trace_ok d node (ph, Some Ready) (about d (rs_events st)) (record_outcome st d)"
    using assms by (auto simp: follows_life_def)
  then have "(if is_service node then NodeReady d else NodeFinished d Succeeded) \<in> set (about d (rs_events st))"
    by (cases "(st, node, (ph, Some Ready))" rule: node_ok.cases) (auto simp: story_def split: if_splits)
  from about_set [OF this] assms(2) show ?thesis by (simp add: was_ready_def split: if_splits)
qed

section \<open>The invariant is kept\<close>

lemma advances_record:
  assumes "advances st n node s ev out st'"
  shows "record_outcome st' m = (if m = n \<and> out \<noteq> None then out else record_outcome st m)"
  using assms by (cases out) (auto simp: advances_def record_outcome_def bt_get_insert)

lemma advances_records:
  assumes "advances st n node s ev out st'" and "bt_wf (rs_records st)"
  shows "bt_wf (rs_records st')" and "fst ` set (rs_records st') \<subseteq> insert n (fst ` set (rs_records st))"
proof -
  show "bt_wf (rs_records st')" using assms by (auto simp: advances_def split: option.splits)
  show "fst ` set (rs_records st') \<subseteq> insert n (fst ` set (rs_records st))"
    using assms(1) by (auto simp: advances_def split: option.splits dest!: set_bt_insert)
qed

lemma advances_follows:
  assumes adv: "advances st n node (ph', v') ev out st'" and life: "life st n node (ph, rs_ready st n) ev out (ph', v')"
    and n: "rs_phase st n = Some ph" "node_ok st node (ph, rs_ready st n)"
    and m: "follows_life st m mnode" "m = n \<Longrightarrow> mnode = node"
  shows "follows_life st' m mnode"
proof -
  have mono: "rs_ready st' d = Some Ready" if "rs_ready st d = Some Ready" for d
    using adv life_keeps_ready [OF life n(2)] that by (auto simp: advances_def)
  show ?thesis
  proof (cases "m = n")
    case True
    have tr: "trace_ok n node (ph, rs_ready st n) (about n (rs_events st)) (record_outcome st n)"
      using m True n(1) by (auto simp: follows_life_def)
    have ab: "about n ev = ev" using life_events [OF life] by (simp add: about_def)
    have "node_ok st' node (ph', v')" using node_ok_mono [OF life_node_ok [OF life n(2)] mono] .
    moreover have "trace_ok n node (ph', v') (about n (rs_events st @ ev)) (record_outcome st' n)"
      using life_trace_ok [OF life n(2) tr] ab by (cases out) (simp_all add: advances_record [OF adv])
    ultimately show ?thesis using True m(2) adv by (simp add: follows_life_def advances_def)
  next
    case False
    have "about m ev = []" using life_events [OF life] False by (auto simp: about_def filter_empty_conv)
    then show ?thesis
      using m(1) False adv mono node_ok_mono [of st _ _ _ st']
      by (auto simp: follows_life_def advances_def advances_record [OF adv])
  qed
qed

text \<open>A node starts when all its dependencies have published that they are ready.\<close>

lemma life_starts:
  assumes "life st n node (ph, v) ev out s'" and "NodeStarted m \<in> set ev" and "node_ok st node (ph, v)"
  shows "m = n \<and> (\<exists>rest. ev = NodeStarted n # rest \<and> (\<forall>k. NodeStarted k \<notin> set rest))
    \<and> (\<forall>d \<in> set (depends_on node). rs_ready st d = Some Ready)"
  using assms by cases auto

lemma advances_starts:
  assumes inv: "sched_inv nodes st" and "closed nodes" and node: "map_of nodes n = Some node" "rs_phase st n = Some ph"
    and life: "life st n node (ph, rs_ready st n) ev out s'"
  shows "starts_ok nodes (rs_events st @ ev)"
proof -
  have none: "starts_ok nodes (evs @ ev')" if "starts_ok nodes evs" "\<forall>k. NodeStarted k \<notin> set ev'" for evs ev'
    using that
  proof (induction ev' arbitrary: evs)
    case (Cons e ev')
    then show ?case using starts_ok_snoc [of nodes evs e] Cons.IH [of "evs @ [e]"] by auto
  qed simp
  have st: "starts_ok nodes (rs_events st)" using inv by (simp add: sched_inv_def)
  show ?thesis
  proof (cases "\<exists>m. NodeStarted m \<in> set ev")
    case True
    with life_starts [OF life _ run_inv_node_ok [OF inv node]] obtain rest where ev: "ev = NodeStarted n # rest"
      and rest: "\<forall>k. NodeStarted k \<notin> set rest" and ready: "\<forall>d \<in> set (depends_on node). rs_ready st d = Some Ready" by blast
    have "was_ready nodes (rs_events st) d" if "d \<in> node_deps nodes n" for d
    proof -
      from that have "d \<in> node_names nodes" using assms(2) by (auto simp: closed_def)
      then obtain dnode where d: "map_of nodes d = Some dnode" using node_at_names by blast
      have "rs_ready st d = Some Ready" using that ready node(1) by (simp add: node_deps_def)
      with ready_was_ready [OF run_inv_life [OF inv d] d] show ?thesis by blast
    qed
    then have "starts_ok nodes (rs_events st @ [NodeStarted n])" by (intro starts_ok_snoc [OF st]) auto
    from none [OF this rest] show ?thesis by (simp add: ev)
  qed (use none [OF st] in blast)
qed

lemma names_map_of: "map_of nodes n = Some node \<Longrightarrow> n \<in> node_names nodes"
  by (force simp: node_names_def dest: map_of_SomeD)

lemma finite_unsettled [simp]: "finite (unsettled_tasks nodes st)"
  by (rule finite_subset [of _ "node_names nodes"]) (auto simp: unsettled_tasks_def names_map_of)

lemma advances_unsettled:
  assumes "advances st n node s ev out st'" and "map_of nodes n = Some node" and "rs_phase st n \<noteq> Some Settled"
  shows "unsettled_tasks nodes st' = (if out = None then unsettled_tasks nodes st else unsettled_tasks nodes st - {n})"
    and "n \<in> unsettled_tasks nodes st \<longleftrightarrow> \<not> is_service node"
  using assms by (auto simp: unsettled_tasks_def advances_def)

lemma advances_remaining:
  assumes adv: "advances st n node s ev out st'" and node: "map_of nodes n = Some node" "rs_phase st n \<noteq> Some Settled"
    and inv: "sched_inv nodes st"
  shows "rs_remaining st' = card (unsettled_tasks nodes st')"
    and "unsettled_tasks nodes st' = {} \<and> (\<exists>(n, node) \<in> set nodes. \<not> is_service node) \<longrightarrow> rs_shutdown st' \<noteq> None"
proof -
  note u = advances_unsettled [OF adv node]
  have r: "rs_remaining st = card (unsettled_tasks nodes st)" using inv by (simp add: sched_inv_def)
  show "rs_remaining st' = card (unsettled_tasks nodes st')"
    using adv r u by (auto simp: advances_def)
  show "unsettled_tasks nodes st' = {} \<and> (\<exists>(n, node) \<in> set nodes. \<not> is_service node) \<longrightarrow> rs_shutdown st' \<noteq> None"
  proof (rule impI)
    assume h: "unsettled_tasks nodes st' = {} \<and> (\<exists>(n, node) \<in> set nodes. \<not> is_service node)"
    show "rs_shutdown st' \<noteq> None"
    proof (cases "unsettled_tasks nodes st = {}")
      case True
      with inv h have "rs_shutdown st \<noteq> None" by (simp add: sched_inv_def)
      with adv show ?thesis by (simp add: advances_def)
    next
      case False
      with h u have "out \<noteq> None" "unsettled_tasks nodes st = {n}" by (auto split: if_splits)
      with u(2) r adv show ?thesis by (simp add: advances_def)
    qed
  qed
qed

lemma moves_inv:
  assumes "moves nodes st st'" and inv: "sched_inv nodes st" and "closed nodes"
  shows "sched_inv nodes st'"
proof -
  obtain n node ph ph' v' ev out where n: "map_of nodes n = Some node" "rs_phase st n = Some ph"
    and life: "life st n node (ph, rs_ready st n) ev out (ph', v')" and adv: "advances st n node (ph', v') ev out st'"
    using assms(1) by (auto simp: moves_def)
  have ph: "rs_phase st n \<noteq> Some Settled" using life_settles [OF life] n(2) by simp
  have "follows_life st' m mnode" if "map_of nodes m = Some mnode" for m mnode
    by (rule advances_follows [OF adv life n(2) run_inv_node_ok [OF inv n] run_inv_life [OF inv that]]) (use that n(1) in auto)
  moreover have "starts_ok nodes (rs_events st')"
    using advances_starts [OF inv assms(3) n life] adv by (simp add: advances_def)
  moreover have "\<forall>e \<in> set (rs_events st'). event_node e \<in> node_names nodes"
    using inv adv life_events [OF life] names_map_of [OF n(1)] by (auto simp: sched_inv_def advances_def)
  moreover have wf: "bt_wf (rs_records st)" and keys: "fst ` set (rs_records st) \<subseteq> node_names nodes"
    using inv by (simp_all add: sched_inv_def)
  moreover have "bt_wf (rs_records st')" "fst ` set (rs_records st') \<subseteq> node_names nodes"
    using advances_records [OF adv wf] names_map_of [OF n(1)] keys by blast+
  ultimately show ?thesis
    using advances_remaining [OF adv n(1) ph inv] by (auto simp: sched_inv_def)
qed

lemma request_inv: "sched_inv nodes st \<Longrightarrow> sched_inv nodes (request r st)"
proof -
  assume inv: "sched_inv nodes st"
  have "node_ok (request r st) node s = node_ok st node s" for node s
    by (cases "(st, node, s)" rule: node_ok.cases) (auto simp: run_fields)
  then have "follows_life (request r st) n node = follows_life st n node" for n node
    by (simp add: follows_life_def record_outcome_def run_fields)
  moreover have "unsettled_tasks nodes (request r st) = unsettled_tasks nodes st"
    by (simp add: unsettled_tasks_def run_fields)
  ultimately show ?thesis using inv by (auto simp: sched_inv_def run_fields split: option.splits)
qed

section \<open>The start of a run\<close>

definition spawned :: "nodes \<Rightarrow> string set \<Rightarrow> sched_state" where
  "spawned nodes N = (init_state nodes)\<lparr>rs_phase :=
     (\<lambda>n. if n \<in> N then map_option (\<lambda>node. Waiting (depends_on node)) (map_of nodes n) else None)\<rparr>"

lemma spawn_node_spawned:
  assumes "n \<in> node_names nodes" and "node_deps nodes n \<subseteq> N" and "N \<subseteq> node_names nodes"
  shows "spawn_node nodes n (spawned nodes N) = Ok (spawned nodes (insert n N))"
proof -
  obtain node where node: "map_of nodes n = Some node" "node_deps nodes n = set (depends_on node)"
    using node_at_names [OF assms(1)] by blast
  have "\<exists>dnode. map_of nodes d = Some dnode" if "d \<in> set (depends_on node)" for d
    using that node_at_names [of d nodes] assms(2,3) node(2) by blast
  then have "(map_res (\<lambda>d. expect_some (rs_phase (spawned nodes N) d)) (depends_on node) :: (string, phase list) res)
      = Ok (map (\<lambda>d. the (rs_phase (spawned nodes N) d)) (depends_on node))"
    using assms(2) node(2) by (intro map_res_all_Ok) (fastforce simp: spawned_def)
  moreover have "suspend n (Waiting (depends_on node)) (spawned nodes N) = spawned nodes (insert n N)"
    using node(1) by (simp add: suspend_def spawned_def fun_upd_def cong: if_cong) (rule arg_cong [where f = "\<lambda>p. _\<lparr>rs_phase := p\<rparr>"]; auto)
  ultimately show ?thesis by (simp add: spawn_node_def node_at_def node(1))
qed

lemma run_start_Ok:
  assumes "validate nodes = Ok ()"
  shows "run_start nodes = Ok (spawned nodes (node_names nodes))"
proof -
  note order = spawn_order_valid [OF assms]
  have "ends (fold_res (spawn_node nodes) (spawn_order nodes) (spawned nodes {}))
      (\<lambda>st. st = spawned nodes (set (spawn_order nodes))) (\<lambda>_ :: string. False)"
  proof (rule ends_fold_res [where I = "\<lambda>ns st. st = spawned nodes (set ns)"])
    fix xs n ys st
    assume split: "spawn_order nodes = xs @ n # ys" and "st = spawned nodes (set xs)"
    moreover have "set xs \<subseteq> node_names nodes" "n \<in> node_names nodes" using order(2) split by auto
    ultimately show "ends (spawn_node nodes n st) (\<lambda>st. st = spawned nodes (set (xs @ [n]))) (\<lambda>_ :: string. False)"
      using dag.deps_before [OF split] by (simp add: spawn_node_spawned)
  qed simp
  moreover have "spawned nodes {} = init_state nodes" by (simp add: spawned_def init_state_def)
  ultimately show ?thesis using order by (auto simp: run_start_def ends_def split: res.splits)
qed

lemma unsettled_start:
  assumes "distinct (map fst nodes)"
  shows "length (filter (\<lambda>(_, node). \<not> is_service node) nodes) = card (unsettled_tasks nodes (spawned nodes (node_names nodes)))"
proof -
  let ?ts = "filter (\<lambda>(_, node). \<not> is_service node) nodes"
  have "unsettled_tasks nodes (spawned nodes (node_names nodes)) = fst ` set ?ts"
  proof (intro set_eqI)
    fix n
    have "n \<in> fst ` set ?ts \<longleftrightarrow> (\<exists>node. (n, node) \<in> set nodes \<and> \<not> is_service node)" by force
    also have "\<dots> \<longleftrightarrow> n \<in> unsettled_tasks nodes (spawned nodes (node_names nodes))"
      using assms by (auto simp: unsettled_tasks_def spawned_def names_map_of split: if_splits)
    finally show "n \<in> unsettled_tasks nodes (spawned nodes (node_names nodes)) \<longleftrightarrow> n \<in> fst ` set ?ts" by simp
  qed
  moreover have "distinct (map fst ?ts)" using assms by (rule distinct_map_filter)
  ultimately show ?thesis by (metis distinct_card length_map set_map)
qed

lemma start_inv:
  assumes "distinct (map fst nodes)" and "validate nodes = Ok ()"
  shows "sched_inv nodes (spawned nodes (node_names nodes))"
proof -
  let ?st = "spawned nodes (node_names nodes)"
  have f: "rs_ready ?st = Map.empty" "rs_records ?st = []" "rs_events ?st = []"
    "rs_remaining ?st = length (filter (\<lambda>(_, node). \<not> is_service node) nodes)"
    by (simp_all add: spawned_def init_state_def)
  have "follows_life ?st n node" if "map_of nodes n = Some node" for n node
    using that names_map_of [OF that] f by (simp add: follows_life_def spawned_def record_outcome_def about_def)
  moreover have "\<exists>n. n \<in> unsettled_tasks nodes ?st" if "(n, node) \<in> set nodes" "\<not> is_service node" for n node
    using that assms(1) by (auto simp: unsettled_tasks_def spawned_def names_map_of)
  ultimately show ?thesis
    using unsettled_start [OF assms(1)] f by (fastforce simp: sched_inv_def starts_ok_def)
qed

lemma reachable_inv:
  assumes "reachable nodes st" and "distinct (map fst nodes)"
  shows "validate nodes = Ok () \<and> sched_inv nodes st"
  using assms(1)
proof induction
  case (reach_start st)
  then show ?case using start_inv [OF assms(2)] run_start_Ok by simp
next
  case (reach_step st own st')
  then have inv: "validate nodes = Ok ()" "sched_inv nodes st" by simp_all
  from step_moves [OF reach_step.hyps(2) run_inv_node_ok [OF inv(2)]] show ?case
    using moves_inv [OF _ inv(2) validate_Ok(1) [OF inv(1)]] request_inv [OF inv(2)] inv(1) by blast
qed

section \<open>Runs are finite\<close>

fun phase_weight :: "phase \<Rightarrow> nat" where
  "phase_weight (Waiting ds) = 5 + length ds"
| "phase_weight Starting = 4"
| "phase_weight RunningTask = 3"
| "phase_weight Serving = 3"
| "phase_weight (Closing _) = 2"
| "phase_weight Settled = 1"

definition run_measure :: "nodes \<Rightarrow> sched_state \<Rightarrow> nat" where
  "run_measure nodes st =
     (\<Sum>n \<in> node_names nodes. case rs_phase st n of Some ph \<Rightarrow> phase_weight ph | None \<Rightarrow> 0)
     + (if rs_shutdown st = None then 1 else 0)"

lemma life_weight: "life st n node s ev out s' \<Longrightarrow> phase_weight (fst s') < phase_weight (fst s)"
  by (induction rule: life.induct) auto

lemma moves_measure:
  assumes "moves nodes st st'"
  shows "run_measure nodes st' < run_measure nodes st"
proof -
  obtain n node ph ph' v' ev out where n: "map_of nodes n = Some node" "rs_phase st n = Some ph"
    and life: "life st n node (ph, rs_ready st n) ev out (ph', v')" and adv: "advances st n node (ph', v') ev out st'"
    using assms by (auto simp: moves_def)
  let ?w = "\<lambda>st n. case rs_phase st n of Some ph \<Rightarrow> phase_weight ph | None \<Rightarrow> 0"
  have "(\<Sum>m \<in> node_names nodes. ?w st' m) < (\<Sum>m \<in> node_names nodes. ?w st m)"
  proof (rule sum_strict_mono_ex1)
    show "\<forall>m \<in> node_names nodes. ?w st' m \<le> ?w st m"
      using adv n(2) life_weight [OF life] by (auto simp: advances_def)
    show "\<exists>m \<in> node_names nodes. ?w st' m < ?w st m"
      using adv n names_map_of [OF n(1)] life_weight [OF life] by (intro bexI [of _ n]) (auto simp: advances_def)
  qed simp
  moreover have "rs_shutdown st' = None \<Longrightarrow> rs_shutdown st = None" using adv by (auto simp: advances_def)
  ultimately show ?thesis by (auto simp: run_measure_def)
qed

lemma step_measure:
  assumes "run_step nodes own st st'" and "sched_inv nodes st"
  shows "run_measure nodes st' < run_measure nodes st"
  using step_moves [OF assms(1) run_inv_node_ok [OF assms(2)]]
proof
  assume "rs_shutdown st = None \<and> st' = request Cancelled st"
  then show ?thesis by (simp add: run_measure_def run_fields)
qed (auto intro: moves_measure)

text \<open>A run of some number of steps.\<close>

inductive run_steps :: "nodes \<Rightarrow> nat \<Rightarrow> sched_state \<Rightarrow> sched_state \<Rightarrow> bool" for nodes where
  steps_nil: "run_steps nodes 0 st st"
| steps_snoc: "run_steps nodes k st st' \<Longrightarrow> run_step nodes own st' st'' \<Longrightarrow> run_steps nodes (Suc k) st st''"

lemma run_steps_reachable: "run_steps nodes k st st' \<Longrightarrow> reachable nodes st \<Longrightarrow> reachable nodes st'"
  by (induction rule: run_steps.induct) (auto intro: reach_step)

lemma run_steps_measure:
  assumes "run_steps nodes k st st'" and "reachable nodes st" and "distinct (map fst nodes)"
  shows "run_measure nodes st' + k \<le> run_measure nodes st"
  using assms(1,2)
proof (induction rule: run_steps.induct)
  case (steps_snoc k st st' own st'')
  have "sched_inv nodes st'"
    using reachable_inv [OF run_steps_reachable [OF steps_snoc.hyps(1) steps_snoc.prems] assms(3)] by simp
  with steps_snoc step_measure show ?case by fastforce
qed simp

section \<open>A run goes on until every node has settled\<close>

definition can_step :: "nodes \<Rightarrow> bool \<Rightarrow> sched_state \<Rightarrow> bool" where
  "can_step nodes own st \<longleftrightarrow> (\<exists>st'. run_step nodes own st st')"

text \<open>Once the group is coming down, a node with a child needs nothing from it to go on.\<close>

lemma shutdown_steps:
  assumes "map_of nodes n = Some node" and "rs_phase st n = Some ph" and "rs_shutdown st = Some r"
    and "ph \<in> {RunningTask, Starting, Serving}"
  shows "can_step nodes True st"
proof -
  have t: "select_task (rs_shutdown st) node False None = Some (CompShutDown r)"
    and s: "select_startup (rs_shutdown st) False None False = Some (StartShutDown r)"
    and e: "select_serving (rs_shutdown st) None None = Some ServeShutDown"
    using assms(3) by (simp_all add: select_task_def select_startup_def select_serving_def)
  from assms(4) consider "ph = RunningTask" | "ph = Starting" | "ph = Serving" by blast
  then show ?thesis
    using step_task [OF assms(1) _ t] step_startup [OF assms(1) _ s] step_serving [OF assms(1) _ e] assms(2,3)
    by cases (auto simp: can_step_def)
qed

text \<open>
  The first node of the spawn order that still waits has dependencies that have all been spawned and
  do not wait; either they have published a verdict and the node can be woken, or one is yet to come up.
\<close>

lemma waiting_steps:
  assumes inv: "sched_inv nodes st" and n: "map_of nodes n = Some node" "rs_phase st n = Some (Waiting ds)"
    and decided: "\<And>d. d \<in> node_deps nodes n \<Longrightarrow> rs_ready st d \<noteq> None"
  shows "can_step nodes True st"
proof -
  have "set ds \<subseteq> node_deps nodes n" using run_inv_node_ok [OF inv n] n(1) by (auto simp: node_deps_def)
  then obtain b where "await_deps st ds = Verdict b" using await_deps_decided [of ds st] decided by blast
  then have "await_deps st ds \<noteq> Pending ds" by simp
  from step_wake [OF n this] show ?thesis by (auto simp: can_step_def)
qed

lemma settled_or_busy:
  assumes valid: "validate nodes = Ok ()" and inv: "sched_inv nodes st" and stuck: "\<not> can_step nodes True st"
    and none: "\<And>n. n \<in> node_names nodes \<Longrightarrow> rs_phase st n \<notin> {Some RunningTask, Some Starting}" and n: "n \<in> node_names nodes"
  shows "rs_phase st n \<in> {Some Serving, Some Settled}"
proof -
  have "n \<in> set (spawn_order nodes)" using n spawn_order_valid(2) [OF valid] by simp
  then show ?thesis
  proof (induction rule: dag.listing_induct)
    case (node n)
    have named: "n \<in> node_names nodes" using node.hyps spawn_order_valid(2) [OF valid] by simp
    then obtain spec where spec: "map_of nodes n = Some spec" using node_at_names by blast
    obtain ph where ph: "rs_phase st n = Some ph" using run_inv_life [OF inv spec] by (auto simp: follows_life_def)
    have "rs_ready st d \<noteq> None" if "d \<in> node_deps nodes n" for d
    proof -
      have "d \<in> node_names nodes" using that validate_Ok(1) [OF valid] by (auto simp: closed_def)
      then obtain dspec where d: "map_of nodes d = Some dspec" using node_at_names by blast
      have "rs_phase st d \<in> {Some Serving, Some Settled}" using node.IH [OF that] .
      then show ?thesis using run_inv_node_ok [OF inv d] by auto
    qed
    then have "ph \<noteq> Waiting ds" for ds using waiting_steps [OF inv spec, of ds] ph stuck by blast
    moreover have "ph \<noteq> Closing cl" for cl using step_closed [OF spec, of st cl] ph stuck by (auto simp: can_step_def)
    ultimately show ?case using ph none [OF named] by (cases ph) auto
  qed
qed

lemma shutdown_progress:
  assumes "validate nodes = Ok ()" and inv: "sched_inv nodes st" and "\<not> all_settled nodes st" and "rs_shutdown st \<noteq> None"
  shows "can_step nodes True st"
proof (rule ccontr)
  assume stuck: "\<not> can_step nodes True st"
  obtain r where r: "rs_shutdown st = Some r" using assms(4) by blast
  have busy: "rs_phase st n \<notin> {Some RunningTask, Some Starting, Some Serving}" if n: "n \<in> node_names nodes" for n
  proof -
    obtain node where "map_of nodes n = Some node" using node_at_names [OF n] by blast
    from shutdown_steps [OF this _ r] stuck show ?thesis by blast
  qed
  then have "rs_phase st n = Some Settled" if "n \<in> node_names nodes" for n
    using settled_or_busy [OF assms(1) inv stuck _ that] busy [OF that] by auto
  with assms(3) show False by (simp add: all_settled_def)
qed

lemma step_keeps_shutdown:
  assumes "run_step nodes own st st'" and "sched_inv nodes st" and "rs_shutdown st = Some r"
  shows "rs_shutdown st' = Some r" and "\<exists>ev. rs_events st' = rs_events st @ ev"
  using step_moves [OF assms(1) run_inv_node_ok [OF assms(2)]] assms(3) by (auto simp: moves_def advances_def)

lemma run_steps_Cons: "run_step nodes own st st1 \<Longrightarrow> run_steps nodes k st1 st2 \<Longrightarrow> run_steps nodes (Suc k) st st2"
proof -
  assume "run_steps nodes k st1 st2" and first: "run_step nodes own st st1"
  then show ?thesis
  proof (induction rule: run_steps.induct)
    case (steps_nil st1)
    then show ?case using run_steps.intros by blast
  next
    case (steps_snoc k st1 st' own' st'')
    then show ?case using run_steps.steps_snoc by blast
  qed
qed

lemma shutdown_settles:
  assumes "reachable nodes st" and "distinct (map fst nodes)" and "rs_shutdown st \<noteq> None"
  shows "\<exists>k st'. run_steps nodes k st st' \<and> all_settled nodes st'"
  using assms(1,3)
proof (induction "run_measure nodes st" arbitrary: st rule: less_induct)
  case less
  note inv = reachable_inv [OF less.prems(1) assms(2)]
  show ?case
  proof (cases "all_settled nodes st")
    case True
    then show ?thesis using steps_nil by blast
  next
    case False
    obtain st1 where step: "run_step nodes True st st1"
      using shutdown_progress [OF conjunct1 [OF inv] conjunct2 [OF inv] False less.prems(2)] by (auto simp: can_step_def)
    have "rs_shutdown st1 \<noteq> None"
      using step_keeps_shutdown(1) [OF step conjunct2 [OF inv]] less.prems(2) by blast
    then obtain k st' where "run_steps nodes k st1 st'" "all_settled nodes st'"
      using less.hyps [OF step_measure [OF step conjunct2 [OF inv]] reach_step [OF less.prems(1) step]] by blast
    then show ?thesis using run_steps_Cons [OF step] by blast
  qed
qed

lemma tasks_unsettled:
  assumes "sched_inv nodes st" and "rs_shutdown st = None" and "(n, node) \<in> set nodes" and "\<not> is_service node"
  shows "unsettled_tasks nodes st \<noteq> {}"
  using assms by (auto simp: sched_inv_def)

end
