(* ===== verification/Dag_Results.thy ===== *)
theory Dag_Results
  imports Dag_Sched
begin

text \<open>
  Consequences of the scheduler's invariant: starts are unique and end with the shutdown, the records
  of a settled run and its exit code, the bounds of the measure, and what an idle run looks like.
\<close>

lemma started_once:
  assumes "sched_inv nodes st" and "n \<in> node_names nodes"
  shows "length (filter (\<lambda>e. e = NodeStarted n) (rs_events st)) \<le> 1"
proof -
  obtain node where "map_of nodes n = Some node" using node_at_names [OF assms(2)] by blast
  then obtain ph where "trace_ok n node (ph, rs_ready st n) (about n (rs_events st)) (record_outcome st n)"
    using run_inv_life [OF assms(1)] by (auto simp: follows_life_def)
  then have "length (filter (\<lambda>e. e = NodeStarted n) (about n (rs_events st))) \<le> 1"
    by (cases "(n, node, (ph, rs_ready st n), about n (rs_events st), record_outcome st n)" rule: trace_ok.cases)
      (auto simp: story_def)
  moreover have "filter (\<lambda>e. e = NodeStarted n) (about n evs) = filter (\<lambda>e. e = NodeStarted n) evs" for evs
    by (auto simp: about_def intro!: filter_cong)
  ultimately show ?thesis by simp
qed

lemma shutdown_no_starts:
  assumes "run_step nodes own st st'" and "rs_shutdown st \<noteq> None" and "sched_inv nodes st"
    and "NodeStarted n \<in> set (rs_events st')"
  shows "NodeStarted n \<in> set (rs_events st)"
  using assms(1,2,4)
proof cases
  case (step_wake m node ds err dur)
  with assms(2,4) show ?thesis
    by (auto simp: wake_def skip_node_def run_fields split: awaited.splits bool.splits)
next
  case (step_closed m node cl sr)
  with assms(4) show ?thesis
    by (auto simp: end_node_def finish_node_def Let_def run_fields split: res.splits if_splits)
qed (use assms(2,4) in \<open>auto simp: close_node_def started_service_def served_def end_node_def finish_node_def
    Let_def run_fields split: res.splits if_splits\<close>)

lemma record_keys:
  assumes "sched_inv nodes st" and "distinct (map fst nodes)"
    and "\<And>n node. map_of nodes n = Some node \<Longrightarrow> \<exists>r. bt_get (rs_records st) n = Some r \<and> P n node r"
  shows "map fst (rs_records st) = sort (map fst nodes)"
proof -
  have wf: "bt_wf (rs_records st)" and sub: "fst ` set (rs_records st) \<subseteq> node_names nodes"
    using assms(1) by (simp_all add: sched_inv_def)
  have "node_names nodes \<subseteq> fst ` set (rs_records st)"
  proof
    fix n
    assume "n \<in> node_names nodes"
    then obtain node where "map_of nodes n = Some node" using node_at_names by blast
    with assms(3) show "n \<in> fst ` set (rs_records st)" using bt.keys_iff [OF wf, of n] by fastforce
  qed
  with sub have "set (map fst (rs_records st)) = set (sort (map fst nodes))" by (auto simp: node_names_def)
  moreover have "sorted_wrt (<) (map fst (rs_records st))" using wf by (simp add: bt_wf_def)
  moreover have "sorted_wrt (<) (sort (map fst nodes))" using assms(2) by (simp add: strict_sorted_iff)
  ultimately show ?thesis by (metis strict_sorted_equal)
qed

lemma exit_code_Max:
  "exit_code records = (if records = [] then 0 else Max ((exit_contribution \<circ> rec_outcome) ` set (bt_values records)))"
proof (cases records)
  case (Cons r rs)
  then have "exit_code records = fold max (map (exit_contribution \<circ> rec_outcome \<circ> snd) rs) (exit_contribution (rec_outcome (snd r)))"
    by (simp add: exit_code_def comp_def)
  also have "\<dots> = Max (set (map (exit_contribution \<circ> rec_outcome \<circ> snd) records))"
    unfolding Cons by (subst Max.set_eq_fold [symmetric]) simp
  finally show ?thesis by (simp add: Cons image_comp comp_def)
qed (simp add: exit_code_def)

lemma story_finished: "story n node v ev r \<Longrightarrow> NodeFinished n o' \<in> set ev \<longleftrightarrow> o' = r"
  by (auto simp: story_def)

lemma about_finished: "NodeFinished n o' \<in> set (about n evs) \<longleftrightarrow> NodeFinished n o' \<in> set evs"
  by (simp add: about_def)

lemma finished_iff_record:
  assumes "bt_wf (rs_records st)" and "bt_get (rs_records st) n = Some r"
    and "story n node v (about n (rs_events st)) (rec_outcome r)"
  shows "NodeFinished n o' \<in> set (rs_events st) \<longleftrightarrow> (\<exists>r. (n, r) \<in> set (rs_records st) \<and> rec_outcome r = o')"
proof -
  have "(n, r') \<in> set (rs_records st) \<longleftrightarrow> r' = r" for r'
    using bt.in_entries_iff [OF assms(1)] assms(2) by auto
  then show ?thesis using story_finished [OF assms(3), of o'] by (auto simp: about_finished)
qed

lemma record_contributions:
  assumes sub: "fst ` set (rs_records st) \<subseteq> node_names nodes"
    and ev: "\<And>e. e \<in> set (rs_events st) \<Longrightarrow> event_node e \<in> node_names nodes"
    and rec: "\<And>n o'. n \<in> node_names nodes \<Longrightarrow>
      NodeFinished n o' \<in> set (rs_events st) \<longleftrightarrow> (\<exists>r. (n, r) \<in> set (rs_records st) \<and> rec_outcome r = o')"
  shows "(exit_contribution \<circ> rec_outcome) ` set (bt_values (rs_records st))
    = {exit_contribution o' |n o'. NodeFinished n o' \<in> set (rs_events st)}" (is "?L = ?R")
proof (intro set_eqI iffI)
  fix c
  assume "c \<in> ?L"
  then obtain n r where r: "(n, r) \<in> set (rs_records st)" "c = exit_contribution (rec_outcome r)" by auto
  then have "n \<in> node_names nodes" using sub by (metis fst_conv image_eqI subsetD)
  then have "NodeFinished n (rec_outcome r) \<in> set (rs_events st)" using rec r(1) by blast
  with r(2) show "c \<in> ?R" by blast
next
  fix c
  assume "c \<in> ?R"
  then obtain n o' where e: "NodeFinished n o' \<in> set (rs_events st)" "c = exit_contribution o'" by blast
  have "n \<in> node_names nodes" using ev [OF e(1)] by simp
  then obtain r where "(n, r) \<in> set (rs_records st)" "rec_outcome r = o'" using rec e(1) by blast
  with e(2) show "c \<in> ?L" by (intro image_eqI [of _ _ r]) (auto intro: image_eqI [of _ _ "(n, r)"])
qed

lemma exit_code_events:
  assumes "sched_inv nodes st" and "distinct (map fst nodes)"
    and all: "\<And>n node. map_of nodes n = Some node \<Longrightarrow> \<exists>r. bt_get (rs_records st) n = Some r
      \<and> story n node (rs_ready st n) (about n (rs_events st)) (rec_outcome r)"
  shows "exit_code (rs_records st) =
    (if nodes = [] then 0 else Max {exit_contribution o' |n o'. NodeFinished n o' \<in> set (rs_events st)})"
proof -
  have wf: "bt_wf (rs_records st)" and sub: "fst ` set (rs_records st) \<subseteq> node_names nodes"
    and ev: "\<And>e. e \<in> set (rs_events st) \<Longrightarrow> event_node e \<in> node_names nodes"
    using assms(1) by (simp_all add: sched_inv_def)
  have "map fst (rs_records st) = sort (map fst nodes)" by (rule record_keys [OF assms])
  then have "length (rs_records st) = length nodes" by (metis length_map length_sort)
  then have empty: "rs_records st = [] \<longleftrightarrow> nodes = []" by (metis length_0_conv)
  have "NodeFinished n o' \<in> set (rs_events st) \<longleftrightarrow> (\<exists>r. (n, r) \<in> set (rs_records st) \<and> rec_outcome r = o')"
    if n: "n \<in> node_names nodes" for n o'
  proof -
    obtain node where "map_of nodes n = Some node" using node_at_names [OF n] by blast
    with all finished_iff_record [OF wf] show ?thesis by blast
  qed
  from record_contributions [OF sub ev this] show ?thesis by (simp only: exit_code_Max empty)
qed

lemma measure_least:
  assumes "sched_inv nodes st" and "distinct (map fst nodes)"
  shows "length nodes \<le> run_measure nodes st"
proof -
  have "1 \<le> (case rs_phase st n of Some ph \<Rightarrow> phase_weight ph | None \<Rightarrow> 0)" if n: "n \<in> node_names nodes" for n
  proof -
    obtain node where "map_of nodes n = Some node" using node_at_names [OF n] by blast
    then obtain ph where "rs_phase st n = Some ph" using run_inv_life [OF assms(1)] by (auto simp: follows_life_def)
    then show ?thesis by (cases ph) auto
  qed
  then have "(\<Sum>n \<in> node_names nodes. 1) \<le> (\<Sum>n \<in> node_names nodes. case rs_phase st n of Some ph \<Rightarrow> phase_weight ph | None \<Rightarrow> 0)"
    by (intro sum_mono) auto
  moreover have "card (node_names nodes) = length nodes"
    using distinct_card [OF assms(2)] by (simp add: node_names_def)
  ultimately show ?thesis by (simp add: run_measure_def)
qed

lemma measure_start:
  assumes "distinct (map fst nodes)"
  shows "run_measure nodes (spawned nodes (node_names nodes)) \<le> 1 + (\<Sum>(_, node) \<leftarrow> nodes. 5 + length (depends_on node))"
proof -
  let ?w = "\<lambda>n. case rs_phase (spawned nodes (node_names nodes)) n of Some ph \<Rightarrow> phase_weight ph | None \<Rightarrow> 0"
  have "(\<Sum>n \<in> node_names nodes. ?w n) = (\<Sum>n \<leftarrow> map fst nodes. ?w n)"
    using sum_list_distinct_conv_sum_set [OF assms, of ?w] by (simp add: node_names_def)
  also have "\<dots> = (\<Sum>(_, node) \<leftarrow> nodes. 5 + length (depends_on node))"
    unfolding map_map
  proof (rule arg_cong [where f = sum_list], rule map_cong [OF refl])
    fix x
    assume "x \<in> set nodes"
    moreover obtain n node where "x = (n, node)" by (cases x)
    ultimately have "map_of nodes n = Some node" "n \<in> node_names nodes" "x = (n, node)"
      using assms by (force simp: node_names_def)+
    then show "(?w \<circ> fst) x = (case x of (_, node) \<Rightarrow> 5 + length (depends_on node))" by (simp add: spawned_def)
  qed
  finally show ?thesis by (simp add: run_measure_def)
qed

lemma idle_services:
  assumes "validate nodes = Ok ()" and inv: "sched_inv nodes st" and "distinct (map fst nodes)"
    and "\<not> can_step nodes True st" and "\<not> (\<exists>n \<in> node_names nodes. rs_phase st n \<in> {Some RunningTask, Some Starting})"
    and "rs_shutdown st = None" and x: "(n, node) \<in> set nodes"
  shows "is_service node \<and> rs_phase st n \<in> {Some Serving, Some Settled}"
proof -
  have ph: "rs_phase st m \<in> {Some Serving, Some Settled}" if "m \<in> node_names nodes" for m
    using settled_or_busy [OF assms(1) inv assms(4) _ that] assms(5) by blast
  have "is_service node"
  proof (rule ccontr)
    assume "\<not> is_service node"
    then obtain m mnode where m: "map_of nodes m = Some mnode" "\<not> is_service mnode" "rs_phase st m \<noteq> Some Settled"
      using tasks_unsettled [OF inv assms(6) x] by (auto simp: unsettled_tasks_def)
    with ph [OF names_map_of [OF m(1)]] run_inv_node_ok [OF inv m(1)] show False by fastforce
  qed
  moreover have "n \<in> node_names nodes" using x by (force simp: node_names_def)
  ultimately show ?thesis using ph by blast
qed

end
