(* ===== verification/Dag_Properties.thy ===== *)
theory Dag_Properties
  imports Dag_Results "HOL-Library.Code_Target_Nat"
begin

text \<open>
  The properties of the DAG runner: what validation accepts, the spawn order, the preparation of a
  run, the order of starts, the records and the exit code of a finished run, the length of runs, that
  a run cannot hang inside the runner, and how process groups are signalled.
\<close>

section \<open>A sample run\<close>

text \<open>A service, a task that needs it, and a run in which the service comes up and the task succeeds.\<close>

definition web_node :: node_spec where
  "web_node = \<lparr>command = [''serve''], depends_on = [], node_env = [], timeout_secs = None, node_kind = Service,
     ready_probe = Some (TcpReady ''localhost:80''), ready_timeout_secs = default_ready_timeout_secs,
     node_stdio = Capture, lifeline_fd = Some 3\<rparr>"

definition test_node :: node_spec where
  "test_node = \<lparr>command = [''check''], depends_on = [''web''], node_env = [], timeout_secs = Some 9, node_kind = Task,
     ready_probe = None, ready_timeout_secs = default_ready_timeout_secs, node_stdio = Prefixed, lifeline_fd = None\<rparr>"

definition sample_nodes :: nodes where
  "sample_nodes = [(''web'', web_node), (''test'', test_node)]"

definition calm :: kernel where
  "calm = \<lparr>target_macos = False, killpg = (\<lambda>_. None), child_wait = Ok (Some 0)\<rparr>"

definition quiet :: surroundings where
  "quiet = \<lparr>sr_kernel = calm, sr_out_first = True, sr_capture = capture_none, sr_duration = 1\<rparr>"

definition ok_exit :: captured_exit where
  "ok_exit = \<lparr>ce_status = Ok (Some 0), ce_stdout = tail_new, ce_stderr = tail_new\<rparr>"

definition sample_up :: sched_state where
  "sample_up = started_service ''web'' web_node quiet StartReady
     (wake ''web'' web_node [] None 0 (spawned sample_nodes (node_names sample_nodes)))"

definition sample_running :: sched_state where
  "sample_running = wake ''test'' test_node [''web''] None 0 sample_up"

definition sample_drained :: sched_state where
  "sample_drained = close_node ''test'' test_node quiet (TaskStop (CompExited ok_exit)) sample_running"

definition sample_done :: sched_state where
  "sample_done = end_node ''web'' web_node quiet (ServeStop ServeShutDown) (served ''web'' web_node quiet ServeShutDown sample_drained)"

lemma sample_distinct: "distinct (map fst sample_nodes)"
  by (simp add: sample_nodes_def)

lemma sample_map_of: "map_of sample_nodes ''web'' = Some web_node" "map_of sample_nodes ''test'' = Some test_node"
  by (simp_all add: sample_nodes_def)

lemma sample_valid: "validate sample_nodes = Ok ()"
  by code_simp

lemma sample_running_reachable: "reachable sample_nodes sample_running"
proof -
  let ?st0 = "spawned sample_nodes (node_names sample_nodes)"
  let ?st1 = "wake ''web'' web_node [] None 0 ?st0"
  have r0: "reachable sample_nodes ?st0" by (rule reach_start [OF sample_valid run_start_Ok [OF sample_valid]])
  have p0: "rs_phase ?st0 ''web'' = Some (Waiting [])" by code_simp
  have r1: "reachable sample_nodes ?st1" by (rule reach_step [OF r0 step_wake [OF sample_map_of(1) p0]]) simp
  have p1: "rs_phase ?st1 ''web'' = Some Starting" by code_simp
  have s1: "select_startup (rs_shutdown ?st1) False None True = Some StartReady" by code_simp
  have r2: "reachable sample_nodes sample_up"
    unfolding sample_up_def by (rule reach_step [OF r1 step_startup [OF sample_map_of(1) p1 s1]])
  have p2: "rs_phase sample_up ''test'' = Some (Waiting [''web''])" by code_simp
  have a2: "await_deps sample_up [''web''] \<noteq> Pending [''web'']" by code_simp
  show ?thesis
    unfolding sample_running_def by (rule reach_step [OF r2 step_wake [OF sample_map_of(2) p2 a2]])
qed

lemma sample_done_reachable: "reachable sample_nodes sample_drained" "reachable sample_nodes sample_done"
proof -
  have p: "rs_phase sample_running ''test'' = Some RunningTask" by code_simp
  have s: "select_task (rs_shutdown sample_running) test_node False (Some ok_exit) = Some (CompExited ok_exit)" by code_simp
  show r: "reachable sample_nodes sample_drained"
    unfolding sample_drained_def by (rule reach_step [OF sample_running_reachable step_task [OF sample_map_of(2) p s]])
  have p1: "rs_phase sample_drained ''web'' = Some Serving" by code_simp
  have s1: "select_serving (rs_shutdown sample_drained) None None = Some ServeShutDown" by code_simp
  have r1: "reachable sample_nodes (served ''web'' web_node quiet ServeShutDown sample_drained)"
    by (rule reach_step [OF r step_serving [OF sample_map_of(1) p1 s1]])
  have p2: "rs_phase (served ''web'' web_node quiet ServeShutDown sample_drained) ''web'' = Some (Closing (ServeStop ServeShutDown))"
    by code_simp
  show "reachable sample_nodes sample_done"
    unfolding sample_done_def by (rule reach_step [OF r1 step_closed [OF sample_map_of(1) p2]])
qed

section \<open>Specifications\<close>

text \<open>
  C15: validation accepts a specification exactly when every node by itself makes sense (a command; a
  probe for a service and only for a service; no run limit on a service; no log probe on an inherited
  stream; a lifeline descriptor from 3 on), every dependency names a node, and the dependencies have no
  cycle. It never panics, whatever order the hash map iterates in, and a cycle it reports is a walk
  along dependencies that comes back to a node it has been at.
\<close>

theorem validate_exact:
  "(validate nodes = Ok () \<longleftrightarrow>
      list_all (\<lambda>(name, node). valid_node node \<and> set (depends_on node) \<subseteq> node_names nodes) nodes \<and> acyclic (dag_rel nodes))
   \<and> validate nodes \<noteq> Panic
   \<and> (case validate_nodes nodes nodes of
        Ok _ \<Rightarrow> (case validate nodes of Ok _ \<Rightarrow> True | Err e \<Rightarrow> reports_cycle nodes e | Panic \<Rightarrow> False)
      | Err e \<Rightarrow> validate nodes = Err e
      | Panic \<Rightarrow> False)"
proof -
  let ?V = "\<forall>(name, node) \<in> set nodes. valid_node node \<and> set (depends_on node) \<subseteq> node_names nodes"
  have "validate nodes = Ok () \<longleftrightarrow> ?V \<and> acyclic (dag_rel nodes)"
    using validate_OkI [of nodes] validate_Ok(2) [of nodes] by (auto simp: validate_def res_simps validate_nodes_iff)
  moreover have "reports_cycle nodes e" if v: "validate_nodes nodes nodes = Ok u" and e: "validate nodes = Err e" for e u
  proof -
    have "closed nodes" using v by (simp add: validate_nodes_iff closed_if_nodes)
    from detect_cycle_correct [OF this] v e show ?thesis by (simp add: validate_def)
  qed
  ultimately show ?thesis
    using validate_no_panic [of nodes] validate_nodes_no_panic [of nodes nodes]
    by (auto simp: list_all_iff validate_def split: res.splits)
qed

text \<open>
  C14: the spawn order of a validated specification lists every node exactly once and after all nodes it
  depends on, so that looking up the readiness channel of a dependency cannot panic; and it does not
  depend on the order in which the hash map of nodes happens to iterate.
\<close>

theorem spawn_order_sound:
  assumes "validate nodes = Ok ()" and "distinct (map fst nodes)" and "mset nodes = mset nodes'"
  shows "\<exists>order. topological_order nodes = Ok order \<and> topological_order nodes' = Ok order
    \<and> distinct order \<and> set order = fst ` set nodes
    \<and> (\<forall>xs n ys. order = xs @ n # ys \<longrightarrow> node_deps nodes n \<subseteq> set xs)
    \<and> run_start nodes \<noteq> Panic"
proof -
  obtain order where order: "topological_order nodes = Ok order" "distinct order" "set order = node_names nodes" "deps_first nodes order"
    using topological_order_correct [OF validate_Ok(1,2) [OF assms(1)]] by blast
  note same = same_map [OF assms(2,3)]
  have "visit_topo depth nodes' = visit_topo depth nodes" for depth
    using visit_topo_same_map [OF same(1)] by (intro ext)
  with order(1) same(2,3) have "topological_order nodes' = Ok order" by (simp add: topological_order_def)
  with order run_start_Ok [OF assms(1)] show ?thesis by (auto simp: deps_first_def node_names_def)
qed

theorem spawn_order_sound_witness:
  "\<exists>order. topological_order sample_nodes = Ok order \<and> topological_order (rev sample_nodes) = Ok order
    \<and> order = [''web'', ''test'']"
proof -
  have "topological_order sample_nodes = Ok [''web'', ''test'']" by code_simp
  then show ?thesis using spawn_order_sound [OF sample_valid sample_distinct, of "rev sample_nodes"] by auto
qed

text \<open>
  C27: what is run is exactly what was asked for. When the preparation of a run succeeds, the remaining
  nodes are those named by \<^verbatim>\<open>--only\<close>, or all of them, unchanged; every dependency of one is one of
  them and there is no cycle; the output mode is a concrete one, the one requested unless that was
  automatic; and no node writes to the inherited streams under the spinners or into the JSON stream.
  The preparation never panics.
\<close>

theorem prepare_sound:
  "case prepare only requested is_terminal nodes of
     Ok (spec, mode) \<Rightarrow>
       node_names spec = (if only = [] then node_names nodes else set only) \<and> node_names spec \<subseteq> node_names nodes
       \<and> map_of spec = map_of nodes |` node_names spec
       \<and> closed spec \<and> acyclic (dag_rel spec)
       \<and> mode \<noteq> Auto \<and> (requested = Auto \<or> mode = requested)
       \<and> (mode = Plain \<or> list_all (\<lambda>(_, node). node_stdio node \<noteq> InheritStdio) spec)
   | Err _ \<Rightarrow> True
   | Panic \<Rightarrow> False"
proof -
  let ?pick = "if only \<noteq> [] then filter_only nodes only else Ok nodes"
  have pick: "node_names spec = (if only = [] then node_names nodes else set only) \<and> node_names spec \<subseteq> node_names nodes
      \<and> map_of spec = map_of nodes |` node_names spec" if "?pick = Ok spec" for spec
  proof (cases "only = []")
    case True
    have "map_of nodes = map_of nodes |` node_names nodes"
      by (rule ext) (auto simp: restrict_map_def node_names_def map_of_eq_None_iff)
    with True that show ?thesis by simp
  next
    case False
    with that have f: "filter_only nodes only = Ok spec" by simp
    then have "set only \<subseteq> node_names nodes" by (auto simp: filter_only_def Let_def missing_names_Nil split: if_splits)
    with False filter_only_Ok [OF f] show ?thesis by (auto simp: restrict_map_def)
  qed
  have mode: "mode \<noteq> Auto \<and> (requested = Auto \<or> mode = requested)
      \<and> (mode = Plain \<or> list_all (\<lambda>(_, node). node_stdio node \<noteq> InheritStdio) spec)"
    if "resolve_mode requested is_terminal spec = Ok mode" for spec mode
    using that by (auto simp: resolve_mode_def inheriting_def Let_def list_all_iff filter_empty_conv
        split: output_mode.splits if_splits)
  have np: "?pick \<noteq> Panic" "resolve_mode requested is_terminal spec \<noteq> Panic" for spec
    by (auto simp: filter_only_def resolve_mode_def Let_def split: output_mode.splits)
  show ?thesis
  proof (cases "prepare only requested is_terminal nodes")
    case (Ok x)
    then obtain spec mode where "x = (spec, mode)" "?pick = Ok spec" "validate spec = Ok ()"
        "resolve_mode requested is_terminal spec = Ok mode" by (auto simp: prepare_def res_simps)
    with Ok pick mode validate_Ok [of spec] show ?thesis by auto
  next
    case Panic
    with np validate_no_panic show ?thesis by (auto simp: prepare_def res_simps split: if_splits)
  qed simp
qed

theorem prepare_sound_witness:
  "\<exists>spec. prepare [''web''] Auto True sample_nodes = Ok (spec, Tui) \<and> node_names spec = {''web''}"
proof -
  have "case prepare [''web''] Auto True sample_nodes of Ok (spec, mode) \<Rightarrow> mode = Tui | _ \<Rightarrow> False" by code_simp
  then show ?thesis
    using prepare_sound [where only = "[''web'']" and requested = Auto and is_terminal = True and nodes = sample_nodes] by (auto split: res.splits prod.splits)
qed

section \<open>Runs\<close>

text \<open>
  C2: whenever a node has been started, all it depends on was ready before: a task had finished
  successfully, a service had passed its probe. No node is started twice, and none after the
  shutdown of the group was requested.
\<close>

theorem starts_after_ready:
  assumes "reachable nodes st" and "distinct (map fst nodes)"
  shows "(\<forall>xs n ys. rs_events st = xs @ NodeStarted n # ys \<longrightarrow>
      (\<forall>d \<in> node_deps nodes n. was_ready nodes xs d) \<and> NodeStarted n \<notin> set (xs @ ys))
    \<and> (\<forall>own st' n. run_step nodes own st st' \<and> rs_shutdown st \<noteq> None \<and> NodeStarted n \<in> set (rs_events st') \<longrightarrow>
      NodeStarted n \<in> set (rs_events st) \<and> rs_shutdown st' = rs_shutdown st)"
proof (intro conjI allI impI)
  have inv: "sched_inv nodes st" using reachable_inv [OF assms] by simp
  fix xs n ys
  assume eq: "rs_events st = xs @ NodeStarted n # ys"
  then show "\<forall>d \<in> node_deps nodes n. was_ready nodes xs d" using inv by (auto simp: sched_inv_def starts_ok_def)
  have "n \<in> node_names nodes" using inv eq by (auto simp: sched_inv_def)
  from started_once [OF inv this] eq show "NodeStarted n \<notin> set (xs @ ys)" by (auto simp: about_def filter_empty_conv)
next
  fix own st' n
  assume h: "run_step nodes own st st' \<and> rs_shutdown st \<noteq> None \<and> NodeStarted n \<in> set (rs_events st')"
  have inv: "sched_inv nodes st" using reachable_inv [OF assms] by simp
  from h shutdown_no_starts [of nodes own st st'] inv show "NodeStarted n \<in> set (rs_events st)" by blast
  from h step_keeps_shutdown(1) [of nodes own st st'] inv show "rs_shutdown st' = rs_shutdown st" by auto
qed

theorem starts_after_ready_witness:
  "rs_events sample_running = [NodeStarted ''web'', NodeReady ''web''] @ NodeStarted ''test'' # []
    \<and> was_ready sample_nodes [NodeStarted ''web'', NodeReady ''web''] ''web''"
proof -
  have e: "rs_events sample_running = [NodeStarted ''web'', NodeReady ''web''] @ NodeStarted ''test'' # []" by code_simp
  have "''web'' \<in> node_deps sample_nodes ''test''" by code_simp
  with e starts_after_ready [OF sample_running_reachable sample_distinct] show ?thesis by blast
qed







text \<open>
  A service that ends by itself with status zero fails, and still the run of that service alone exits
  with zero.
\<close>

lemma failed_service_exits_zero:
  assumes "out = fst (serve_end k f (ServeExited ok_exit) g c)"
  shows "out_outcome out = Failed 0" and "main_exit (Some Aborted)
    [(n, \<lparr>rec_outcome = out_outcome out, rec_duration = d, rec_stdout = out_stdout out, rec_stderr = out_stderr out\<rparr>)] = 0"
proof -
  show "out_outcome out = Failed 0"
    by (simp add: assms serve_end_def service_exit_def ok_exit_def code_or_1_def)
  then show "main_exit (Some Aborted)
      [(n, \<lparr>rec_outcome = out_outcome out, rec_duration = d, rec_stdout = out_stdout out, rec_stderr = out_stderr out\<rparr>)] = 0"
    by (simp add: main_exit_def exit_code_def)
qed

section \<open>Process groups\<close>

text \<open>
  C16: however the wait for a node's child ends, its process group is cleaned up and never signalled too
  late. When the child was waited for successfully, when the node ran out of time, when the group is
  shut down, when a service dies or does not come up: no signal is sent after the leader was reaped, when
  its number may belong to somebody else; a group that is still armed when its owner is dropped was not
  reaped; and in every case the leader has been reaped or the whole group was sent the kill signal.
\<close>

theorem process_groups_safe:
  assumes "capture_exit k f group_new c = (ex, gx)"
  shows "group_safe k (snd (run_task k f (CompExited ex) gx c))
    \<and> group_safe k (snd (run_task k f (CompTimedOut secs) group_new c))
    \<and> group_safe k (snd (run_task k f (CompShutDown reason) group_new c))
    \<and> group_safe k (snd (serve_end k f (ServeExited ex) gx c))
    \<and> group_safe k (snd (serve_end k f ServeShutDown group_new c))
    \<and> group_safe k (snd (serve_end k f (ServeDied code) group_new c))
    \<and> (\<exists>out g. never_came_up k f node StartTimedOut group_new c = Ok (out, g) \<and> group_safe k g)
    \<and> (\<exists>out g. never_came_up k f node (StartExited ex) gx c = Ok (out, g) \<and> group_safe k g)
    \<and> (\<exists>out g. never_came_up k f node (StartShutDown reason) group_new c = Ok (out, g) \<and> group_safe k g)"
proof -
  have ex: "ce_status ex = child_wait k" and gx: "gx = reap k group_new"
    using assms by (auto simp: capture_exit_def Let_def)
  have none: "gx = group_new" if "child_wait k = Err e" for e using that by (simp add: gx reap_def)
  have reaped: "group_safe k (disarm gx)" if "child_wait k = Ok s" for s
    using that by (simp add: gx reap_def group_safe_def drop_group_def disarm_def logged_def group_new_def)
  have new: "group_safe k group_new" by (simp add: group_safe_def group_new_def drop_group_def logged_def)
  have service: "group_safe k (snd (service_exit gx ex when))" for "when"
    using reaped none new by (auto simp: service_exit_def ex gx reap_def split: res.splits)
  have task: "group_safe k (snd (run_task k f (CompExited ex) gx c))"
    using reaped none new terminate_group_safe [of k]
    by (auto simp: run_task_def task_exited_def ex gx reap_def Let_def split: res.splits prod.splits)
  show ?thesis
    using service task stop_group_safe
    by (auto simp: run_task_def serve_end_def never_came_up_def Let_def split: prod.splits) (metis prod.collapse snd_conv)+
qed

theorem process_groups_safe_witness:
  "group_safe calm (snd (run_task calm True (CompExited (fst (capture_exit calm True group_new capture_none)))
     (snd (capture_exit calm True group_new capture_none)) capture_none))"
  using process_groups_safe [of calm True capture_none "fst (capture_exit calm True group_new capture_none)"
      "snd (capture_exit calm True group_new capture_none)" 3 Cancelled 1 web_node] by simp

end
