(* ===== verification/Spec2Isabelle.thy ===== *)
theory Spec2Isabelle
  imports Efx_IR_Properties Efx_Engine_Properties Mc_Bot_Properties Mc_Nbt_Properties Mc_Status_Properties
    Flecs_Properties Dag_Properties
begin

text \<open>
  A verification library for programs of the repository, a monorepo of independent packages under
  \<^verbatim>\<open>src/packages\<close>. Modelled are four groups of packages: the effect system \<^verbatim>\<open>efx\<close> (its IR and
  its engine), the query language of \<^verbatim>\<open>flecs-query\<close>, the wire protocol, the recording bot, the
  server list ping and the NBT encoder of \<^verbatim>\<open>minecraft\<close>, and the \<^verbatim>\<open>dag-runner\<close>. Pure functions of the source are functions; methods that
  change \<^verbatim>\<open>self\<close> pass the state; a Rust result is \<open>res\<close> with the error value in \<open>Err\<close> and
  every panic (index out of range, failed \<^verbatim>\<open>expect\<close>, \<^verbatim>\<open>unreachable!\<close>) in \<open>Panic\<close>, so that
  theorems can rule panics out. Strings are byte lists, and valid UTF-8 is the predicate \<open>utf8\<close>.
  Third-party crates, the file system, sockets, clocks and child processes are arguments.

  \<^bold>\<open>Shared theories.\<close>
  \<^item> \<open>Index_Prelude\<close>: \<open>res\<close>, the \<^verbatim>\<open>?\<close> operator, fallible loops with their invariant rule
    \<open>ends_fold_res\<close>, joined words and decimal numbers.
  \<^item> \<open>BTree_Map\<close>: the locale \<open>ordered_map\<close>, the interface of \<^verbatim>\<open>BTreeMap\<close>, interpreted by sorted
    association lists.
  \<^item> \<open>Topo_Order\<close>: the locale \<open>topo_listing\<close> of dependency orders, interpreted by the plan order of
    the effect IR (\<open>efx\<close>) and by the spawn order of the DAG runner (\<open>dag\<close>).
  \<^item> \<open>Byte_Text\<close>: bytes, UTF-8, characters, big-endian words and readers over byte slices.

  \<^bold>\<open>The effect system.\<close> \<open>Efx_IR\<close> models \<^verbatim>\<open>efx/ir/src/lib.rs\<close>: literals, effects and plans,
  \<^verbatim>\<open>Plan::from_effects\<close>, \<^verbatim>\<open>topo_order\<close> with its rounds, and the content-addressed
  identities. \<open>Efx_Engine\<close> models \<^verbatim>\<open>efx/engine/src\<close>: the executor registry, the journal with its
  file operations (\<^verbatim>\<open>load\<close>, \<^verbatim>\<open>save\<close> through a temporary file), the diff of a plan against
  the journal, and the level-parallel run. \<open>Efx_Run\<close> specifies a run abstractly by the fates of the
  effects, equations with one solution, and shows that the level-parallel loop computes it.
  \<open>Efx_IR_Properties\<close>: the order exists exactly for closed acyclic plans, errors are real, identities
  depend on content only and changes propagate to all users. \<open>Efx_Engine_Properties\<close>: the refinement
  by fates, exact propagation of failures, what a run writes to the journal, idempotence, crash safety
  of a save, durability of an apply. SHA-256, hex and JSON are the fields of \<open>crates\<close> and
  \<open>codec\<close>; properties that need more (no collision, decoding what was encoded) say so.

  \<^bold>\<open>The query language.\<close> \<open>Flecs_Token\<close> and \<open>Flecs_Parser\<close> model \<^verbatim>\<open>token.rs\<close>, \<^verbatim>\<open>ast.rs\<close>,
  \<^verbatim>\<open>parser.rs\<close> and \<^verbatim>\<open>error.rs\<close> of \<^verbatim>\<open>flecs-query/core\<close>; \<open>Flecs_Fmt\<close> models \<^verbatim>\<open>fmt.rs\<close> and the
  rendering of errors. The term loop and the scopes recurse mutually, so \<open>terms_loop\<close> carries fuel: one
  unit per token of the input, and every call consumes a token, so it never runs out, which is part of
  \<open>parse_total\<close>. \<open>Flecs_Lexing\<close> keeps every position between characters; \<open>Flecs_Parsing\<close> is
  a weakest-precondition calculus for the parser's state with the well-formedness of trees;
  \<open>Flecs_Respell\<close>, \<open>Flecs_Relex\<close>, \<open>Flecs_Reread\<close> and \<open>Flecs_Roundtrip\<close> show that a
  rendered tree is lexed and parsed back. The round trip needs canonical trees: \<open>Flecs_Properties\<close>
  also has a query the code does not reproduce.

  \<^bold>\<open>The Minecraft packages.\<close> \<open>Mc_Wire\<close> models \<^verbatim>\<open>protocol/src/varint.rs\<close> and \<^verbatim>\<open>wire.rs\<close>, with the
  locale \<open>wire_codec\<close> of things written and read back, interpreted by VarInts, frames, strings and
  the records of a replay file. \<open>Mc_Bot\<close> models the bot's framing, packets, replay stream and session
  states. A connection is a list of bursts of bytes, each with the error its end gives; a session's
  loops end because every received packet consumes input. \<open>Mc_Bot_Properties\<close>: round trips, limits,
  error cases, what is answered and what is recorded. Compression and MD5 are parameters. \<open>Mc_Nbt\<close> models
  \<^verbatim>\<open>nbt/src/lib.rs\<close>, which turns JSON into NBT trees: JSON values and NBT tags are the data types of
  their libraries, floating-point numbers their bit patterns, and what the JSON library answers about a
  number is an argument. \<open>Mc_Nbt_Properties\<close>: results are homogeneous and finite, and every such document
  is reached from JSON with explicit tags. \<open>Mc_Status\<close> models \<^verbatim>\<open>protocol/src/slp.rs\<close> and \<^verbatim>\<open>text.rs\<close>:
  addresses, connecting, the exchange on a connection (the bytes the server will send and those written),
  the status document and formatting codes; parsing JSON text and opening a socket are arguments.
  \<open>Mc_Status_Properties\<close>: the forms of an address, what is kept of a text, and the whole query.

  \<^bold>\<open>The DAG runner.\<close> \<open>Dag_Spec\<close> models the specification, its validation, \<^verbatim>\<open>--only\<close>, the output
  mode, \<^verbatim>\<open>detect_cycle\<close> and \<^verbatim>\<open>topological_order\<close>. The depth of both searches is bounded by one
  more than the number of nodes; \<open>Dag_Graph\<close> shows that this is enough, that the cycle check is exact and
  that the order puts dependencies first. \<open>Dag_Process\<close> models one child: outcomes, the bounded tail of
  its output, the pipe readers, the process group and its termination, tasks and services by what
  their \<^verbatim>\<open>select!\<close> answers. \<open>Dag_Run\<close> is the scheduler, a step relation over the shared state and the
  suspension point of every node's future; on the single-threaded runtime the code between two
  suspensions is one step. \<open>Dag_Sched\<close> reduces every step to a move of one node in its life cycle and
  derives the invariant, a decreasing measure and progress; \<open>Dag_Results\<close> draws the consequences.
  \<open>Dag_Properties\<close>: dependencies are ready before a start, runs are finite and cannot hang in the
  runner, records and exit code agree with the events, no process group is signalled after its leader was
  reaped.

  \<^bold>\<open>Not modelled.\<close>
  \<^item> In the modelled packages: the archive a recording is written to and the sockets of the bot; in the
    DAG runner the command line, reading the JSON file, pipes and descriptors of a child, the sockets
    behind a probe, time stamps, and what is printed. They are calls into the operating system or into
    libraries, and enter as arguments.
  \<^item> The command lines of the modelled \<^verbatim>\<open>minecraft\<close> packages (the NBT converter and the bot's arguments): they
    read options and files and call the modelled functions.
  \<^item> The other packages. Most are command lines, services and editors around processes, files, HTTP
    and third-party libraries (parsers, databases, GUI and cloud clients), with little logic of their
    own that could be stated without modelling those libraries; the rest are packaged sources of other
    projects and Nix expressions. Each is listed with its reason in the manifest.
\<close>

end
